(* ===== verification/VTI_Prelude.thy ===== *)
theory VTI_Prelude
  imports Main "HOL-Library.Word" "HOL-Library.Char_ord" "HOL-Library.List_Lexorder"
    "HOL-Library.Sublist"
begin

text \<open>
  What the components share.  Rust's \<open>u8\<close>, \<open>u32\<close> and \<open>u64\<close> are machine words and the two
  saturating operations the code uses are defined on them; a \<open>str\<close> is the list of its UTF-8
  bytes (\<^typ>\<open>string\<close>), so that \<open>len\<close> counts bytes as in Rust and splitting at an ASCII
  separator is splitting the byte list; a \<open>Result\<close> is a sum whose left injection is the error.
  The \<open>str\<close> and iterator functions of the standard library that the code calls (\<open>split\<close>,
  \<open>split_once\<close>, \<open>rsplit_once\<close>, \<open>strip_prefix\<close>, \<open>collect\<close> into a \<open>Result\<close>) are defined here once,
  with the lemmas the components use of them.
\<close>

section \<open>Collections of rules\<close>

named_theorems res_simps \<open>evaluation of results\<close>
named_theorems key_simps \<open>store keys of different kinds differ\<close>
named_theorems run_simps \<open>execution of store programs\<close>
named_theorems scope_simps \<open>scopes and the contexts they cover\<close>

section \<open>Machine integers\<close>

type_synonym u8 = "8 word"
type_synonym u16 = "16 word"
type_synonym u32 = "32 word"
type_synonym u64 = "64 word"
type_synonym bytes = "u8 list"

definition sat_add :: "'a::len word \<Rightarrow> 'a word \<Rightarrow> 'a word" where
  "sat_add a b = (if a + b < a then - 1 else a + b)"

definition sat_sub :: "'a::len word \<Rightarrow> 'a word \<Rightarrow> 'a word" where
  "sat_sub a b = (if a < b then 0 else a - b)"

lemma unat_sat_sub: "unat (sat_sub a b) = unat a - unat b"
  by (auto simp: sat_sub_def word_less_nat_alt unat_sub_if')

lemma word_add_overflow_iff:
  fixes a b :: "'a::len word"
  shows "a + b < a \<longleftrightarrow> 2 ^ LENGTH('a) \<le> unat a + unat b"
proof (cases "unat a + unat b < 2 ^ LENGTH('a)")
  case True
  then have "unat (a + b) = unat a + unat b" by (simp add: unat_add_lem)
  with True show ?thesis by (simp add: word_less_nat_alt)
next
  case False
  moreover have "unat b < 2 ^ LENGTH('a)" by simp
  moreover have "unat (a + b) = unat a + unat b - 2 ^ LENGTH('a)"
    using False by (simp add: unat_plus_if')
  ultimately have "unat (a + b) < unat a" by linarith
  then show ?thesis using False by (simp add: word_less_nat_alt)
qed

lemma unat_sat_add:
  fixes a b :: "'a::len word"
  shows "unat (sat_add a b) = min (unat a + unat b) (2 ^ LENGTH('a) - 1)"
proof (cases "a + b < a")
  case True
  then have "2 ^ LENGTH('a) \<le> unat a + unat b" by (simp add: word_add_overflow_iff)
  then have "min (unat a + unat b) (2 ^ LENGTH('a) - 1) = (2::nat) ^ LENGTH('a) - 1" by linarith
  with True show ?thesis by (simp add: sat_add_def unsigned_minus_1_eq_mask mask_eq_exp_minus_1)
next
  case False
  then have "unat a + unat b < 2 ^ LENGTH('a)" by (simp add: word_add_overflow_iff not_le)
  moreover from this have "unat (sat_add a b) = unat a + unat b"
    using False by (simp add: sat_add_def unat_add_lem)
  ultimately show ?thesis by linarith
qed

lemma sat_sub_le: "sat_sub a b \<le> a"
  by (simp add: word_le_nat_alt unat_sat_sub)

lemma sat_add_ge:
  fixes a b :: "'a::len word"
  shows "a \<le> sat_add a b"
proof -
  have "unat a < 2 ^ LENGTH('a)" by simp
  then have "unat a \<le> 2 ^ LENGTH('a) - 1" by linarith
  then show ?thesis by (simp add: word_le_nat_alt unat_sat_add)
qed

section \<open>Results\<close>

type_synonym ('e, 'a) result = "'e + 'a"

abbreviation Err :: "'e \<Rightarrow> ('e, 'a) result" where "Err \<equiv> Inl"
abbreviation Ok :: "'a \<Rightarrow> ('e, 'a) result" where "Ok \<equiv> Inr"

definition is_ok :: "('e, 'a) result \<Rightarrow> bool" where
  "is_ok r = (case r of Err _ \<Rightarrow> False | Ok _ \<Rightarrow> True)"

definition res_bind :: "('e, 'a) result \<Rightarrow> ('a \<Rightarrow> ('e, 'b) result) \<Rightarrow> ('e, 'b) result" where
  "res_bind r f = (case r of Err e \<Rightarrow> Err e | Ok a \<Rightarrow> f a)"

definition ensure :: "bool \<Rightarrow> 'e \<Rightarrow> ('e, unit) result" where
  "ensure b e = (if b then Ok () else Err e)"

primrec res_all :: "('a \<Rightarrow> ('e, unit) result) \<Rightarrow> 'a list \<Rightarrow> ('e, unit) result" where
  "res_all f [] = Ok ()"
| "res_all f (x # xs) = res_bind (f x) (\<lambda>_. res_all f xs)"

primrec res_collect :: "('a \<Rightarrow> ('e, 'b) result) \<Rightarrow> 'a list \<Rightarrow> ('e, 'b list) result" where
  "res_collect f [] = Ok []"
| "res_collect f (x # xs) = res_bind (f x) (\<lambda>y. res_bind (res_collect f xs) (\<lambda>ys. Ok (y # ys)))"

lemma is_ok_simps [simp]: "is_ok (Ok a)" "\<not> is_ok (Err e)"
  by (simp_all add: is_ok_def)

lemma is_ok_iff: "is_ok r \<longleftrightarrow> (\<exists>a. r = Ok a)"
  by (cases r) simp_all

lemma is_ok_unit: "is_ok (r :: ('e, unit) result) \<longleftrightarrow> r = Ok ()"
  by (cases r) simp_all

lemma res_bind_simps [simp, res_simps]: "res_bind (Ok a) f = f a" "res_bind (Err e) f = Err e"
  by (simp_all add: res_bind_def)

lemma res_bind_Ok_iff: "res_bind r f = Ok b \<longleftrightarrow> (\<exists>a. r = Ok a \<and> f a = Ok b)"
  by (cases r) simp_all

lemma ensure_Ok_iff [simp, res_simps]: "ensure b e = Ok u \<longleftrightarrow> b"
  by (simp add: ensure_def)

lemma res_all_Ok_iff: "res_all f xs = Ok () \<longleftrightarrow> (\<forall>x\<in>set xs. f x = Ok ())"
  by (induction xs) (auto simp: res_bind_Ok_iff)

lemma res_collect_Ok_map: "(\<And>x. x \<in> set xs \<Longrightarrow> f x = Ok (g x)) \<Longrightarrow> res_collect f xs = Ok (map g xs)"
  by (induction xs) simp_all

lemma res_collect_Ok_iff: "res_collect f xs = Ok ys \<longleftrightarrow> list_all2 (\<lambda>x y. f x = Ok y) xs ys"
  by (induction xs arbitrary: ys) (auto simp: res_bind_Ok_iff list_all2_Cons1)

section \<open>The services' error type\<close>

text \<open>\<open>AppError\<close> of \<open>vti-common/src/error.rs\<close>.  The human-readable messages are not part of the
  model: an error is the variant that was returned.\<close>

datatype app_error =
    Config | Io | Store | Serialization | Internal | SecretStore | NotFound | Conflict | Gone
  | Secrets | Authentication | Unauthorized | Forbidden | StepUpRequired | ApprovalRequired
  | Validation | NoMatchingProtocol | TrustTaskMissing | TrustTaskMismatch | TrustTaskMalformed
  | IdempotencyKeyConflict | InvalidCursor | ResourceExhausted | ServiceError | Vsock

definition map_err :: "('e \<Rightarrow> 'f) \<Rightarrow> ('e, 'a) result \<Rightarrow> ('f, 'a) result" where
  "map_err f r = (case r of Err e \<Rightarrow> Err (f e) | Ok a \<Rightarrow> Ok a)"

lemma map_err_simps [simp, res_simps]: "map_err f (Ok a) = Ok a" "map_err f (Err e) = Err (f e)"
  by (simp_all add: map_err_def)

lemma map_err_Ok_iff [simp]: "map_err f r = Ok a \<longleftrightarrow> r = Ok a"
  by (cases r) simp_all

section \<open>Splitting and joining\<close>

primrec split_on :: "'a \<Rightarrow> 'a list \<Rightarrow> 'a list list" where
  "split_on c [] = [[]]"
| "split_on c (x # xs) =
     (if x = c then [] # split_on c xs
      else case split_on c xs of [] \<Rightarrow> [[x]] | s # ss \<Rightarrow> (x # s) # ss)"

fun join_with :: "'a \<Rightarrow> 'a list list \<Rightarrow> 'a list" where
  "join_with c [] = []"
| "join_with c [s] = s"
| "join_with c (s # ss) = s @ c # join_with c ss"

primrec split_once :: "'a \<Rightarrow> 'a list \<Rightarrow> ('a list \<times> 'a list) option" where
  "split_once c [] = None"
| "split_once c (x # xs) =
     (if x = c then Some ([], xs) else map_option (\<lambda>(a, b). (x # a, b)) (split_once c xs))"

primrec rsplit_once :: "'a \<Rightarrow> 'a list \<Rightarrow> ('a list \<times> 'a list) option" where
  "rsplit_once c [] = None"
| "rsplit_once c (x # xs) =
     (case rsplit_once c xs of
        Some (a, b) \<Rightarrow> Some (x # a, b)
      | None \<Rightarrow> if x = c then Some ([], xs) else None)"

fun strip_prefix :: "'a list \<Rightarrow> 'a list \<Rightarrow> 'a list option" where
  "strip_prefix [] ys = Some ys"
| "strip_prefix (x # xs) [] = None"
| "strip_prefix (x # xs) (y # ys) = (if x = y then strip_prefix xs ys else None)"

lemma split_on_not_Nil [simp]: "split_on c xs \<noteq> []"
  by (cases xs) (auto split: list.splits)

lemma split_on_append_sep: "split_on c (xs @ c # ys) = split_on c xs @ split_on c ys"
  by (induction xs) (auto split: list.splits)

lemma split_on_no_sep: "c \<notin> set xs \<Longrightarrow> split_on c xs = [xs]"
  by (induction xs) auto

lemma split_on_parts: "s \<in> set (split_on c xs) \<Longrightarrow> c \<notin> set s"
  by (induction xs arbitrary: s) (auto split: list.splits if_splits)

lemma join_with_Cons: "ss \<noteq> [] \<Longrightarrow> join_with c (s # ss) = s @ c # join_with c ss"
  by (cases ss) simp_all

lemma join_with_append:
  "ss \<noteq> [] \<Longrightarrow> ts \<noteq> [] \<Longrightarrow> join_with c (ss @ ts) = join_with c ss @ c # join_with c ts"
proof (induction ss)
  case (Cons s ss)
  then show ?case by (cases "ss = []") (simp_all add: join_with_Cons)
qed simp

lemma join_split [simp]: "join_with c (split_on c xs) = xs"
proof (induction xs)
  case (Cons x xs)
  obtain s ss where p: "split_on c xs = s # ss" by (cases "split_on c xs") simp_all
  show ?case
  proof (cases "x = c")
    case True
    then show ?thesis using Cons by (simp add: join_with_Cons)
  next
    case False
    then have "join_with c ((x # s) # ss) = x # join_with c (s # ss)" by (cases ss) simp_all
    then show ?thesis using False Cons p by simp
  qed
qed simp

lemma split_join: "ss \<noteq> [] \<Longrightarrow> (\<And>s. s \<in> set ss \<Longrightarrow> c \<notin> set s) \<Longrightarrow> split_on c (join_with c ss) = ss"
proof (induction ss)
  case (Cons s ss)
  then show ?case
    by (cases "ss = []") (simp_all add: split_on_no_sep join_with_Cons split_on_append_sep)
qed simp

lemma split_on_inject: "split_on c xs = split_on c ys \<longleftrightarrow> xs = ys"
  by (metis join_split)

lemma split_on_singleton: "split_on c xs = [s] \<longleftrightarrow> s = xs \<and> c \<notin> set xs"
proof
  assume a: "split_on c xs = [s]"
  then have "join_with c [s] = xs" by (metis join_split)
  moreover have "c \<notin> set s" using a split_on_parts [of s c xs] by simp
  ultimately show "s = xs \<and> c \<notin> set xs" by simp
qed (simp add: split_on_no_sep)

lemma split_once_SomeD: "split_once c xs = Some (a, b) \<Longrightarrow> xs = a @ c # b \<and> c \<notin> set a"
  by (induction xs arbitrary: a) (auto split: if_splits)

lemma split_once_append: "c \<notin> set a \<Longrightarrow> split_once c (a @ c # b) = Some (a, b)"
  by (induction a) auto

lemma split_once_Some_iff: "split_once c xs = Some (a, b) \<longleftrightarrow> xs = a @ c # b \<and> c \<notin> set a"
  by (auto dest: split_once_SomeD intro: split_once_append)

lemma split_once_None_iff: "split_once c xs = None \<longleftrightarrow> c \<notin> set xs"
  by (induction xs) auto

lemma rsplit_once_None_iff: "rsplit_once c xs = None \<longleftrightarrow> c \<notin> set xs"
  by (induction xs) (auto split: option.splits)

lemma rsplit_once_SomeD: "rsplit_once c xs = Some (a, b) \<Longrightarrow> xs = a @ c # b \<and> c \<notin> set b"
  by (induction xs arbitrary: a) (auto simp: rsplit_once_None_iff split: option.splits if_splits)

lemma rsplit_once_append: "c \<notin> set b \<Longrightarrow> rsplit_once c (a @ c # b) = Some (a, b)"
  by (induction a) (auto simp: rsplit_once_None_iff [THEN iffD2])

lemma rsplit_once_Some_iff: "rsplit_once c xs = Some (a, b) \<longleftrightarrow> xs = a @ c # b \<and> c \<notin> set b"
  by (auto dest: rsplit_once_SomeD intro: rsplit_once_append)

lemma strip_prefix_Some_iff: "strip_prefix p xs = Some ys \<longleftrightarrow> xs = p @ ys"
  by (induction p xs rule: strip_prefix.induct) auto

lemma strip_prefix_None_iff: "strip_prefix p xs = None \<longleftrightarrow> \<not> prefix p xs"
  by (induction p xs rule: strip_prefix.induct) auto

section \<open>Bytes\<close>

definition byte_of :: "char \<Rightarrow> u8" where
  "byte_of c = word_of_nat (of_char c)"

definition as_bytes :: "string \<Rightarrow> bytes" where
  "as_bytes s = map byte_of s"

text \<open>\<open>to_be_bytes\<close> of an unsigned integer.\<close>

definition be_bytes :: "'a::len word \<Rightarrow> bytes" where
  "be_bytes w = map (\<lambda>i. ucast (drop_bit (8 * i) w)) (rev [0..<LENGTH('a) div 8])"

lemma byte_of_inj [simp]: "byte_of c = byte_of d \<longleftrightarrow> c = d"
proof -
  have "unat (byte_of x) = of_char x" for x
  proof -
    have "of_char x < (256 :: nat)" by simp
    then show ?thesis by (simp add: byte_of_def unat_of_nat)
  qed
  then show ?thesis by (metis char_of_char)
qed

lemma as_bytes_inj [simp]: "as_bytes s = as_bytes t \<longleftrightarrow> s = t"
  by (simp add: as_bytes_def inj_map_eq_map inj_def)

lemma length_as_bytes [simp]: "length (as_bytes s) = length s"
  by (simp add: as_bytes_def)

lemma length_be_bytes [simp]: "length (be_bytes (w :: 'a::len word)) = LENGTH('a) div 8"
  by (simp add: be_bytes_def)

lemma be_bytes_inj:
  assumes "8 dvd LENGTH('a)" "be_bytes v = be_bytes (w :: 'a::len word)"
  shows "v = w"
proof (rule bit_word_eqI)
  fix n assume n: "n < LENGTH('a)"
  let ?b = "\<lambda>w :: 'a word. (ucast (drop_bit (8 * (n div 8)) w) :: u8)"
  have "\<forall>i \<in> set (rev [0..<LENGTH('a) div 8]). (ucast (drop_bit (8 * i) v) :: u8) = ucast (drop_bit (8 * i) w)"
    using assms(2) unfolding be_bytes_def map_eq_conv .
  moreover have "n div 8 < LENGTH('a) div 8" using n assms(1) by (metis div_less_iff_less_mult dvd_div_mult_self zero_less_numeral)
  ultimately have "?b v = ?b w" by simp
  then have "bit (?b v) (n mod 8) = bit (?b w) (n mod 8)" by simp
  then show "bit v n = bit w n" using n by (simp add: bit_unsigned_iff bit_drop_bit_eq)
qed

lemma be64_inj [simp]: "be_bytes (v :: u64) = be_bytes w \<longleftrightarrow> v = w"
  using be_bytes_inj [of v w] by auto

lemma be32_inj [simp]: "be_bytes (x :: u32) = be_bytes y \<longleftrightarrow> x = y"
  using be_bytes_inj [of x y] by auto

end
