(* ===== verification/Context_Path.thy ===== *)
theory Context_Path
  imports VTI_Prelude
begin

text \<open>
  Identifiers, DIDs and context paths: \<open>vta-sdk/src/identifier.rs\<close> and
  \<open>vta-sdk/src/context_path.rs\<close>.  The validators are translated with the order of their checks;
  an error value names the branch that was taken.  The validators are proved equivalent to
  declarative grammars (for the DID check, the ABNF the source quotes), and the segment loop of
  \<^verbatim>\<open>is_ancestor_or_self\<close> to a description of the two strings, from which the order laws that the
  access checks rely on follow.
\<close>

section \<open>Identifiers\<close>

datatype validation_error =
    MustNotBeEmpty
  | TooLong nat
  | InvalidCharacter char nat
  | PathEmpty
  | PathStartsOrEndsWithSeparator
  | PathTooDeep nat
  | PathEmptySegment
  | DidTooLong
  | DidNoPrefix
  | DidNoMethodSpecificId
  | DidBadMethod
  | DidBadEnd
  | DidBadPercent
  | DidBadCharacter

definition MAX_IDENTIFIER_LEN :: nat where "MAX_IDENTIFIER_LEN = 64"

definition MAX_DID_CORE_LEN :: nat where "MAX_DID_CORE_LEN = 1024"

definition is_ascii_lowercase :: "char \<Rightarrow> bool" where
  "is_ascii_lowercase c \<longleftrightarrow> CHR ''a'' \<le> c \<and> c \<le> CHR ''z''"

definition is_ascii_uppercase :: "char \<Rightarrow> bool" where
  "is_ascii_uppercase c \<longleftrightarrow> CHR ''A'' \<le> c \<and> c \<le> CHR ''Z''"

definition is_ascii_digit :: "char \<Rightarrow> bool" where
  "is_ascii_digit c \<longleftrightarrow> CHR ''0'' \<le> c \<and> c \<le> CHR ''9''"

definition is_ascii_alphanumeric :: "char \<Rightarrow> bool" where
  "is_ascii_alphanumeric c \<longleftrightarrow> is_ascii_lowercase c \<or> is_ascii_uppercase c \<or> is_ascii_digit c"

definition is_ascii_hexdigit :: "char \<Rightarrow> bool" where
  "is_ascii_hexdigit c \<longleftrightarrow> is_ascii_digit c \<or> (CHR ''a'' \<le> c \<and> c \<le> CHR ''f'') \<or>
     (CHR ''A'' \<le> c \<and> c \<le> CHR ''F'')"

lemmas ascii_class_defs = is_ascii_alphanumeric_def is_ascii_lowercase_def is_ascii_uppercase_def
  is_ascii_digit_def is_ascii_hexdigit_def

definition identifier_char :: "char \<Rightarrow> bool" where
  "identifier_char ch \<longleftrightarrow>
     is_ascii_alphanumeric ch \<or> ch = CHR ''.'' \<or> ch = CHR ''_'' \<or> ch = CHR ''-''"

primrec identifier_loop :: "nat \<Rightarrow> string \<Rightarrow> (validation_error, unit) result" where
  "identifier_loop i [] = Ok ()"
| "identifier_loop i (ch # rest) =
     (if \<not> identifier_char ch then Err (InvalidCharacter ch i) else identifier_loop (i + 1) rest)"

definition validate_identifier :: "string \<Rightarrow> (validation_error, unit) result" where
  "validate_identifier v =
     (if v = [] then Err MustNotBeEmpty
      else if length v > MAX_IDENTIFIER_LEN then Err (TooLong (length v))
      else identifier_loop 0 v)"

lemma identifier_loop_Ok_iff: "identifier_loop i v = Ok () \<longleftrightarrow> list_all identifier_char v"
  by (induction v arbitrary: i) simp_all

lemma validate_identifier_Ok_iff:
  "validate_identifier v = Ok () \<longleftrightarrow>
     v \<noteq> [] \<and> length v \<le> MAX_IDENTIFIER_LEN \<and> list_all identifier_char v"
  by (auto simp: validate_identifier_def identifier_loop_Ok_iff)

lemma identifier_char_neq_separators [simp]:
  "\<not> identifier_char (CHR ''/'')" "\<not> identifier_char (CHR '':'')"
  "\<not> identifier_char (CHR '' '')"
  by (simp_all add: identifier_char_def ascii_class_defs)

section \<open>DIDs\<close>

definition did_idchar :: "char \<Rightarrow> bool" where
  "did_idchar c \<longleftrightarrow>
     is_ascii_alphanumeric c \<or> c = CHR ''.'' \<or> c = CHR ''-'' \<or> c = CHR ''_''"

fun did_loop :: "string \<Rightarrow> (validation_error, unit) result" where
  "did_loop [] = Ok ()"
| "did_loop (c # b) =
     (if did_idchar c \<or> c = CHR '':'' then did_loop b
      else if c = CHR ''%'' then
        (case b of
           h # l # b' \<Rightarrow> if is_ascii_hexdigit h \<and> is_ascii_hexdigit l then did_loop b'
                          else Err DidBadPercent
         | _ \<Rightarrow> Err DidBadPercent)
      else Err DidBadCharacter)"

definition validate_did_core :: "string \<Rightarrow> (validation_error, unit) result" where
  "validate_did_core v =
     (if length v > MAX_DID_CORE_LEN then Err DidTooLong
      else case strip_prefix ''did:'' v of
        None \<Rightarrow> Err DidNoPrefix
      | Some rest \<Rightarrow> (case split_once (CHR '':'') rest of
          None \<Rightarrow> Err DidNoMethodSpecificId
        | Some (meth, msid) \<Rightarrow>
            if meth = [] \<or> \<not> list_all (\<lambda>b. is_ascii_lowercase b \<or> is_ascii_digit b) meth
            then Err DidBadMethod
            else if msid = [] \<or> last msid = CHR '':'' then Err DidBadEnd
            else did_loop msid))"

text \<open>The ABNF the source quotes, as a grammar: a run of \<open>idchar\<close>s, and a method-specific
  identifier as such runs separated by colons, the last of them not empty.\<close>

inductive idchars :: "string \<Rightarrow> bool" where
  idchars_Nil: "idchars []"
| idchars_char: "did_idchar c \<Longrightarrow> idchars s \<Longrightarrow> idchars (c # s)"
| idchars_pct: "is_ascii_hexdigit h \<Longrightarrow> is_ascii_hexdigit l \<Longrightarrow> idchars s \<Longrightarrow>
    idchars (CHR ''%'' # h # l # s)"

definition did_grammar :: "string \<Rightarrow> bool" where
  "did_grammar v \<longleftrightarrow> (\<exists>meth parts final. v = ''did:'' @ meth @ '':'' @ join_with (CHR '':'') (parts @ [final])
     \<and> meth \<noteq> [] \<and> list_all (\<lambda>b. is_ascii_lowercase b \<or> is_ascii_digit b) meth
     \<and> list_all idchars parts \<and> idchars final \<and> final \<noteq> [])"

lemma did_idchar_ex [simp]: "\<not> did_idchar (CHR ''%'')" "\<not> did_idchar (CHR '':'')"
  by (simp_all add: did_idchar_def ascii_class_defs)

lemma hexdigit_idchar: "is_ascii_hexdigit c \<Longrightarrow> did_idchar c"
  by (auto simp: did_idchar_def ascii_class_defs intro: order_trans)

lemma idchars_no_colon: "idchars s \<Longrightarrow> CHR '':'' \<notin> set s"
  by (induction rule: idchars.induct) (auto dest!: hexdigit_idchar)

lemma did_loop_append: "idchars s \<Longrightarrow> did_loop (s @ t) = did_loop t"
  by (induction rule: idchars.induct) auto

lemma did_loop_join: "list_all idchars ss \<Longrightarrow> did_loop (join_with (CHR '':'') ss) = Ok ()"
proof (induction ss)
  case (Cons s ss)
  show ?case
  proof (cases "ss = []")
    case True
    then show ?thesis using Cons.prems did_loop_append [of s "[]"] by simp
  next
    case False
    then show ?thesis using Cons by (simp add: join_with_Cons did_loop_append)
  qed
qed simp

lemma split_colon_char:
  "c \<noteq> CHR '':'' \<Longrightarrow> split_on (CHR '':'') (c # b) =
     (c # hd (split_on (CHR '':'') b)) # tl (split_on (CHR '':'') b)"
  by (cases "split_on (CHR '':'') b") simp_all

lemma did_loop_parts: "did_loop b = Ok () \<Longrightarrow> list_all idchars (split_on (CHR '':'') b)"
proof (induction b rule: did_loop.induct)
  case 1
  then show ?case by (simp add: idchars_Nil)
next
  case (2 c b)
  have parts: "list_all idchars (split_on (CHR '':'') x) \<Longrightarrow>
      idchars (hd (split_on (CHR '':'') x)) \<and> list_all idchars (tl (split_on (CHR '':'') x))" for x
    by (cases "split_on (CHR '':'') x") simp_all
  show ?case
  proof (cases "did_idchar c \<or> c = CHR '':''")
    case True
    then have "list_all idchars (split_on (CHR '':'') b)" using 2 by simp
    then show ?thesis
      using True parts [of b]
      by (cases "c = CHR '':''")
        (auto simp: split_colon_char idchars_Nil idchars_char simp del: split_on.simps(2),
         simp add: idchars_Nil)
  next
    case False
    with 2(3) obtain h l b' where b: "c = CHR ''%''" "b = h # l # b'" "is_ascii_hexdigit h"
      "is_ascii_hexdigit l" "did_loop b' = Ok ()"
      by (auto split: if_splits list.splits)
    then have "list_all idchars (split_on (CHR '':'') b')" using 2(2) [of h "l # b'" l b'] False by auto
    moreover have "h \<noteq> CHR '':''" "l \<noteq> CHR '':''" using b hexdigit_idchar by fastforce+
    ultimately show ?thesis using parts [of b'] b
      by (simp add: split_colon_char idchars_pct del: split_on.simps(2))
  qed
qed

lemma last_join_colon:
  assumes "list_all idchars (parts @ [final])"
  shows "(join_with (CHR '':'') (parts @ [final]) = [] \<or>
      last (join_with (CHR '':'') (parts @ [final])) = CHR '':'') \<longleftrightarrow> final = []"
proof (cases "parts = []")
  case True
  then show ?thesis using assms idchars_no_colon [of final] by (cases "final = []") (auto dest: last_in_set)
next
  case False
  then show ?thesis using assms idchars_no_colon [of final]
    by (cases "final = []") (auto simp: join_with_append dest: last_in_set)
qed

lemma msid_check_iff:
  "(msid \<noteq> [] \<and> last msid \<noteq> CHR '':'' \<and> did_loop msid = Ok ()) \<longleftrightarrow>
     (\<exists>parts final. msid = join_with (CHR '':'') (parts @ [final]) \<and> list_all idchars parts \<and>
        idchars final \<and> final \<noteq> [])"
proof
  assume l: "msid \<noteq> [] \<and> last msid \<noteq> CHR '':'' \<and> did_loop msid = Ok ()"
  obtain parts final where s: "split_on (CHR '':'') msid = parts @ [final]"
    by (metis rev_exhaust split_on_not_Nil)
  then have j: "msid = join_with (CHR '':'') (parts @ [final])" by (metis join_split)
  have a: "list_all idchars (parts @ [final])" using l did_loop_parts [of msid] s by simp
  then have "final \<noteq> []" using last_join_colon [OF a] l j by simp
  with a j show "\<exists>parts final. msid = join_with (CHR '':'') (parts @ [final]) \<and>
      list_all idchars parts \<and> idchars final \<and> final \<noteq> []" by auto
next
  assume "\<exists>parts final. msid = join_with (CHR '':'') (parts @ [final]) \<and> list_all idchars parts \<and>
        idchars final \<and> final \<noteq> []"
  then obtain parts final where r: "msid = join_with (CHR '':'') (parts @ [final])"
    "list_all idchars (parts @ [final])" "final \<noteq> []" by auto
  then show "msid \<noteq> [] \<and> last msid \<noteq> CHR '':'' \<and> did_loop msid = Ok ()"
    using did_loop_join [OF r(2)] last_join_colon [OF r(2)] by simp
qed

lemma did_method_no_colon:
  "list_all (\<lambda>b. is_ascii_lowercase b \<or> is_ascii_digit b) meth \<Longrightarrow> CHR '':'' \<notin> set meth"
  by (induction meth) (auto simp: ascii_class_defs)

lemma validate_did_core_Ok_iff:
  "validate_did_core v = Ok () \<longleftrightarrow>
     length v \<le> MAX_DID_CORE_LEN \<and> (\<exists>meth msid. v = ''did:'' @ meth @ '':'' @ msid \<and> meth \<noteq> [] \<and>
       list_all (\<lambda>b. is_ascii_lowercase b \<or> is_ascii_digit b) meth \<and>
       msid \<noteq> [] \<and> last msid \<noteq> CHR '':'' \<and> did_loop msid = Ok ())"
  (is "?L \<longleftrightarrow> ?R")
proof
  assume ?L
  then have len: "length v \<le> MAX_DID_CORE_LEN"
    by (simp add: validate_did_core_def split: if_splits)
  with \<open>?L\<close> obtain rest meth msid where r: "strip_prefix ''did:'' v = Some rest"
    "split_once (CHR '':'') rest = Some (meth, msid)" "meth \<noteq> []"
    "list_all (\<lambda>b. is_ascii_lowercase b \<or> is_ascii_digit b) meth"
    "msid \<noteq> []" "last msid \<noteq> CHR '':''" "did_loop msid = Ok ()"
    by (auto simp: validate_did_core_def split: option.splits if_splits)
  then have "v = ''did:'' @ meth @ '':'' @ msid"
    using strip_prefix_Some_iff [of "''did:''" v rest] split_once_SomeD [of _ rest] by force
  with r len show ?R by blast
next
  assume ?R
  then obtain meth msid where v: "v = ''did:'' @ meth @ '':'' @ msid" "meth \<noteq> []"
    "list_all (\<lambda>b. is_ascii_lowercase b \<or> is_ascii_digit b) meth" "msid \<noteq> []"
    "last msid \<noteq> CHR '':''" "did_loop msid = Ok ()" and len: "length v \<le> MAX_DID_CORE_LEN" by auto
  have "strip_prefix ''did:'' v = Some (meth @ '':'' @ msid)"
    by (simp only: strip_prefix_Some_iff v)
  moreover have "split_once (CHR '':'') (meth @ '':'' @ msid) = Some (meth, msid)"
    using did_method_no_colon [OF v(3)] by (simp add: split_once_append)
  ultimately show ?L using v len by (simp add: validate_did_core_def)
qed

text \<open>C36: \<^verbatim>\<open>validate_did_core\<close> accepts exactly the strings of the DID-core grammar of at most 1024
  bytes: its byte loop, with the look-ahead for percent-encoded octets, is equivalent to the ABNF
  in its documentation.\<close>

theorem validate_did_core_grammar:
  "validate_did_core v = Ok () \<longleftrightarrow> length v \<le> MAX_DID_CORE_LEN \<and> did_grammar v"
  unfolding validate_did_core_Ok_iff msid_check_iff did_grammar_def by blast

section \<open>Context paths\<close>

definition MAX_CONTEXT_DEPTH :: nat where "MAX_CONTEXT_DEPTH = 8"

abbreviation SEPARATOR :: char where "SEPARATOR \<equiv> CHR ''/''"

definition check_segment :: "string \<Rightarrow> (validation_error, unit) result" where
  "check_segment segment =
     (if segment = [] then Err PathEmptySegment else validate_identifier segment)"

definition validate_context_path :: "string \<Rightarrow> (validation_error, unit) result" where
  "validate_context_path v =
     (if v = [] then Err PathEmpty
      else if hd v = SEPARATOR \<or> last v = SEPARATOR then Err PathStartsOrEndsWithSeparator
      else let segs = split_on SEPARATOR v in
        if length segs > MAX_CONTEXT_DEPTH then Err (PathTooDeep (length segs))
        else res_all check_segment segs)"

definition segments :: "string \<Rightarrow> string list" where
  "segments path = split_on SEPARATOR path"

fun ancestor_loop :: "string list \<Rightarrow> string list \<Rightarrow> bool" where
  "ancestor_loop [] desc = True"
| "ancestor_loop (a # anc) [] = False"
| "ancestor_loop (a # anc) (d # desc) = (if a \<noteq> d then False else ancestor_loop anc desc)"

definition is_ancestor_or_self :: "string \<Rightarrow> string \<Rightarrow> bool" where
  "is_ancestor_or_self anc desc \<longleftrightarrow>
     (if anc = [] \<or> desc = [] then False else ancestor_loop (segments anc) (segments desc))"

definition parent_path :: "string \<Rightarrow> string option" where
  "parent_path path = map_option fst (rsplit_once SEPARATOR path)"

definition depth :: "string \<Rightarrow> nat" where
  "depth path = (if path = [] then 0 else length (split_on SEPARATOR path))"

definition child_path :: "string \<Rightarrow> string \<Rightarrow> (validation_error, string) result" where
  "child_path parent segment =
     res_bind (validate_identifier segment) (\<lambda>_.
       let candidate = parent @ [SEPARATOR] @ segment in
       res_bind (validate_context_path candidate) (\<lambda>_. Ok candidate))"

subsection \<open>What a valid path is\<close>

definition wf_path :: "string \<Rightarrow> bool" where
  "wf_path v \<longleftrightarrow> (\<exists>segs. v = join_with SEPARATOR segs \<and> segs \<noteq> [] \<and>
     length segs \<le> MAX_CONTEXT_DEPTH \<and> list_all (\<lambda>s. validate_identifier s = Ok ()) segs)"

lemma valid_segment_no_sep: "validate_identifier s = Ok () \<Longrightarrow> SEPARATOR \<notin> set s"
  by (auto simp: validate_identifier_Ok_iff list_all_iff)

lemma check_segment_Ok_iff: "check_segment s = Ok () \<longleftrightarrow> validate_identifier s = Ok ()"
  by (auto simp: check_segment_def validate_identifier_def)

lemma valid_segments_ends:
  assumes "list_all (\<lambda>s. validate_identifier s = Ok ()) (split_on SEPARATOR v)"
  shows "v \<noteq> []" "hd v \<noteq> SEPARATOR" "last v \<noteq> SEPARATOR"
proof -
  show n: "v \<noteq> []" using assms by (auto simp: validate_identifier_def)
  show "hd v \<noteq> SEPARATOR" using assms n by (cases v) (auto simp: validate_identifier_def)
  show "last v \<noteq> SEPARATOR"
  proof
    assume "last v = SEPARATOR"
    then have "v = butlast v @ SEPARATOR # []" using n by (metis append_butlast_last_id)
    then have "split_on SEPARATOR v = split_on SEPARATOR (butlast v) @ [[]]"
      by (metis split_on_append_sep split_on.simps(1))
    then show False using assms by (simp add: validate_identifier_def)
  qed
qed

lemma validate_context_path_segments:
  "validate_context_path v = Ok () \<longleftrightarrow>
     length (segments v) \<le> MAX_CONTEXT_DEPTH \<and>
     list_all (\<lambda>s. validate_identifier s = Ok ()) (segments v)"
  using valid_segments_ends [of v]
  by (auto simp: validate_context_path_def segments_def Let_def res_all_Ok_iff
      check_segment_Ok_iff list_all_iff)

text \<open>\<^verbatim>\<open>validate_context_path\<close> accepts exactly the paths made of one to eight valid identifiers
  joined by the separator.\<close>

theorem validate_context_path_grammar: "validate_context_path v = Ok () \<longleftrightarrow> wf_path v"
proof
  assume "validate_context_path v = Ok ()"
  then show "wf_path v"
    unfolding validate_context_path_segments wf_path_def segments_def
    by (intro exI [of _ "split_on SEPARATOR v"]) simp
next
  assume "wf_path v"
  then obtain segs where v: "v = join_with SEPARATOR segs" "segs \<noteq> []"
    "length segs \<le> MAX_CONTEXT_DEPTH" "list_all (\<lambda>s. validate_identifier s = Ok ()) segs"
    by (auto simp: wf_path_def)
  then have "segments v = segs"
    using split_join [of segs SEPARATOR] valid_segment_no_sep
    by (auto simp: segments_def list_all_iff)
  with v show "validate_context_path v = Ok ()" by (simp add: validate_context_path_segments)
qed

subsection \<open>Ancestry\<close>

lemma ancestor_loop_prefix: "ancestor_loop as ds \<longleftrightarrow> prefix as ds"
  by (induction as ds rule: ancestor_loop.induct) auto

lemma prefix_split_iff:
  "prefix (split_on c a) (split_on c d) \<longleftrightarrow> d = a \<or> (\<exists>rest. d = a @ c # rest)"
proof
  assume "prefix (split_on c a) (split_on c d)"
  then obtain zs where z: "split_on c d = split_on c a @ zs" by (auto simp: prefix_def)
  then have d: "d = join_with c (split_on c a @ zs)" by (metis join_split)
  show "d = a \<or> (\<exists>rest. d = a @ c # rest)"
  proof (cases "zs = []")
    case False
    then have "d = a @ c # join_with c zs" using d join_with_append [of "split_on c a" zs c] by simp
    then show ?thesis by blast
  qed (use d in simp)
qed (auto simp: split_on_append_sep)

lemma is_ancestor_or_self_iff:
  "is_ancestor_or_self a d \<longleftrightarrow> a \<noteq> [] \<and> (d = a \<or> (\<exists>rest. d = a @ SEPARATOR # rest))"
  by (auto simp: is_ancestor_or_self_def segments_def ancestor_loop_prefix prefix_split_iff)

lemma ancestor_refl: "is_ancestor_or_self a a \<longleftrightarrow> a \<noteq> []"
  by (auto simp: is_ancestor_or_self_iff)

lemma ancestor_trans:
  "is_ancestor_or_self a b \<Longrightarrow> is_ancestor_or_self b c \<Longrightarrow> is_ancestor_or_self a c"
  by (auto simp: is_ancestor_or_self_iff)

lemma ancestor_antisym: "is_ancestor_or_self a b \<Longrightarrow> is_ancestor_or_self b a \<Longrightarrow> a = b"
  by (auto simp: is_ancestor_or_self_iff)

lemma ancestors_linear:
  "is_ancestor_or_self a c \<Longrightarrow> is_ancestor_or_self b c \<Longrightarrow>
     is_ancestor_or_self a b \<or> is_ancestor_or_self b a"
  unfolding is_ancestor_or_self_def segments_def ancestor_loop_prefix
  by (auto split: if_splits dest: prefix_same_cases)

lemma ancestor_empty [simp]: "\<not> is_ancestor_or_self [] d" "\<not> is_ancestor_or_self a []"
  by (auto simp: is_ancestor_or_self_def)

text \<open>The contract the access checks rely on: ancestry is a partial order on the paths that take part
  in it, in which the ancestors of a path form a chain.  What a list of contexts covers is then
  closed downwards, and covering is transitive.\<close>

locale subtree_order =
  fixes anc :: "'a \<Rightarrow> 'a \<Rightarrow> bool"
  assumes anc_self: "anc a d \<Longrightarrow> anc a a \<and> anc d d"
    and anc_trans: "anc a b \<Longrightarrow> anc b c \<Longrightarrow> anc a c"
    and anc_antisym: "anc a b \<Longrightarrow> anc b a \<Longrightarrow> a = b"
    and anc_chain: "anc a c \<Longrightarrow> anc b c \<Longrightarrow> anc a b \<or> anc b a"
begin

lemma covered_mono:
  assumes "\<And>c. c \<in> set cs \<Longrightarrow> list_ex (\<lambda>a. anc a c) as" and "list_ex (\<lambda>c. anc c x) cs"
  shows "list_ex (\<lambda>a. anc a x) as"
  using assms unfolding list_ex_iff by (meson anc_trans)

lemma covered_down: "list_ex (\<lambda>a. anc a c) as \<Longrightarrow> anc c x \<Longrightarrow> list_ex (\<lambda>a. anc a x) as"
  by (auto simp: list_ex_iff intro: anc_trans)

end

interpretation ctx: subtree_order is_ancestor_or_self
proof
  show "is_ancestor_or_self a d \<Longrightarrow> is_ancestor_or_self a a \<and> is_ancestor_or_self d d" for a d
    by (auto simp: ancestor_refl)
qed (fact ancestor_trans ancestor_antisym ancestors_linear)+

text \<open>The segment loop of \<^verbatim>\<open>is_ancestor_or_self\<close> holds of two strings exactly when the first is not
  empty and the second is the first, or the first followed by the separator and anything: a
  sibling that merely shares a string prefix (\<^verbatim>\<open>acme-evil\<close> of \<^verbatim>\<open>acme\<close>) is never covered.\<close>

theorem is_ancestor_or_self_string:
  "is_ancestor_or_self a d \<longleftrightarrow>
     a \<noteq> [] \<and> (d = a \<or> take (length a + 1) d = a @ [SEPARATOR])"
proof -
  have "(\<exists>rest. d = a @ SEPARATOR # rest) \<longleftrightarrow> take (length a + 1) d = a @ [SEPARATOR]"
    by (metis append.assoc append_Cons append_eq_conv_conj append_take_drop_id length_append_singleton
        Suc_eq_plus1 append_Nil)
  then show ?thesis by (simp add: is_ancestor_or_self_iff)
qed

lemma child_path_Ok_iff:
  "child_path p s = Ok c \<longleftrightarrow> c = p @ SEPARATOR # s \<and> validate_identifier s = Ok () \<and>
     validate_context_path c = Ok ()"
  by (auto simp: child_path_def res_bind_Ok_iff Let_def)

lemma child_segments: "validate_identifier s = Ok () \<Longrightarrow>
    split_on SEPARATOR (p @ SEPARATOR # s) = split_on SEPARATOR p @ [s]"
  by (simp add: split_on_append_sep split_on_no_sep valid_segment_no_sep)

text \<open>A child made by \<^verbatim>\<open>child_path\<close> is a valid path one level below its parent: \<^verbatim>\<open>parent_path\<close>
  gives back the parent, which is itself a valid path and an ancestor of the child, the depth is
  one more and within the bound, and no child is an ancestor of its parent.\<close>

theorem child_parent_roundtrip:
  assumes "child_path p s = Ok c"
  shows "parent_path c = Some p \<and> validate_context_path c = Ok () \<and> validate_context_path p = Ok () \<and>
    is_ancestor_or_self p c \<and> \<not> is_ancestor_or_self c p \<and> depth c = depth p + 1 \<and>
    depth c \<le> MAX_CONTEXT_DEPTH"
proof -
  from assms have c: "c = p @ SEPARATOR # s" and s: "validate_identifier s = Ok ()"
    and v: "validate_context_path c = Ok ()" by (auto simp: child_path_Ok_iff)
  have par: "parent_path c = Some p" unfolding c parent_path_def
    using valid_segment_no_sep [OF s] by (simp add: rsplit_once_append)
  have seg: "segments c = segments p @ [s]" unfolding c segments_def using s by (rule child_segments)
  have vp: "validate_context_path p = Ok ()" using v by (simp add: validate_context_path_segments seg)
  then have p: "p \<noteq> []" by (auto simp: validate_context_path_def)
  have d: "depth c = depth p + 1" using p c seg by (simp add: depth_def segments_def)
  have "depth c \<le> MAX_CONTEXT_DEPTH"
    using v p c by (simp add: validate_context_path_segments depth_def segments_def)
  with par v vp d p c show ?thesis by (auto simp: is_ancestor_or_self_iff)
qed

theorem child_parent_roundtrip_witness:
  "child_path ''acme'' ''eng'' = Ok ''acme/eng'' \<and> parent_path ''acme/eng'' = Some ''acme''"
proof -
  have c: "child_path ''acme'' ''eng'' = Ok ''acme/eng''" by code_simp
  then show ?thesis using child_parent_roundtrip [OF c] by blast
qed

end
