(* ===== verification/Acl.thy ===== *)
theory Acl
  imports Context_Path
begin

text \<open>
  Authorisation: the wire types of \<open>vta-sdk/src/acl.rs\<close>, the roles, capabilities, entries and
  grant checks of \<open>vti-common/src/acl/mod.rs\<close>, and the caller's claims of
  \<open>vti-common/src/auth/extractor.rs\<close>.  The properties say that no accepted change of the access
  list confers more than its author holds, that a capability list can only narrow a role, and
  that the three relations between an entry and a context are what the context tree says.
\<close>

section \<open>Roles and capabilities\<close>

datatype role = Admin | Initiator | Application | Reader | Monitor

primrec role_display :: "role \<Rightarrow> string" where
  "role_display Admin = ''admin''"
| "role_display Initiator = ''initiator''"
| "role_display Application = ''application''"
| "role_display Reader = ''reader''"
| "role_display Monitor = ''monitor''"

definition role_parse :: "string \<Rightarrow> (app_error, role) result" where
  "role_parse s =
     (if s = ''admin'' then Ok Admin
      else if s = ''initiator'' then Ok Initiator
      else if s = ''application'' then Ok Application
      else if s = ''reader'' then Ok Reader
      else if s = ''monitor'' then Ok Monitor
      else Err Internal)"

datatype companion_form_factor = Browser | Mobile | Desktop

datatype service_kind = Mediator | AiAgent | Daemon

datatype consumer_kind = Companion companion_form_factor | Service service_kind

definition consumer_kind_default :: consumer_kind where
  "consumer_kind_default = Service Daemon"

datatype capability =
    VaultRead | VaultWrite | ProxyLogin | FillRelease | PolicyAdmin | DeviceAdmin | Sign | KeyMint
  | KeyExport | SignTrustTask | SignSshsig | SignJws | SignCsr | SignDocument | CredentialWrite
  | MemoryRead | MemoryWrite | RoomPresent | RoomOpen | PersonaHolder | ExternalAccountsManage
  | ExternalAuthUse | PcsVetter | PcsApplicant | WitnessRequest | PcsVoter | PcsTrustee
  | CredentialPresent

definition ADDITIVE_CAPABILITIES :: "capability list" where
  "ADDITIVE_CAPABILITIES = [PersonaHolder]"

definition is_additive :: "capability \<Rightarrow> bool" where
  "is_additive cap \<longleftrightarrow> cap \<in> set ADDITIVE_CAPABILITIES"

primrec derived_capabilities_for_role :: "role \<Rightarrow> capability list" where
  "derived_capabilities_for_role Admin =
     [VaultRead, VaultWrite, CredentialWrite, MemoryRead, MemoryWrite, RoomPresent, RoomOpen,
      ProxyLogin, FillRelease, PolicyAdmin, DeviceAdmin, Sign, SignSshsig, SignJws, SignCsr,
      SignDocument, SignTrustTask, KeyMint, KeyExport, ExternalAccountsManage, ExternalAuthUse,
      PcsVetter, PcsApplicant, PcsVoter, PcsTrustee, WitnessRequest, CredentialPresent]"
| "derived_capabilities_for_role Initiator =
     [VaultRead, VaultWrite, CredentialWrite, MemoryRead, MemoryWrite, RoomPresent, RoomOpen,
      ProxyLogin, FillRelease, DeviceAdmin, Sign, SignSshsig, SignJws, SignCsr, SignDocument,
      SignTrustTask, KeyMint, ExternalAuthUse, PcsVetter, PcsApplicant, PcsVoter, PcsTrustee,
      WitnessRequest, CredentialPresent]"
| "derived_capabilities_for_role Application =
     [VaultRead, ProxyLogin, FillRelease, Sign, SignSshsig, SignJws, SignCsr, SignDocument,
      SignTrustTask, MemoryRead, MemoryWrite, RoomPresent, RoomOpen, ExternalAuthUse]"
| "derived_capabilities_for_role Reader = [VaultRead, MemoryRead]"
| "derived_capabilities_for_role Monitor = []"

definition role_has_capability :: "role \<Rightarrow> capability \<Rightarrow> bool" where
  "role_has_capability r cap \<longleftrightarrow> cap \<in> set (derived_capabilities_for_role r)"

definition effective_capabilities :: "role \<Rightarrow> capability list \<Rightarrow> capability list" where
  "effective_capabilities r explicit =
     (let derived = derived_capabilities_for_role r;
          narrowing = filter (\<lambda>c. \<not> is_additive c) explicit;
          effective = (if narrowing = [] then derived
                       else filter (\<lambda>c. c \<in> set narrowing) derived)
      in effective @ filter is_additive explicit)"

definition capabilities_beyond_role :: "role \<Rightarrow> capability list \<Rightarrow> capability list" where
  "capabilities_beyond_role r requested =
     (let derived = derived_capabilities_for_role r in
      filter (\<lambda>c. \<not> is_additive c \<and> c \<notin> set derived) requested)"

primrec capability_name :: "capability \<Rightarrow> string" where
  "capability_name VaultRead = ''vault-read''"
| "capability_name VaultWrite = ''vault-write''"
| "capability_name ProxyLogin = ''proxy-login''"
| "capability_name FillRelease = ''fill-release''"
| "capability_name PolicyAdmin = ''policy-admin''"
| "capability_name DeviceAdmin = ''device-admin''"
| "capability_name Sign = ''sign''"
| "capability_name KeyMint = ''key-mint''"
| "capability_name KeyExport = ''key-export''"
| "capability_name SignTrustTask = ''sign-trust-task''"
| "capability_name SignSshsig = ''sign-sshsig''"
| "capability_name SignJws = ''sign-jws''"
| "capability_name SignCsr = ''sign-csr''"
| "capability_name SignDocument = ''sign-document''"
| "capability_name CredentialWrite = ''credential-write''"
| "capability_name MemoryRead = ''memory-read''"
| "capability_name MemoryWrite = ''memory-write''"
| "capability_name RoomPresent = ''room-present''"
| "capability_name RoomOpen = ''room-open''"
| "capability_name PersonaHolder = ''persona-holder''"
| "capability_name ExternalAccountsManage = ''external-accounts-manage''"
| "capability_name ExternalAuthUse = ''external-auth-use''"
| "capability_name PcsVetter = ''pcs-vetter''"
| "capability_name PcsApplicant = ''pcs-applicant''"
| "capability_name WitnessRequest = ''witness-request''"
| "capability_name PcsVoter = ''pcs-voter''"
| "capability_name PcsTrustee = ''pcs-trustee''"
| "capability_name CredentialPresent = ''credential-present''"

definition role_capability_ceiling :: "string \<Rightarrow> string list option" where
  "role_capability_ceiling r =
     (if r = ''admin'' then Some
        [''vault-read'', ''vault-write'', ''credential-write'', ''memory-read'', ''memory-write'',
         ''room-present'', ''room-open'', ''proxy-login'', ''fill-release'', ''policy-admin'',
         ''device-admin'', ''sign'', ''sign-sshsig'', ''sign-jws'', ''sign-csr'',
         ''sign-document'', ''sign-trust-task'', ''key-mint'', ''key-export'',
         ''external-accounts-manage'', ''external-auth-use'', ''pcs-vetter'', ''pcs-applicant'',
         ''pcs-voter'', ''pcs-trustee'', ''witness-request'', ''credential-present'']
      else if r = ''initiator'' then Some
        [''vault-read'', ''vault-write'', ''credential-write'', ''memory-read'', ''memory-write'',
         ''room-present'', ''room-open'', ''proxy-login'', ''fill-release'', ''device-admin'',
         ''sign'', ''sign-sshsig'', ''sign-jws'', ''sign-csr'', ''sign-document'',
         ''sign-trust-task'', ''key-mint'', ''external-auth-use'', ''pcs-vetter'',
         ''pcs-applicant'', ''pcs-voter'', ''pcs-trustee'', ''witness-request'',
         ''credential-present'']
      else if r = ''application'' then Some
        [''vault-read'', ''proxy-login'', ''fill-release'', ''sign'', ''sign-sshsig'',
         ''sign-jws'', ''sign-csr'', ''sign-document'', ''sign-trust-task'', ''memory-read'',
         ''memory-write'', ''room-present'', ''room-open'', ''external-auth-use'']
      else if r = ''reader'' then Some [''vault-read'', ''memory-read'']
      else if r = ''monitor'' then Some []
      else None)"

section \<open>Scopes\<close>

datatype act_scope = ActNone | ActAll | ActContexts "string list"

datatype approve_scope = ApproveNone | ApproveAll | ApproveContexts "string list"

datatype context_direction = ActingIn | Subtree | AnyDirection

definition act_covers :: "act_scope \<Rightarrow> string \<Rightarrow> bool" where
  "act_covers s context_id =
     (case s of
        ActNone \<Rightarrow> False
      | ActAll \<Rightarrow> True
      | ActContexts cs \<Rightarrow> list_ex (\<lambda>c. is_ancestor_or_self c context_id) cs)"

definition acts_within :: "act_scope \<Rightarrow> string \<Rightarrow> bool" where
  "acts_within s context_id =
     (case s of
        ActNone \<Rightarrow> False
      | ActAll \<Rightarrow> False
      | ActContexts cs \<Rightarrow> list_ex (\<lambda>c. is_ancestor_or_self context_id c) cs)"

definition matches_context :: "act_scope \<Rightarrow> string \<Rightarrow> context_direction \<Rightarrow> bool" where
  "matches_context s context_id direction =
     (case direction of
        ActingIn \<Rightarrow> act_covers s context_id
      | Subtree \<Rightarrow> acts_within s context_id
      | AnyDirection \<Rightarrow> act_covers s context_id \<or> acts_within s context_id)"

definition is_unrestricted :: "act_scope \<Rightarrow> bool" where
  "is_unrestricted s \<longleftrightarrow> (case s of ActAll \<Rightarrow> True | _ \<Rightarrow> False)"

definition acts_nowhere :: "act_scope \<Rightarrow> bool" where
  "acts_nowhere s \<longleftrightarrow> (case s of ActNone \<Rightarrow> True | _ \<Rightarrow> False)"

definition named_contexts :: "act_scope \<Rightarrow> string list" where
  "named_contexts s = (case s of ActContexts cs \<Rightarrow> cs | _ \<Rightarrow> [])"

definition approve_covers :: "approve_scope \<Rightarrow> string \<Rightarrow> bool" where
  "approve_covers s context_id =
     (case s of
        ApproveNone \<Rightarrow> False
      | ApproveAll \<Rightarrow> True
      | ApproveContexts cs \<Rightarrow> list_ex (\<lambda>c. is_ancestor_or_self c context_id) cs)"

definition confers_nothing :: "approve_scope \<Rightarrow> bool" where
  "confers_nothing s \<longleftrightarrow> (case s of ApproveNone \<Rightarrow> True | _ \<Rightarrow> False)"

primrec direction_as_str :: "context_direction \<Rightarrow> string" where
  "direction_as_str ActingIn = ''acting-in''"
| "direction_as_str Subtree = ''subtree''"
| "direction_as_str AnyDirection = ''any''"

definition direction_from_str :: "string \<Rightarrow> context_direction option" where
  "direction_from_str s = List.find (\<lambda>d. direction_as_str d = s) [ActingIn, Subtree, AnyDirection]"

definition act_scope_for :: "role \<Rightarrow> string list \<Rightarrow> act_scope" where
  "act_scope_for r allowed_contexts =
     (if allowed_contexts \<noteq> [] then ActContexts allowed_contexts
      else if r = Admin then ActAll else ActNone)"

datatype key_scope = AllInScope | Keys "string set"

definition key_scope_allows :: "key_scope \<Rightarrow> string \<Rightarrow> bool" where
  "key_scope_allows s key_id = (case s of AllInScope \<Rightarrow> True | Keys keys \<Rightarrow> key_id \<in> keys)"

definition key_scope_for :: "string set option \<Rightarrow> key_scope" where
  "key_scope_for allowed_keys =
     (case allowed_keys of None \<Rightarrow> AllInScope | Some keys \<Rightarrow> Keys keys)"

section \<open>Entries\<close>

datatype step_up_mode = StepUpNone | SelfApprove | Delegated | DelegatedAny

record wake_channel =
  wake_gateway :: string
  wake_handle :: string
  wake_allowed_triggers :: "string list"

record uv_key =
  uv_enrolment :: string
  uv_enrolled_at :: string

record device_binding =
  dev_device_id :: string
  dev_display_name :: string
  dev_platform :: "string option"
  dev_registered_at :: string
  dev_last_seen_at :: "string option"
  dev_disabled_at :: "string option"
  dev_wiped_at :: "string option"
  dev_hpke_public_key :: "string option"
  dev_wake :: "wake_channel option"
  dev_uv_key :: "uv_key option"

definition push_capable :: "device_binding \<Rightarrow> bool" where
  "push_capable d \<longleftrightarrow> dev_wake d \<noteq> None \<and> dev_disabled_at d = None \<and> dev_wiped_at d = None"

record handoff_bound =
  hb_role :: role
  hb_allowed_contexts :: "string list"
  hb_capabilities :: "capability list"
  hb_approve_scope :: approve_scope
  hb_allowed_keys :: "string set option"
  hb_expires_at :: "u64 option"

record handoff =
  ho_granted_by :: string
  ho_granted_at :: u64
  ho_bound :: handoff_bound

record acl_entry =
  e_did :: string
  e_role :: role
  e_label :: "string option"
  e_allowed_contexts :: "string list"
  e_created_at :: u64
  e_created_by :: string
  e_expires_at :: "u64 option"
  e_kind :: consumer_kind
  e_capabilities :: "capability list"
  e_device :: "device_binding option"
  e_version :: u32
  e_step_up_approver :: "string option"
  e_step_up_require :: "step_up_mode option"
  e_approve_scope :: approve_scope
  e_allowed_keys :: "string set option"
  e_handoff :: "handoff option"

definition acl_entry_new :: "string \<Rightarrow> role \<Rightarrow> string \<Rightarrow> u64 \<Rightarrow> acl_entry" where
  "acl_entry_new did r created_by now_epoch =
     \<lparr> e_did = did, e_role = r, e_label = None, e_allowed_contexts = [], e_created_at = now_epoch,
       e_created_by = created_by, e_expires_at = None, e_kind = consumer_kind_default,
       e_capabilities = [], e_device = None, e_version = 0, e_step_up_approver = None,
       e_step_up_require = None, e_approve_scope = ApproveNone, e_allowed_keys = None,
       e_handoff = None \<rparr>"

definition entry_key_scope :: "acl_entry \<Rightarrow> key_scope" where
  "entry_key_scope e = key_scope_for (e_allowed_keys e)"

definition entry_is_admin :: "acl_entry \<Rightarrow> bool" where
  "entry_is_admin e \<longleftrightarrow> (case e_role e of Admin \<Rightarrow> True | _ \<Rightarrow> False)"

definition entry_act_scope :: "acl_entry \<Rightarrow> act_scope" where
  "entry_act_scope e = act_scope_for (e_role e) (e_allowed_contexts e)"

definition entry_can_act_in :: "acl_entry \<Rightarrow> string \<Rightarrow> bool" where
  "entry_can_act_in e context_id = act_covers (entry_act_scope e) context_id"

definition entry_is_super_admin :: "acl_entry \<Rightarrow> bool" where
  "entry_is_super_admin e \<longleftrightarrow> entry_is_admin e \<and> is_unrestricted (entry_act_scope e)"

definition entry_is_expired :: "acl_entry \<Rightarrow> u64 \<Rightarrow> bool" where
  "entry_is_expired e now_unix =
     (case e_expires_at e of Some deadline \<Rightarrow> now_unix \<ge> deadline | None \<Rightarrow> False)"

definition entry_has_capability :: "acl_entry \<Rightarrow> capability \<Rightarrow> bool" where
  "entry_has_capability e cap \<longleftrightarrow> cap \<in> set (effective_capabilities (e_role e) (e_capabilities e))"

section \<open>Claims of an authenticated caller\<close>

record auth_claims =
  c_did :: string
  c_role :: role
  c_allowed_contexts :: "string list"
  c_session_id :: string
  c_access_expires_at :: u64
  c_issued_at :: u64
  c_amr :: "string list"
  c_acr :: string

definition unsafe_local_cli_super_admin :: "string \<Rightarrow> auth_claims" where
  "unsafe_local_cli_super_admin channel =
     \<lparr> c_did = ''cli:'' @ channel, c_role = Admin, c_allowed_contexts = [],
       c_session_id = ''cli:'' @ channel, c_access_expires_at = 0, c_issued_at = 0,
       c_amr = [''cli''], c_acr = [] \<rparr>"

definition is_local_cli_principal :: "auth_claims \<Rightarrow> bool" where
  "is_local_cli_principal c \<longleftrightarrow>
     prefix ''cli:'' (c_did c) \<and> c_session_id c = c_did c \<and> length (c_amr c) = 1 \<and>
     c_amr c ! 0 = ''cli''"

definition claims_act_scope :: "auth_claims \<Rightarrow> act_scope" where
  "claims_act_scope c = act_scope_for (c_role c) (c_allowed_contexts c)"

definition is_super_admin :: "auth_claims \<Rightarrow> bool" where
  "is_super_admin c \<longleftrightarrow> c_role c = Admin \<and> is_unrestricted (claims_act_scope c)"

definition has_context_access :: "auth_claims \<Rightarrow> string \<Rightarrow> bool" where
  "has_context_access c context_id = act_covers (claims_act_scope c) context_id"

primrec push_missing :: "string list \<Rightarrow> string list \<Rightarrow> string list" where
  "push_missing ctxs [] = ctxs"
| "push_missing ctxs (ctx # extra) =
     push_missing (if list_ex (\<lambda>c. c = ctx) ctxs then ctxs else ctxs @ [ctx]) extra"

definition with_delegated_contexts :: "auth_claims \<Rightarrow> string list \<Rightarrow> auth_claims" where
  "with_delegated_contexts c extra =
     (if extra = [] \<or> is_super_admin c then c
      else c\<lparr>c_allowed_contexts := push_missing (c_allowed_contexts c) extra\<rparr>)"

definition with_delegated_authority :: "auth_claims \<Rightarrow> string list \<Rightarrow> auth_claims" where
  "with_delegated_authority c extra =
     (if extra = [] \<or> is_super_admin c then c
      else c\<lparr>c_role := Admin, c_allowed_contexts := push_missing (c_allowed_contexts c) extra\<rparr>)"

definition require_context :: "auth_claims \<Rightarrow> string \<Rightarrow> (app_error, unit) result" where
  "require_context c context_id =
     (if has_context_access c context_id then Ok () else Err Forbidden)"

definition default_context :: "auth_claims \<Rightarrow> string option" where
  "default_context c =
     (if length (c_allowed_contexts c) = 1 then Some (c_allowed_contexts c ! 0) else None)"

definition require_read :: "auth_claims \<Rightarrow> (app_error, unit) result" where
  "require_read c = (if c_role c = Monitor then Err Forbidden else Ok ())"

definition require_write :: "auth_claims \<Rightarrow> (app_error, unit) result" where
  "require_write c =
     (case c_role c of Admin \<Rightarrow> Ok () | Initiator \<Rightarrow> Ok () | Application \<Rightarrow> Ok () | _ \<Rightarrow> Err Forbidden)"

definition require_admin :: "auth_claims \<Rightarrow> (app_error, unit) result" where
  "require_admin c = (if c_role c = Admin then Ok () else Err Forbidden)"

definition require_manage :: "auth_claims \<Rightarrow> (app_error, unit) result" where
  "require_manage c =
     (if c_role c = Admin \<or> c_role c = Initiator then Ok () else Err Forbidden)"

definition require_super_admin :: "auth_claims \<Rightarrow> (app_error, unit) result" where
  "require_super_admin c = (if is_super_admin c then Ok () else Err Forbidden)"

section \<open>Checks on grants and on what a caller sees\<close>

definition path_result :: "string \<Rightarrow> (app_error, unit) result" where
  "path_result ctx = map_err (\<lambda>_. Validation) (validate_context_path ctx)"

definition validate_additive_capability_grant ::
    "auth_claims \<Rightarrow> capability list \<Rightarrow> (app_error, unit) result" where
  "validate_additive_capability_grant caller requested =
     (let additive = filter is_additive requested in
      if additive = [] \<or> is_super_admin caller then Ok () else Err Forbidden)"

definition validate_approve_scope_grant ::
    "auth_claims \<Rightarrow> approve_scope \<Rightarrow> (app_error, unit) result" where
  "validate_approve_scope_grant caller s =
     (case s of
        ApproveNone \<Rightarrow> Ok ()
      | ApproveAll \<Rightarrow> if is_super_admin caller then Ok () else Err Forbidden
      | ApproveContexts cs \<Rightarrow>
          if cs = [] then Err Forbidden
          else res_bind (res_all path_result cs) (\<lambda>_. res_all (require_context caller) cs))"

definition validate_role_assignment :: "auth_claims \<Rightarrow> role \<Rightarrow> (app_error, unit) result" where
  "validate_role_assignment caller target_role =
     (if c_role caller \<in> {Monitor, Reader, Application} then Err Forbidden
      else if target_role = Admin \<and> c_role caller \<noteq> Admin then Err Forbidden
      else Ok ())"

definition validate_acl_modification ::
    "auth_claims \<Rightarrow> role \<Rightarrow> string list \<Rightarrow> (app_error, unit) result" where
  "validate_acl_modification caller target_role target_contexts =
     res_bind (res_all path_result target_contexts) (\<lambda>_.
       if is_super_admin caller then Ok ()
       else case act_scope_for target_role target_contexts of
         ActAll \<Rightarrow> Err Forbidden
       | ActNone \<Rightarrow> Ok ()
       | ActContexts cs \<Rightarrow> res_all (require_context caller) cs)"

definition delegated_any_approver_covers :: "acl_entry \<Rightarrow> acl_entry \<Rightarrow> bool" where
  "delegated_any_approver_covers approver subject =
     (if (case e_approve_scope approver of
            ApproveAll \<Rightarrow> True
          | ApproveContexts _ \<Rightarrow>
              (case entry_act_scope subject of
                 ActContexts subject_ctxs \<Rightarrow>
                   list_all (approve_covers (e_approve_scope approver)) subject_ctxs
               | _ \<Rightarrow> False)
          | ApproveNone \<Rightarrow> False)
      then True
      else if \<not> entry_is_admin approver then False
      else case entry_act_scope approver of
        ActAll \<Rightarrow> True
      | ActContexts cs \<Rightarrow>
          (case entry_act_scope subject of
             ActContexts subject_ctxs \<Rightarrow> list_all (act_covers (ActContexts cs)) subject_ctxs
           | _ \<Rightarrow> False)
      | ActNone \<Rightarrow> False)"

definition acl_entry_can_act_in :: "acl_entry \<Rightarrow> string \<Rightarrow> bool" where
  "acl_entry_can_act_in e context_id = act_covers (entry_act_scope e) context_id"

definition acl_entry_acts_within :: "acl_entry \<Rightarrow> string \<Rightarrow> bool" where
  "acl_entry_acts_within e context_id = acts_within (entry_act_scope e) context_id"

definition acl_entry_matches_context :: "acl_entry \<Rightarrow> string \<Rightarrow> context_direction \<Rightarrow> bool" where
  "acl_entry_matches_context e context_id direction =
     matches_context (entry_act_scope e) context_id direction"

definition is_acl_entry_visible :: "auth_claims \<Rightarrow> acl_entry \<Rightarrow> bool" where
  "is_acl_entry_visible caller e \<longleftrightarrow>
     (if is_super_admin caller then True
      else list_ex (has_context_access caller) (named_contexts (entry_act_scope e)))"

definition is_acl_entry_auditable :: "auth_claims \<Rightarrow> acl_entry \<Rightarrow> bool" where
  "is_acl_entry_auditable caller e \<longleftrightarrow>
     (if is_acl_entry_visible caller e then True
      else case e_approve_scope e of
        ApproveAll \<Rightarrow> True
      | ApproveContexts cs \<Rightarrow> list_ex (has_context_access caller) cs
      | ApproveNone \<Rightarrow> False)"

section \<open>Lemmas on roles and scopes\<close>

lemma act_covers_simps [simp, scope_simps]:
  "\<not> act_covers ActNone ctx" "act_covers ActAll ctx"
  "act_covers (ActContexts cs) ctx \<longleftrightarrow> (\<exists>c\<in>set cs. is_ancestor_or_self c ctx)"
  by (auto simp: act_covers_def list_ex_iff)

lemma approve_covers_simps [simp, scope_simps]:
  "\<not> approve_covers ApproveNone ctx" "approve_covers ApproveAll ctx"
  "approve_covers (ApproveContexts cs) ctx \<longleftrightarrow> (\<exists>c\<in>set cs. is_ancestor_or_self c ctx)"
  by (auto simp: approve_covers_def list_ex_iff)

lemma acts_within_simps [simp, scope_simps]:
  "\<not> acts_within ActNone ctx" "\<not> acts_within ActAll ctx"
  "acts_within (ActContexts cs) ctx \<longleftrightarrow> (\<exists>c\<in>set cs. is_ancestor_or_self ctx c)"
  by (auto simp: acts_within_def list_ex_iff)

lemma act_scope_for_simps [simp, scope_simps]:
  "cs \<noteq> [] \<Longrightarrow> act_scope_for r cs = ActContexts cs"
  "act_scope_for Admin [] = ActAll" "r \<noteq> Admin \<Longrightarrow> act_scope_for r [] = ActNone"
  by (simp_all add: act_scope_for_def)

lemma act_scope_for_All_iff: "act_scope_for r cs = ActAll \<longleftrightarrow> r = Admin \<and> cs = []"
  by (simp add: act_scope_for_def)

lemma is_unrestricted_iff [scope_simps]: "is_unrestricted s \<longleftrightarrow> s = ActAll"
  by (simp add: is_unrestricted_def split: act_scope.split)

lemma is_super_admin_iff: "is_super_admin c \<longleftrightarrow> c_role c = Admin \<and> c_allowed_contexts c = []"
  by (auto simp: is_super_admin_def is_unrestricted_iff claims_act_scope_def act_scope_for_All_iff)

lemma super_admin_access: "is_super_admin c \<Longrightarrow> has_context_access c ctx"
  by (simp add: is_super_admin_iff has_context_access_def claims_act_scope_def)

lemma require_context_Ok_iff [simp]: "require_context c ctx = Ok () \<longleftrightarrow> has_context_access c ctx"
  by (simp add: require_context_def)

lemma access_down:
  assumes "has_context_access c a" and "is_ancestor_or_self a d"
  shows "has_context_access c d"
  using assms ctx.covered_down [OF _ assms(2)]
  by (cases "claims_act_scope c") (auto simp: has_context_access_def act_covers_def simp del: act_covers_simps)

lemma path_result_Ok_iff [simp]: "path_result p = Ok () \<longleftrightarrow> validate_context_path p = Ok ()"
  by (simp add: path_result_def)

lemma validate_acl_modification_Ok_iff:
  "validate_acl_modification caller r cs = Ok () \<longleftrightarrow>
     (\<forall>p\<in>set cs. validate_context_path p = Ok ()) \<and>
     (is_super_admin caller \<or> (r \<noteq> Admin \<or> cs \<noteq> []) \<and> (\<forall>p\<in>set cs. has_context_access caller p))"
  by (auto simp: validate_acl_modification_def res_bind_Ok_iff res_all_Ok_iff act_scope_for_def
      split: act_scope.splits)

lemma validate_approve_scope_grant_Ok_iff:
  "validate_approve_scope_grant caller s = Ok () \<longleftrightarrow>
     (case s of ApproveNone \<Rightarrow> True | ApproveAll \<Rightarrow> is_super_admin caller
      | ApproveContexts cs \<Rightarrow> cs \<noteq> [] \<and> (\<forall>p\<in>set cs. validate_context_path p = Ok ()) \<and>
          (\<forall>p\<in>set cs. has_context_access caller p))"
  by (auto simp: validate_approve_scope_grant_def res_bind_Ok_iff res_all_Ok_iff
      split: approve_scope.splits)

lemma acl_modification_bounded:
  assumes "validate_acl_modification caller r cs = Ok ()" and "act_covers (act_scope_for r cs) ctx"
  shows "has_context_access caller ctx"
proof (cases "is_super_admin caller")
  case False
  then have ok: "r \<noteq> Admin \<or> cs \<noteq> []" "\<forall>p\<in>set cs. has_context_access caller p"
    using assms(1) by (auto simp: validate_acl_modification_Ok_iff)
  show ?thesis using assms(2) ok by (cases "cs = []") (auto intro: access_down)
qed (rule super_admin_access)

lemma approve_grant_bounded:
  assumes "validate_approve_scope_grant caller s = Ok ()" and "approve_covers s ctx"
  shows "has_context_access caller ctx"
  using assms
  by (cases s) (auto simp: validate_approve_scope_grant_Ok_iff intro: access_down super_admin_access)

section \<open>Properties\<close>

text \<open>C1: No accepted access-list change confers more than its author holds: when both write checks
  pass, every context the new entry may act in is one the caller may act in, every context it names
  is a valid path, an administrator is made only by an administrator, and an unrestricted entry only
  by a super administrator.\<close>

theorem acl_grant_no_escalation:
  assumes "validate_role_assignment caller r = Ok ()"
    and "validate_acl_modification caller r cs = Ok ()"
  shows "(\<forall>ctx. act_covers (act_scope_for r cs) ctx \<longrightarrow> has_context_access caller ctx) \<and>
    (\<forall>p\<in>set cs. validate_context_path p = Ok ()) \<and>
    (r = Admin \<longrightarrow> c_role caller = Admin) \<and>
    (is_unrestricted (act_scope_for r cs) \<longrightarrow> is_super_admin caller)"
  using assms acl_modification_bounded [OF assms(2)]
  by (auto simp: validate_acl_modification_Ok_iff validate_role_assignment_def is_unrestricted_iff
      act_scope_for_All_iff split: if_splits)

definition example_context_admin :: auth_claims where
  "example_context_admin =
     \<lparr> c_did = ''did:key:z1'', c_role = Admin, c_allowed_contexts = [''acme''],
       c_session_id = ''s1'', c_access_expires_at = 100, c_issued_at = 0, c_amr = [''did''],
       c_acr = ''aal1'' \<rparr>"

lemma example_context_admin_checks:
  "validate_role_assignment example_context_admin Initiator = Ok ()"
  "validate_acl_modification example_context_admin Initiator [''acme/eng''] = Ok ()"
  "validate_approve_scope_grant example_context_admin (ApproveContexts [''acme/ops'']) = Ok ()"
  by code_simp+

theorem acl_grant_no_escalation_witness:
  "act_covers (act_scope_for Initiator [''acme/eng'']) ''acme/eng/x'' \<and>
   has_context_access example_context_admin ''acme/eng/x''"
proof -
  have "act_covers (act_scope_for Initiator [''acme/eng'']) ''acme/eng/x''" by code_simp
  then show ?thesis
    using acl_grant_no_escalation [OF example_context_admin_checks(1,2)] by blast
qed

text \<open>C2: Conferral is bounded along the chain that creates it: when a caller may create an approver
  entry (role, contexts and approve scope checked) and that entry qualifies as an any-approver for a
  context-scoped subject, the caller may act in every context the subject may act in.  A context
  administrator therefore cannot set up an approver that reaches outside its own contexts.\<close>

theorem approver_conferral_bounded:
  assumes "validate_acl_modification caller (e_role e) (e_allowed_contexts e) = Ok ()"
    and "validate_approve_scope_grant caller (e_approve_scope e) = Ok ()"
    and "delegated_any_approver_covers e subject"
    and "entry_can_act_in subject ctx"
  shows "has_context_access caller ctx"
proof -
  have act: "has_context_access caller c" if "act_covers (entry_act_scope e) c" for c
    using acl_modification_bounded [OF assms(1)] that by (simp add: entry_act_scope_def)
  have appr: "has_context_access caller c" if "approve_covers (e_approve_scope e) c" for c
    using approve_grant_bounded [OF assms(2) that] .
  have sub: "has_context_access caller ctx"
    if "\<forall>c\<in>set cs. has_context_access caller c" "entry_act_scope subject = ActContexts cs" for cs
    using assms(4) that by (auto simp: entry_can_act_in_def intro: access_down)
  show ?thesis
    using assms(3) act appr sub
    by (fastforce simp: delegated_any_approver_covers_def list_all_iff
        split: if_splits approve_scope.splits act_scope.splits)
qed

definition example_approver :: acl_entry where
  "example_approver =
     (acl_entry_new ''did:key:z2'' Reader ''did:key:z1'' 0)
       \<lparr>e_approve_scope := ApproveContexts [''acme/ops'']\<rparr>"

definition example_subject :: acl_entry where
  "example_subject =
     (acl_entry_new ''did:key:z3'' Application ''did:key:z1'' 0)
       \<lparr>e_allowed_contexts := [''acme/ops/night'']\<rparr>"

theorem approver_conferral_bounded_witness:
  "delegated_any_approver_covers example_approver example_subject \<and>
   has_context_access example_context_admin ''acme/ops/night''"
proof -
  have "validate_acl_modification example_context_admin (e_role example_approver)
      (e_allowed_contexts example_approver) = Ok ()" by code_simp
  moreover have "validate_approve_scope_grant example_context_admin
      (e_approve_scope example_approver) = Ok ()" by code_simp
  moreover have "delegated_any_approver_covers example_approver example_subject" by code_simp
  moreover have "entry_can_act_in example_subject ''acme/ops/night''" by code_simp
  ultimately show ?thesis using approver_conferral_bounded by blast
qed

lemma push_missing_set: "set (push_missing ctxs extra) = set ctxs \<union> set extra"
  by (induction extra arbitrary: ctxs) (auto simp: list_ex_iff)

lemma delegated_scope:
  assumes "\<not> is_super_admin c" and "extra \<noteq> []"
  shows "act_scope_for r (push_missing (c_allowed_contexts c) extra) =
    ActContexts (push_missing (c_allowed_contexts c) extra)"
proof -
  have "set (push_missing (c_allowed_contexts c) extra) \<noteq> {}" using assms(2) by (simp add: push_missing_set)
  then show ?thesis by (intro act_scope_for_simps) auto
qed

text \<open>A consented delegation adds exactly the delegated subtrees: the widened claims reach a
  context just when the original claims did or one of the delegated contexts is an ancestor of it
  (or the context itself), and a caller who is not a super administrator never becomes one, although
  the role is lifted to administrator.\<close>

theorem delegated_authority_exact:
  "(has_context_access (with_delegated_authority c extra) ctx \<longleftrightarrow>
      has_context_access c ctx \<or> (\<exists>x\<in>set extra. is_ancestor_or_self x ctx)) \<and>
   (is_super_admin (with_delegated_authority c extra) \<longleftrightarrow> is_super_admin c) \<and>
   c_did (with_delegated_authority c extra) = c_did c"
proof (cases "extra = [] \<or> is_super_admin c")
  case True
  then show ?thesis by (auto simp: with_delegated_authority_def super_admin_access)
next
  case False
  let ?ctxs = "push_missing (c_allowed_contexts c) extra"
  have scope: "claims_act_scope (with_delegated_authority c extra) = ActContexts ?ctxs"
    using False delegated_scope [of c extra Admin]
    by (simp add: with_delegated_authority_def claims_act_scope_def)
  have orig: "has_context_access c ctx \<longleftrightarrow> (\<exists>x\<in>set (c_allowed_contexts c). is_ancestor_or_self x ctx)"
    using False by (cases "c_allowed_contexts c = []")
      (auto simp: has_context_access_def claims_act_scope_def is_super_admin_iff)
  show ?thesis
    using False by (auto simp: has_context_access_def [of "with_delegated_authority c extra"] scope orig
        push_missing_set is_super_admin_def [of "with_delegated_authority c extra"] is_unrestricted_iff)
      (simp_all add: with_delegated_authority_def)
qed

lemma derived_not_additive: "c \<in> set (derived_capabilities_for_role r) \<Longrightarrow> \<not> is_additive c"
  by (cases r) (auto simp: is_additive_def ADDITIVE_CAPABILITIES_def)

lemma effective_capabilities_set:
  "set (effective_capabilities r explicit) =
     {c \<in> set (derived_capabilities_for_role r).
        (\<exists>d\<in>set explicit. \<not> is_additive d) \<longrightarrow> c \<in> set explicit} \<union>
     {c \<in> set explicit. is_additive c}"
  by (auto simp: effective_capabilities_def Let_def filter_empty_conv dest: derived_not_additive)

text \<open>A stored capability list narrows a role and can add only the additive capabilities: what an
  entry may do is bounded by its role and the additive names it lists, and a requested list reports
  nothing beyond the role exactly when all of it takes effect.\<close>

theorem capabilities_bounded_by_role:
  "(entry_has_capability e cap \<longrightarrow>
      role_has_capability (e_role e) cap \<or> is_additive cap \<and> cap \<in> set (e_capabilities e)) \<and>
   (capabilities_beyond_role r requested = [] \<longleftrightarrow>
      set requested \<subseteq> set (effective_capabilities r requested))"
proof
  show "entry_has_capability e cap \<longrightarrow>
      role_has_capability (e_role e) cap \<or> is_additive cap \<and> cap \<in> set (e_capabilities e)"
    by (auto simp: entry_has_capability_def effective_capabilities_set role_has_capability_def)
  show "capabilities_beyond_role r requested = [] \<longleftrightarrow>
      set requested \<subseteq> set (effective_capabilities r requested)"
    by (auto simp: capabilities_beyond_role_def Let_def filter_empty_conv effective_capabilities_set)
qed

definition example_entry :: acl_entry where
  "example_entry =
     (acl_entry_new ''did:key:z3'' Reader ''did:key:z1'' 0)
       \<lparr>e_capabilities := [VaultRead, PersonaHolder]\<rparr>"

theorem capabilities_bounded_by_role_witness:
  "entry_has_capability example_entry PersonaHolder \<and> is_additive PersonaHolder \<and>
   capabilities_beyond_role Reader [VaultRead, PersonaHolder] = []"
proof -
  have "entry_has_capability example_entry PersonaHolder" by code_simp
  moreover have "\<not> role_has_capability (e_role example_entry) PersonaHolder" by code_simp
  moreover have "set [VaultRead, PersonaHolder] \<subseteq> set (effective_capabilities Reader [VaultRead, PersonaHolder])"
    by code_simp
  ultimately show ?thesis using capabilities_bounded_by_role by blast
qed

text \<open>The client library's table of role ceilings is the server's: for every role it lists the wire
  names of exactly the capabilities the server derives, in the same order, an unknown role has no
  ceiling, and distinct capabilities have distinct wire names.\<close>

theorem capability_ceiling_agrees:
  "role_capability_ceiling (role_display r) = Some (map capability_name (derived_capabilities_for_role r)) \<and>
   (role_capability_ceiling s = None \<longleftrightarrow> \<not> is_ok (role_parse s)) \<and>
   (capability_name c = capability_name d \<longleftrightarrow> c = d)"
proof (intro conjI)
  show "role_capability_ceiling (role_display r) =
      Some (map capability_name (derived_capabilities_for_role r))"
    by (cases r) (simp_all add: role_capability_ceiling_def)
  show "role_capability_ceiling s = None \<longleftrightarrow> \<not> is_ok (role_parse s)"
    by (simp add: role_capability_ceiling_def role_parse_def)
  show "capability_name c = capability_name d \<longleftrightarrow> c = d"
    by (cases c; cases d) simp_all
qed

text \<open>The author of an entry can always review it: an entry whose contexts and approve scope
  passed the write checks and that acts or confers anywhere is auditable by the caller who wrote
  it, and visible when it acts in a named context.\<close>

theorem granted_entry_auditable:
  assumes "validate_acl_modification caller (e_role e) (e_allowed_contexts e) = Ok ()"
    and "validate_approve_scope_grant caller (e_approve_scope e) = Ok ()"
    and "\<not> (acts_nowhere (entry_act_scope e) \<and> confers_nothing (e_approve_scope e))"
  shows "is_acl_entry_auditable caller e \<and>
    (named_contexts (entry_act_scope e) \<noteq> [] \<longrightarrow> is_acl_entry_visible caller e)"
proof (cases "is_super_admin caller")
  case True
  then show ?thesis by (simp add: is_acl_entry_auditable_def is_acl_entry_visible_def)
next
  case False
  have acc: "\<forall>p\<in>set (e_allowed_contexts e). has_context_access caller p"
    "e_role e \<noteq> Admin \<or> e_allowed_contexts e \<noteq> []"
    using assms(1) False by (auto simp: validate_acl_modification_Ok_iff)
  show ?thesis
  proof (cases "e_allowed_contexts e = []")
    case True
    then have none: "entry_act_scope e = ActNone" using acc(2) by (simp add: entry_act_scope_def)
    then have "\<not> confers_nothing (e_approve_scope e)" using assms(3) by (simp add: acts_nowhere_def)
    then show ?thesis using assms(2) none
      by (auto simp: confers_nothing_def is_acl_entry_auditable_def validate_approve_scope_grant_Ok_iff
          named_contexts_def list_ex_iff neq_Nil_conv split: approve_scope.splits)
  next
    case False
    then show ?thesis using acc(1)
      by (auto simp: is_acl_entry_auditable_def is_acl_entry_visible_def entry_act_scope_def
          named_contexts_def list_ex_iff neq_Nil_conv)
  qed
qed

theorem granted_entry_auditable_witness:
  "is_acl_entry_auditable example_context_admin example_approver \<and>
   \<not> is_acl_entry_visible example_context_admin example_approver"
proof -
  have "validate_acl_modification example_context_admin (e_role example_approver)
      (e_allowed_contexts example_approver) = Ok ()" by code_simp
  moreover have "validate_approve_scope_grant example_context_admin
      (e_approve_scope example_approver) = Ok ()" by code_simp
  moreover have "\<not> (acts_nowhere (entry_act_scope example_approver) \<and>
      confers_nothing (e_approve_scope example_approver))" by code_simp
  moreover have "\<not> is_acl_entry_visible example_context_admin example_approver" by code_simp
  ultimately show ?thesis using granted_entry_auditable by blast
qed

end
