(* ===== verification/Kv_Store.thy ===== *)
theory Kv_Store
  imports VTI_Prelude
begin

text \<open>
  The keyspace store of \<open>vti-common/src/store/mod.rs\<close> and the programs that run on it.

  A keyspace is an ordered key/value store; it is modelled as an association list kept in key
  order.  Values are polymorphic: a component stores a datatype with one constructor per row type,
  which stands for the (deterministic) JSON text of the row, so comparing the stored bytes is
  comparing the values.  Encryption at rest is transparent to the callers (a value is decrypted
  before it is compared or returned) and storage I/O errors are not modelled.

  Every operation of the local store runs under the per-keyspace write lock (or reads one
  snapshot), so each is one atomic step.  Code that makes several store calls is a \<^emph>\<open>program\<close>: a
  tree of store operations with continuations.  \<open>run\<close> executes a program alone, \<open>pstep\<close>
  interleaves any number of them one operation at a time, with the clock advancing in between.
\<close>

section \<open>One keyspace\<close>

type_synonym ('k, 'v) keyspace = "('k \<times> 'v) list"

definition get_raw :: "('k, 'v) keyspace \<Rightarrow> 'k \<Rightarrow> 'v option" where
  "get_raw ks key = map_of ks key"

fun insert_raw :: "'k::linorder \<Rightarrow> 'v \<Rightarrow> ('k, 'v) keyspace \<Rightarrow> ('k, 'v) keyspace" where
  "insert_raw key v [] = [(key, v)]"
| "insert_raw key v ((k, w) # ks) =
     (if key = k then (key, v) # ks
      else if key < k then (key, v) # (k, w) # ks
      else (k, w) # insert_raw key v ks)"

definition remove :: "'k \<Rightarrow> ('k, 'v) keyspace \<Rightarrow> ('k, 'v) keyspace" where
  "remove key ks = filter (\<lambda>(k, _). k \<noteq> key) ks"

definition take_raw :: "'k \<Rightarrow> ('k, 'v) keyspace \<Rightarrow> 'v option \<times> ('k, 'v) keyspace" where
  "take_raw key ks =
     (case get_raw ks key of
        Some bytes \<Rightarrow> (Some bytes, remove key ks)
      | None \<Rightarrow> (None, ks))"

definition insert_if_absent ::
    "'k::linorder \<Rightarrow> 'v \<Rightarrow> ('k, 'v) keyspace \<Rightarrow> bool \<times> ('k, 'v) keyspace" where
  "insert_if_absent key v ks =
     (case get_raw ks key of Some _ \<Rightarrow> (False, ks) | None \<Rightarrow> (True, insert_raw key v ks))"

definition commit_move :: "'k::linorder \<Rightarrow> 'k \<Rightarrow> 'v \<Rightarrow> ('k, 'v) keyspace \<Rightarrow> ('k, 'v) keyspace" where
  "commit_move old_key new_key v ks = remove old_key (insert_raw new_key v ks)"

definition swap ::
    "'k::linorder \<Rightarrow> 'k \<Rightarrow> 'v \<Rightarrow> ('k, 'v) keyspace \<Rightarrow> bool \<times> ('k, 'v) keyspace" where
  "swap old_key new_key v ks =
     (if get_raw ks new_key \<noteq> None then (False, ks) else (True, commit_move old_key new_key v ks))"

datatype move_outcome = Moved | SourceMissing | SourceChanged | TargetExists

definition move_if_unchanged ::
    "'k::linorder \<Rightarrow> 'v \<Rightarrow> 'k \<Rightarrow> 'v \<Rightarrow> ('k, 'v) keyspace \<Rightarrow> move_outcome \<times> ('k, 'v) keyspace" where
  "move_if_unchanged old_key expected new_key v ks =
     (case get_raw ks old_key of
        None \<Rightarrow> (SourceMissing, ks)
      | Some current \<Rightarrow>
          if current \<noteq> expected then (SourceChanged, ks)
          else if get_raw ks new_key \<noteq> None then (TargetExists, ks)
          else (Moved, commit_move old_key new_key v ks))"

definition prefix_iter_raw :: "'a list \<Rightarrow> ('a list, 'v) keyspace \<Rightarrow> ('a list \<times> 'v) list" where
  "prefix_iter_raw p ks = filter (\<lambda>(k, _). prefix p k) ks"

definition prefix_keys :: "'a list \<Rightarrow> ('a list, 'v) keyspace \<Rightarrow> 'a list list" where
  "prefix_keys p ks = map fst (prefix_iter_raw p ks)"

section \<open>Batches\<close>

datatype ('k, 'v) check = Absent 'k | Present 'k | Unchanged 'k 'v

datatype ('k, 'v) write_op = Put 'k 'v | Delete 'k

fun write_key :: "('k, 'v) write_op \<Rightarrow> 'k" where
  "write_key (Put k _) = k"
| "write_key (Delete k) = k"

record ('k, 'v) batch =
  checks :: "('k, 'v) check list"
  writes :: "('k, 'v) write_op list"

datatype batch_outcome = Applied | Refused nat

definition is_applied :: "batch_outcome \<Rightarrow> bool" where
  "is_applied out \<longleftrightarrow> out = Applied"

fun batch_validate_loop :: "'k set \<Rightarrow> ('k, 'v) write_op list \<Rightarrow> (app_error, unit) result" where
  "batch_validate_loop seen [] = Ok ()"
| "batch_validate_loop seen (w # ws) =
     (if write_key w \<in> seen then Err Internal
      else batch_validate_loop (insert (write_key w) seen) ws)"

definition batch_validate :: "('k, 'v) batch \<Rightarrow> (app_error, unit) result" where
  "batch_validate b = batch_validate_loop {} (writes b)"

fun check_holds :: "('k, 'v) keyspace \<Rightarrow> ('k, 'v) check \<Rightarrow> bool" where
  "check_holds ks (Absent k) \<longleftrightarrow> get_raw ks k = None"
| "check_holds ks (Present k) \<longleftrightarrow> get_raw ks k \<noteq> None"
| "check_holds ks (Unchanged k expected) \<longleftrightarrow>
     (case get_raw ks k of None \<Rightarrow> False | Some stored \<Rightarrow> stored = expected)"

fun first_refused :: "('k, 'v) keyspace \<Rightarrow> nat \<Rightarrow> ('k, 'v) check list \<Rightarrow> nat option" where
  "first_refused ks i [] = None"
| "first_refused ks i (c # cs) = (if check_holds ks c then first_refused ks (i + 1) cs else Some i)"

fun apply_write :: "('k::linorder, 'v) write_op \<Rightarrow> ('k, 'v) keyspace \<Rightarrow> ('k, 'v) keyspace" where
  "apply_write (Put k v) ks = insert_raw k v ks"
| "apply_write (Delete k) ks = remove k ks"

definition apply_batch ::
    "('k::linorder, 'v) batch \<Rightarrow> ('k, 'v) keyspace \<Rightarrow>
     (app_error, batch_outcome) result \<times> ('k, 'v) keyspace" where
  "apply_batch b ks =
     (case batch_validate b of
        Err e \<Rightarrow> (Err e, ks)
      | Ok _ \<Rightarrow>
          (case first_refused ks 0 (checks b) of
             Some i \<Rightarrow> (Ok (Refused i), ks)
           | None \<Rightarrow> (Ok Applied, fold apply_write (writes b) ks)))"

section \<open>The store contract\<close>

text \<open>What the components rely on: a point read after a write.  The laws determine the store's
  behaviour up to \<^const>\<open>get_raw\<close>; the facts about batches and moves are derived from them.\<close>

locale kv_store =
  fixes get :: "'s \<Rightarrow> 'k \<Rightarrow> 'v option"
    and put :: "'k \<Rightarrow> 'v \<Rightarrow> 's \<Rightarrow> 's"
    and del :: "'k \<Rightarrow> 's \<Rightarrow> 's"
  assumes get_put: "get (put k v s) k' = (if k' = k then Some v else get s k')"
    and get_del: "get (del k s) k' = (if k' = k then None else get s k')"
begin

lemma get_put_same: "get (put k v s) k = Some v"
  by (simp add: get_put)

lemma get_put_other: "k' \<noteq> k \<Longrightarrow> get (put k v s) k' = get s k'"
  by (simp add: get_put)

lemma get_del_same: "get (del k s) k = None"
  by (simp add: get_del)

lemma put_put_commute:
  "k \<noteq> k' \<Longrightarrow> get (put k v (put k' v' s)) = get (put k' v' (put k v s))"
  by (rule ext) (simp add: get_put)

lemma fold_writes_untouched:
  assumes "\<And>w s. w \<in> set ws \<Longrightarrow> get (f w s) k = get s k"
  shows "get (fold f ws s) k = get s k"
  using assms by (induction ws arbitrary: s) auto

end

lemma get_raw_insert [simp]: "get_raw (insert_raw k v ks) k' = (if k' = k then Some v else get_raw ks k')"
  by (induction k v ks rule: insert_raw.induct) (auto simp: get_raw_def)

lemma get_raw_remove [simp]: "get_raw (remove k ks) k' = (if k' = k then None else get_raw ks k')"
  by (induction ks) (auto simp: get_raw_def remove_def)

lemma get_raw_commit_move:
  "get_raw (commit_move old_key new_key v ks) k =
     (if k = old_key then None else if k = new_key then Some v else get_raw ks k)"
  by (simp add: commit_move_def)

interpretation local_store: kv_store get_raw insert_raw remove
  by unfold_locales simp_all

definition keys_of :: "('k, 'v) keyspace \<Rightarrow> 'k set" where
  "keys_of ks = fst ` set ks"

definition ks_ordered :: "('k::linorder, 'v) keyspace \<Rightarrow> bool" where
  "ks_ordered ks \<longleftrightarrow> sorted_wrt (\<lambda>p q. fst p < fst q) ks"

lemma get_raw_None_iff: "get_raw ks k = None \<longleftrightarrow> k \<notin> keys_of ks"
  by (simp add: get_raw_def keys_of_def map_of_eq_None_iff)

lemma keys_of_insert: "keys_of (insert_raw k v ks) = insert k (keys_of ks)"
  by (induction k v ks rule: insert_raw.induct) (auto simp: keys_of_def)

lemma keys_of_remove: "keys_of (remove k ks) = keys_of ks - {k}"
  by (auto simp: keys_of_def remove_def)

lemma ks_ordered_Cons:
  "ks_ordered ((k, w) # ks) \<longleftrightarrow> (\<forall>k'\<in>keys_of ks. k < k') \<and> ks_ordered ks"
  by (simp add: ks_ordered_def keys_of_def)

lemma ordered_insert: "ks_ordered ks \<Longrightarrow> ks_ordered (insert_raw k v ks)"
proof (induction k v ks rule: insert_raw.induct)
  case (2 key v k w ks)
  then have ord: "\<forall>k'\<in>keys_of ks. k < k'" "ks_ordered ks" by (simp_all add: ks_ordered_Cons)
  consider "key = k" | "key < k" | "k < key" by fastforce
  then show ?case
  proof cases
    case 2
    have "keys_of ((k, w) # ks) = insert k (keys_of ks)" by (simp add: keys_of_def)
    then show ?thesis using 2 ord by (auto simp: ks_ordered_Cons dest: less_trans)
  next
    case 3
    then show ?thesis using 2 ord by (auto simp: ks_ordered_Cons keys_of_insert)
  qed (use ord in \<open>simp add: ks_ordered_Cons\<close>)
qed (simp add: ks_ordered_def)

lemma ordered_remove: "ks_ordered ks \<Longrightarrow> ks_ordered (remove k ks)"
  by (simp add: ks_ordered_def remove_def sorted_wrt_filter)

lemma ordered_distinct: "ks_ordered ks \<Longrightarrow> distinct (map fst ks)"
  unfolding ks_ordered_def by (induction ks) (auto simp: image_iff)

lemma ordered_get_raw: "ks_ordered ks \<Longrightarrow> (k, v) \<in> set ks \<longleftrightarrow> get_raw ks k = Some v"
  using ordered_distinct [of ks] by (simp add: get_raw_def)

lemma prefix_iter_raw_mem:
  "ks_ordered ks \<Longrightarrow> (k, v) \<in> set (prefix_iter_raw p ks) \<longleftrightarrow> prefix p k \<and> get_raw ks k = Some v"
  using ordered_get_raw [of ks k v] by (auto simp: prefix_iter_raw_def)

lemma prefix_keys_mem: "k \<in> set (prefix_keys p ks) \<longleftrightarrow> prefix p k \<and> k \<in> keys_of ks"
  by (force simp: prefix_keys_def prefix_iter_raw_def keys_of_def image_iff)

lemma take_raw_simps:
  "fst (take_raw k ks) = get_raw ks k"
  "get_raw (snd (take_raw k ks)) k' = (if k' = k then None else get_raw ks k')"
  by (auto simp: take_raw_def split: option.splits)

subsection \<open>Batches are all or nothing\<close>

lemma first_refused_None_iff: "first_refused ks i cs = None \<longleftrightarrow> list_all (check_holds ks) cs"
  by (induction cs arbitrary: i) auto

lemma first_refused_SomeD:
  "first_refused ks i cs = Some j \<Longrightarrow> \<exists>m. j = i + m \<and> m < length cs \<and> \<not> check_holds ks (cs ! m) \<and>
     list_all (check_holds ks) (take m cs)"
proof (induction cs arbitrary: i)
  case (Cons c cs)
  show ?case
  proof (cases "check_holds ks c")
    case True
    then obtain m where "j = Suc i + m" "m < length cs" "\<not> check_holds ks (cs ! m)"
      "list_all (check_holds ks) (take m cs)" using Cons by fastforce
    then show ?thesis using True by (intro exI [of _ "Suc m"]) simp
  next
    case False
    then show ?thesis using Cons.prems by (intro exI [of _ 0]) simp
  qed
qed simp

lemma batch_validate_loop_iff:
  "batch_validate_loop seen ws = Ok () \<longleftrightarrow>
     distinct (map write_key ws) \<and> seen \<inter> write_key ` set ws = {}"
  by (induction ws arbitrary: seen) auto

lemma batch_validate_iff: "batch_validate b = Ok () \<longleftrightarrow> distinct (map write_key (writes b))"
  by (simp add: batch_validate_def batch_validate_loop_iff)

lemma apply_write_get:
  "get_raw (apply_write w ks) k =
     (if k = write_key w then (case w of Put _ v \<Rightarrow> Some v | Delete _ \<Rightarrow> None) else get_raw ks k)"
  by (cases w) auto

lemma fold_write_other:
  "k \<notin> write_key ` set ws \<Longrightarrow> get_raw (fold apply_write ws ks) k = get_raw ks k"
  by (rule local_store.fold_writes_untouched) (auto simp: apply_write_get)

lemma fold_write_get:
  assumes "distinct (map write_key ws)"
  shows "get_raw (fold apply_write ws ks) k =
    (case List.find (\<lambda>w. write_key w = k) ws of
       Some (Put _ v) \<Rightarrow> Some v | Some (Delete _) \<Rightarrow> None | None \<Rightarrow> get_raw ks k)"
  using assms
proof (induction ws arbitrary: ks)
  case (Cons w ws)
  show ?case
  proof (cases "write_key w = k")
    case True
    then show ?thesis using Cons.prems
      by (cases w) (auto simp: fold_write_other apply_write_get)
  next
    case False
    then have "get_raw (apply_write w ks) k = get_raw ks k" by (simp add: apply_write_get not_sym)
    with False Cons show ?thesis by (cases "List.find (\<lambda>w. write_key w = k) ws") simp_all
  qed
qed simp

text \<open>A declarative reading of a batch: what every key holds before and after.\<close>

definition batch_effect :: "('k, 'v) batch \<Rightarrow> ('k \<Rightarrow> 'v option) \<Rightarrow> ('k \<Rightarrow> 'v option) \<Rightarrow> bool" where
  "batch_effect b before after \<longleftrightarrow>
     (\<forall>k v. Put k v \<in> set (writes b) \<longrightarrow> after k = Some v) \<and>
     (\<forall>k. Delete k \<in> set (writes b) \<longrightarrow> after k = None) \<and>
     (\<forall>k. k \<notin> write_key ` set (writes b) \<longrightarrow> after k = before k)"

lemma find_write:
  assumes "distinct (map write_key ws)" "w \<in> set ws"
  shows "List.find (\<lambda>u. write_key u = write_key w) ws = Some w"
  using assms by (induction ws) (auto simp: image_iff)

lemma fold_write_effect:
  assumes d: "distinct (map write_key (writes b))"
  shows "batch_effect b (get_raw ks) (get_raw (fold apply_write (writes b) ks))"
  unfolding batch_effect_def
proof (intro conjI allI impI)
  show "get_raw (fold apply_write (writes b) ks) k = Some v" if "Put k v \<in> set (writes b)" for k v
    using find_write [OF d that] by (simp add: fold_write_get [OF d])
  show "get_raw (fold apply_write (writes b) ks) k = None" if "Delete k \<in> set (writes b)" for k
    using find_write [OF d that] by (simp add: fold_write_get [OF d])
qed (rule fold_write_other)

lemma apply_batch_cases:
  "(\<exists>e. apply_batch b ks = (Err e, ks)) \<or> (\<exists>i. apply_batch b ks = (Ok (Refused i), ks)) \<or>
   (apply_batch b ks = (Ok Applied, fold apply_write (writes b) ks) \<and>
    distinct (map write_key (writes b)) \<and> list_all (check_holds ks) (checks b))"
proof (cases "batch_validate b")
  case (Inr u)
  then have "distinct (map write_key (writes b))" using batch_validate_iff [of b] by simp
  with Inr show ?thesis
    using first_refused_None_iff [of ks 0 "checks b"]
    by (cases "first_refused ks 0 (checks b)") (simp_all add: apply_batch_def)
qed (simp add: apply_batch_def)

text \<open>C27: a batch is all or nothing. A batch that writes a key twice is refused as an internal error,
  whatever its preconditions; any other batch with a precondition that fails is refused with the index
  of the first such precondition; both leave the keyspace unchanged. Every other batch is applied: each
  of its writes takes effect, and every other key holds what it held before.\<close>

theorem apply_batch_atomic:
  "if \<not> distinct (map write_key (writes b)) then apply_batch b ks = (Err Internal, ks)
   else if \<not> list_all (check_holds ks) (checks b) then
     \<exists>i. apply_batch b ks = (Ok (Refused i), ks) \<and> i < length (checks b) \<and> \<not> check_holds ks (checks b ! i) \<and>
       list_all (check_holds ks) (take i (checks b))
   else \<exists>ks'. apply_batch b ks = (Ok Applied, ks') \<and> batch_effect b (get_raw ks) (get_raw ks')"
proof (cases "distinct (map write_key (writes b))")
  case False
  then obtain e where e: "batch_validate b = Err e"
    using batch_validate_iff [of b] by (cases "batch_validate b") auto
  have "batch_validate_loop s ws = Err e \<Longrightarrow> e = Internal" for s and ws :: "('a, 'b) write_op list"
    by (induction s ws rule: batch_validate_loop.induct) (auto split: if_splits)
  then show ?thesis using e False by (simp add: apply_batch_def batch_validate_def)
next
  case True
  then have ok: "batch_validate b = Ok ()" by (simp add: batch_validate_iff)
  show ?thesis
  proof (cases "first_refused ks 0 (checks b)")
    case None
    moreover from None have "list_all (check_holds ks) (checks b)"
      by (simp add: first_refused_None_iff)
    ultimately show ?thesis using True ok fold_write_effect [OF True] by (simp add: apply_batch_def)
  next
    case (Some i)
    then have "\<not> list_all (check_holds ks) (checks b)" by (simp flip: first_refused_None_iff [of ks 0])
    then show ?thesis using True Some ok first_refused_SomeD [OF Some] by (auto simp: apply_batch_def)
  qed
qed

lemma ordered_fold_write: "ks_ordered ks \<Longrightarrow> ks_ordered (fold apply_write ws ks)"
proof (induction ws arbitrary: ks)
  case (Cons w ws)
  then show ?case by (cases w) (auto intro: ordered_insert ordered_remove)
qed simp

lemma ordered_apply_batch: "ks_ordered ks \<Longrightarrow> ks_ordered (snd (apply_batch b ks))"
  using apply_batch_cases [of b ks] by (auto intro: ordered_fold_write)

end
