(* ===== verification/Store_Prog.thy ===== *)
theory Store_Prog
  imports Kv_Store
begin

text \<open>
  Programs over one keyspace.  The asynchronous functions of the services make several store calls,
  and between two of them any other request may run; such a function is a tree of atomic store
  operations with continuations.  Reading the clock, drawing a random identifier, taking the next
  number of a process-wide sequence and emitting an audit event are operations too.  \<open>run\<close> executes a program alone; \<open>pstep\<close> is the step relation of
  a pool of programs in which each step executes one operation of one program or advances the
  clock.  Programs are well-founded trees, so every program terminates; a retry loop of the code
  is unrolled to the bound the code gives it.
\<close>

section \<open>Programs\<close>

datatype ('v, 'e, 'r) prog =
    Ret 'r
  | Get string "'v option \<Rightarrow> ('v, 'e, 'r) prog"
  | Insert string 'v "('v, 'e, 'r) prog"
  | Remove string "('v, 'e, 'r) prog"
  | Take string "'v option \<Rightarrow> ('v, 'e, 'r) prog"
  | InsertIfAbsent string 'v "bool \<Rightarrow> ('v, 'e, 'r) prog"
  | MoveIfUnchanged string 'v string 'v "move_outcome \<Rightarrow> ('v, 'e, 'r) prog"
  | ApplyBatch "(string, 'v) batch" "(app_error, batch_outcome) result \<Rightarrow> ('v, 'e, 'r) prog"
  | PrefixIter string "(string \<times> 'v) list \<Rightarrow> ('v, 'e, 'r) prog"
  | Now "u64 \<Rightarrow> ('v, 'e, 'r) prog"
  | Fresh "string \<Rightarrow> ('v, 'e, 'r) prog"
  | NextSeq "u64 \<Rightarrow> ('v, 'e, 'r) prog"
  | Emit 'e "('v, 'e, 'r) prog"

record ('v, 'e) world =
  w_ks :: "(string, 'v) keyspace"
  w_now :: u64
  w_supply :: "nat \<Rightarrow> string"
  w_drawn :: nat
  w_seq :: u64
  w_log :: "'e list"

primrec bnd :: "('v, 'e, 'a) prog \<Rightarrow> ('a \<Rightarrow> ('v, 'e, 'b) prog) \<Rightarrow> ('v, 'e, 'b) prog" where
  "bnd (Ret a) f = f a"
| "bnd (Get k c) f = Get k (\<lambda>x. bnd (c x) f)"
| "bnd (Insert k v c) f = Insert k v (bnd c f)"
| "bnd (Remove k c) f = Remove k (bnd c f)"
| "bnd (Take k c) f = Take k (\<lambda>x. bnd (c x) f)"
| "bnd (InsertIfAbsent k v c) f = InsertIfAbsent k v (\<lambda>x. bnd (c x) f)"
| "bnd (MoveIfUnchanged k v k' v' c) f = MoveIfUnchanged k v k' v' (\<lambda>x. bnd (c x) f)"
| "bnd (ApplyBatch b c) f = ApplyBatch b (\<lambda>x. bnd (c x) f)"
| "bnd (PrefixIter p c) f = PrefixIter p (\<lambda>x. bnd (c x) f)"
| "bnd (Now c) f = Now (\<lambda>x. bnd (c x) f)"
| "bnd (Fresh c) f = Fresh (\<lambda>x. bnd (c x) f)"
| "bnd (NextSeq c) f = NextSeq (\<lambda>x. bnd (c x) f)"
| "bnd (Emit e c) f = Emit e (bnd c f)"

text \<open>The question-mark operator: continue with the value of a result or return its error.\<close>

definition bndE ::
    "('v, 'e, ('x, 'a) result) prog \<Rightarrow> ('a \<Rightarrow> ('v, 'e, ('x, 'b) result) prog) \<Rightarrow>
     ('v, 'e, ('x, 'b) result) prog" where
  "bndE p f = bnd p (\<lambda>r. case r of Err x \<Rightarrow> Ret (Err x) | Ok a \<Rightarrow> f a)"

text \<open>A loop over a list whose body may fail.\<close>

primrec forE :: "('a \<Rightarrow> ('v, 'e, ('x, unit) result) prog) \<Rightarrow> 'a list \<Rightarrow> ('v, 'e, ('x, unit) result) prog" where
  "forE f [] = Ret (Ok ())"
| "forE f (x # xs) = bndE (f x) (\<lambda>_. forE f xs)"

definition map_errP :: "('x \<Rightarrow> 'y) \<Rightarrow> ('v, 'e, ('x, 'a) result) prog \<Rightarrow> ('v, 'e, ('y, 'a) result) prog" where
  "map_errP f p = bnd p (\<lambda>r. Ret (map_err f r))"

section \<open>Running a program alone\<close>

primrec run :: "('v, 'e, 'r) prog \<Rightarrow> ('v, 'e) world \<Rightarrow> 'r \<times> ('v, 'e) world" where
  "run (Ret r) w = (r, w)"
| "run (Get k c) w = run (c (get_raw (w_ks w) k)) w"
| "run (Insert k v c) w = run c (w\<lparr>w_ks := insert_raw k v (w_ks w)\<rparr>)"
| "run (Remove k c) w = run c (w\<lparr>w_ks := remove k (w_ks w)\<rparr>)"
| "run (Take k c) w =
     run (c (fst (take_raw k (w_ks w)))) (w\<lparr>w_ks := snd (take_raw k (w_ks w))\<rparr>)"
| "run (InsertIfAbsent k v c) w =
     run (c (fst (insert_if_absent k v (w_ks w)))) (w\<lparr>w_ks := snd (insert_if_absent k v (w_ks w))\<rparr>)"
| "run (MoveIfUnchanged k v k' v' c) w =
     run (c (fst (move_if_unchanged k v k' v' (w_ks w))))
       (w\<lparr>w_ks := snd (move_if_unchanged k v k' v' (w_ks w))\<rparr>)"
| "run (ApplyBatch b c) w =
     run (c (fst (apply_batch b (w_ks w)))) (w\<lparr>w_ks := snd (apply_batch b (w_ks w))\<rparr>)"
| "run (PrefixIter p c) w = run (c (prefix_iter_raw p (w_ks w))) w"
| "run (Now c) w = run (c (w_now w)) w"
| "run (Fresh c) w = run (c (w_supply w (w_drawn w))) (w\<lparr>w_drawn := w_drawn w + 1\<rparr>)"
| "run (NextSeq c) w = run (c (w_seq w)) (w\<lparr>w_seq := w_seq w + 1\<rparr>)"
| "run (Emit e c) w = run c (w\<lparr>w_log := w_log w @ [e]\<rparr>)"

definition result_of :: "('v, 'e, 'r) prog \<Rightarrow> ('v, 'e) world \<Rightarrow> 'r" where
  "result_of p w = fst (run p w)"

definition world_after :: "('v, 'e, 'r) prog \<Rightarrow> ('v, 'e) world \<Rightarrow> ('v, 'e) world" where
  "world_after p w = snd (run p w)"

lemma run_bnd [run_simps]: "run (bnd p f) w = run (f (fst (run p w))) (snd (run p w))"
  by (induction p arbitrary: w) simp_all

lemma run_bndE [run_simps]:
  "run (bndE p f) w =
     (case run p w of (Err x, w') \<Rightarrow> (Err x, w') | (Ok a, w') \<Rightarrow> run (f a) w')"
  by (cases "run p w"; cases "fst (run p w)") (auto simp: bndE_def run_bnd)

lemma run_map_errP [run_simps]:
  "run (map_errP f p) w = (map_err f (fst (run p w)), snd (run p w))"
  by (simp add: map_errP_def run_bnd)

lemma bnd_assoc: "bnd (bnd p f) g = bnd p (\<lambda>a. bnd (f a) g)"
  by (induction p) simp_all

lemma bnd_Ret: "bnd p Ret = p"
  by (induction p) simp_all

lemma bndE_simps [simp]:
  "bndE (Ret (Err x)) f = Ret (Err x)" "bndE (Ret (Ok a)) f = f a"
  "bndE (Get k c) f = Get k (\<lambda>x. bndE (c x) f)"
  "bndE (Insert k v d) f = Insert k v (bndE d f)"
  "bndE (Remove k d) f = Remove k (bndE d f)"
  "bndE (Take k c) f = Take k (\<lambda>x. bndE (c x) f)"
  "bndE (InsertIfAbsent k v e) f = InsertIfAbsent k v (\<lambda>x. bndE (e x) f)"
  "bndE (MoveIfUnchanged k v k' v' m) f = MoveIfUnchanged k v k' v' (\<lambda>x. bndE (m x) f)"
  "bndE (ApplyBatch b g) f = ApplyBatch b (\<lambda>x. bndE (g x) f)"
  "bndE (PrefixIter p h) f = PrefixIter p (\<lambda>x. bndE (h x) f)"
  "bndE (Now i) f = Now (\<lambda>x. bndE (i x) f)"
  "bndE (Fresh j) f = Fresh (\<lambda>x. bndE (j x) f)"
  "bndE (NextSeq j') f = NextSeq (\<lambda>x. bndE (j' x) f)"
  "bndE (Emit z d) f = Emit z (bndE d f)"
  by (simp_all add: bndE_def)

section \<open>Interleaving programs\<close>

fun step1 :: "('v, 'e, 'r) prog \<Rightarrow> ('v, 'e) world \<Rightarrow> ('v, 'e, 'r) prog \<times> ('v, 'e) world" where
  "step1 (Ret r) w = (Ret r, w)"
| "step1 (Get k c) w = (c (get_raw (w_ks w) k), w)"
| "step1 (Insert k v c) w = (c, w\<lparr>w_ks := insert_raw k v (w_ks w)\<rparr>)"
| "step1 (Remove k c) w = (c, w\<lparr>w_ks := remove k (w_ks w)\<rparr>)"
| "step1 (Take k c) w =
     (c (fst (take_raw k (w_ks w))), w\<lparr>w_ks := snd (take_raw k (w_ks w))\<rparr>)"
| "step1 (InsertIfAbsent k v c) w =
     (c (fst (insert_if_absent k v (w_ks w))), w\<lparr>w_ks := snd (insert_if_absent k v (w_ks w))\<rparr>)"
| "step1 (MoveIfUnchanged k v k' v' c) w =
     (c (fst (move_if_unchanged k v k' v' (w_ks w))),
      w\<lparr>w_ks := snd (move_if_unchanged k v k' v' (w_ks w))\<rparr>)"
| "step1 (ApplyBatch b c) w =
     (c (fst (apply_batch b (w_ks w))), w\<lparr>w_ks := snd (apply_batch b (w_ks w))\<rparr>)"
| "step1 (PrefixIter p c) w = (c (prefix_iter_raw p (w_ks w)), w)"
| "step1 (Now c) w = (c (w_now w), w)"
| "step1 (Fresh c) w = (c (w_supply w (w_drawn w)), w\<lparr>w_drawn := w_drawn w + 1\<rparr>)"
| "step1 (NextSeq c) w = (c (w_seq w), w\<lparr>w_seq := w_seq w + 1\<rparr>)"
| "step1 (Emit e c) w = (c, w\<lparr>w_log := w_log w @ [e]\<rparr>)"

inductive pstep ::
    "('v, 'e, 'r) prog list \<times> ('v, 'e) world \<Rightarrow> ('v, 'e, 'r) prog list \<times> ('v, 'e) world \<Rightarrow> bool"
  where
  pstep_thread: "i < length ps \<Longrightarrow> step1 (ps ! i) w = (p', w') \<Longrightarrow> pstep (ps, w) (ps[i := p'], w')"
| pstep_tick: "w_now w \<le> t \<Longrightarrow> pstep (ps, w) (ps, w\<lparr>w_now := t\<rparr>)"

inductive_cases pstepE: "pstep (ps, w) c"

inductive reach ::
    "('v, 'e, 'r) prog list \<times> ('v, 'e) world \<Rightarrow> ('v, 'e, 'r) prog list \<times> ('v, 'e) world \<Rightarrow> bool"
  where
  reach_refl: "reach c c"
| reach_step: "reach c d \<Longrightarrow> pstep d e \<Longrightarrow> reach c e"

text \<open>A schedule names the program that runs next; executing one gives a reachable state.\<close>

fun run_schedule ::
    "nat list \<Rightarrow> ('v, 'e, 'r) prog list \<times> ('v, 'e) world \<Rightarrow> ('v, 'e, 'r) prog list \<times> ('v, 'e) world"
  where
  "run_schedule [] c = c"
| "run_schedule (i # is) (ps, w) =
     (if i < length ps then let (p', w') = step1 (ps ! i) w in run_schedule is (ps[i := p'], w')
      else run_schedule is (ps, w))"

lemma reach_trans: "reach d e \<Longrightarrow> reach c d \<Longrightarrow> reach c e"
  by (induction rule: reach.induct) (auto intro: reach.intros)

lemma run_schedule_reach: "reach c (run_schedule is c)"
proof (induction "is" c rule: run_schedule.induct)
  case (2 i "is" ps w)
  show ?case
  proof (cases "i < length ps")
    case True
    obtain p' w' where s: "step1 (ps ! i) w = (p', w')" by fastforce
    then have "reach (ps, w) (ps[i := p'], w')" using True
      by (blast intro: reach.intros pstep_thread)
    then show ?thesis using 2(1) [OF True] True s by (auto intro: reach_trans)
  next
    case False
    then show ?thesis using 2 by simp
  qed
qed (simp add: reach_refl)

text \<open>Invariants of pools: what holds initially and is kept by every step of every program and by
  the clock holds in every reachable state.\<close>

lemma reach_invariant:
  assumes "reach c d" and "I c" and "\<And>d e. I d \<Longrightarrow> pstep d e \<Longrightarrow> I e"
  shows "I d"
  using assms(1,2,3) by (induction rule: reach.induct) auto

lemma step1_run: "run p w = run (fst (step1 p w)) (snd (step1 p w))"
  by (cases p) simp_all

lemma run_schedule_first:
  "run_schedule (0 # is) ([p], w) = run_schedule is ([fst (step1 p w)], snd (step1 p w))"
  by (simp add: Let_def case_prod_beta)

lemma run_schedule_extend:
  assumes "\<exists>is. run_schedule is ([fst (step1 p w)], snd (step1 p w)) =
    ([Ret (fst (run (fst (step1 p w)) (snd (step1 p w))))],
     snd (run (fst (step1 p w)) (snd (step1 p w))))"
  shows "\<exists>is. run_schedule is ([p], w) = ([Ret (fst (run p w))], snd (run p w))"
  using assms by (metis run_schedule_first step1_run)

text \<open>A program that is alone in a pool reaches the outcome that \<^const>\<open>run\<close> computes.\<close>

lemma run_reaches_Ret:
  "\<exists>is. run_schedule is ([p], w) = ([Ret (fst (run p w))], snd (run p w))"
proof (induction p arbitrary: w)
  case (Ret r)
  then show ?case by (intro exI [of _ "[]"]) simp
qed (rule run_schedule_extend, simp)+

text \<open>In any pool, one program can be run to its end while the others wait.\<close>

lemma pool_step:
  assumes "i < length ps" and "reach (ps[i := fst (step1 p w)], snd (step1 p w)) c"
  shows "reach (ps[i := p], w) c"
proof -
  have "pstep (ps[i := p], w) (ps[i := p, i := fst (step1 p w)], snd (step1 p w))"
    using assms(1) by (intro pstep_thread) simp_all
  then have "reach (ps[i := p], w) (ps[i := fst (step1 p w)], snd (step1 p w))"
    by (auto intro: reach.intros)
  then show ?thesis using reach_trans [OF assms(2)] by blast
qed

lemma run_in_pool:
  "i < length ps \<Longrightarrow> reach (ps[i := p], w) (ps[i := Ret (fst (run p w))], snd (run p w))"
proof (induction p arbitrary: w)
  case (Ret r)
  then show ?case by (simp add: reach_refl)
qed (rule pool_step, assumption, simp)+

lemma run_now: "w_now (snd (run p w)) = w_now w"
  by (induction p arbitrary: w) simp_all

end
