(* ===== verification/Acl_Store.thy ===== *)
theory Acl_Store
  imports Acl Store_Prog
begin

text \<open>
  Persistence of access-list entries (\<open>vti-common/src/acl/mod.rs\<close>, from \<^verbatim>\<open>acl_key\<close> to
  \<^verbatim>\<open>check_acl_entry\<close>): reads, unconditional and versioned writes, the move of an entry to a new DID,
  deletion, listing, and the effective-entry checks.  A row is an entry or bytes that do not decode
  as one.  Re-sealing the integrity manifest after a write is a no-op outside an enclave and is not
  modelled.
\<close>

section \<open>Operations\<close>

datatype acl_row = AclRow acl_entry | CorruptRow string

type_synonym 'r acl_prog = "(acl_row, unit, (app_error, 'r) result) prog"
type_synonym acl_world = "(acl_row, unit) world"

definition acl_key :: "string \<Rightarrow> string" where
  "acl_key did = ''acl:'' @ did"

primrec decode_acl :: "acl_row \<Rightarrow> (app_error, acl_entry) result" where
  "decode_acl (AclRow e) = Ok e"
| "decode_acl (CorruptRow _) = Err Serialization"

definition decode_opt :: "acl_row option \<Rightarrow> (app_error, acl_entry option) result" where
  "decode_opt raw =
     (case raw of None \<Rightarrow> Ok None | Some b \<Rightarrow> res_bind (decode_acl b) (\<lambda>e. Ok (Some e)))"

definition get_acl_entry :: "string \<Rightarrow> acl_entry option acl_prog" where
  "get_acl_entry did = Get (acl_key did) (\<lambda>raw. Ret (decode_opt raw))"

definition get_acl_entry_with_bytes :: "string \<Rightarrow> (acl_entry \<times> acl_row) option acl_prog" where
  "get_acl_entry_with_bytes did = Get (acl_key did) (\<lambda>raw. Ret
     (case raw of
        Some b \<Rightarrow> res_bind (decode_acl b) (\<lambda>e. Ok (Some (e, b)))
      | None \<Rightarrow> Ok None))"

definition move_acl_entry_if_unchanged ::
    "string \<Rightarrow> acl_row \<Rightarrow> acl_entry \<Rightarrow> move_outcome acl_prog" where
  "move_acl_entry_if_unchanged old_did expected successor =
     MoveIfUnchanged (acl_key old_did) expected (acl_key (e_did successor)) (AclRow successor)
       (\<lambda>outcome. Ret (Ok outcome))"

definition store_acl_entry :: "acl_entry \<Rightarrow> unit acl_prog" where
  "store_acl_entry entry =
     ApplyBatch \<lparr>checks = [], writes = [Put (acl_key (e_did entry)) (AclRow entry)]\<rparr>
       (\<lambda>r. Ret (res_bind r (\<lambda>_. Ok ())))"

definition stored_version :: "acl_entry option \<Rightarrow> u32" where
  "stored_version current = (case current of Some e \<Rightarrow> e_version e | None \<Rightarrow> 0)"

definition versioned_batch :: "acl_entry \<Rightarrow> u32 \<Rightarrow> acl_row option \<Rightarrow> (string, acl_row) batch" where
  "versioned_batch new_entry expected_version current_raw =
     (let key = acl_key (e_did new_entry) in
      \<lparr> checks = [case current_raw of Some raw \<Rightarrow> Unchanged key raw | None \<Rightarrow> Absent key],
        writes = [Put key (AclRow (new_entry\<lparr>e_version := expected_version + 1\<rparr>))] \<rparr>)"

definition versioned_finish :: "u32 \<Rightarrow> (app_error, batch_outcome) result \<Rightarrow> (app_error, u32) result" where
  "versioned_finish expected_version r =
     res_bind r (\<lambda>out. if \<not> is_applied out then Err Conflict else Ok (expected_version + 1))"

definition update_acl_entry_versioned :: "acl_entry \<Rightarrow> u32 \<Rightarrow> u32 acl_prog" where
  "update_acl_entry_versioned new_entry expected_version =
     Get (acl_key (e_did new_entry)) (\<lambda>current_raw.
       case decode_opt current_raw of
         Err x \<Rightarrow> Ret (Err x)
       | Ok current \<Rightarrow>
           if stored_version current \<noteq> expected_version then Ret (Err Conflict)
           else ApplyBatch (versioned_batch new_entry expected_version current_raw)
             (\<lambda>r. Ret (versioned_finish expected_version r)))"

definition delete_acl_entry :: "string \<Rightarrow> unit acl_prog" where
  "delete_acl_entry did =
     ApplyBatch \<lparr>checks = [], writes = [Delete (acl_key did)]\<rparr> (\<lambda>r. Ret (res_bind r (\<lambda>_. Ok ())))"

definition list_acl_entries :: "acl_entry list acl_prog" where
  "list_acl_entries = PrefixIter ''acl:'' (\<lambda>raw. Ret (Ok
     (List.map_filter (\<lambda>(_, v). case decode_acl v of Ok e \<Rightarrow> Some e | Err _ \<Rightarrow> None) raw)))"

definition check_acl_entry :: "string \<Rightarrow> acl_entry acl_prog" where
  "check_acl_entry did =
     bndE (get_acl_entry did) (\<lambda>found.
       case found of
         Some entry \<Rightarrow> Now (\<lambda>now_epoch.
           Ret (if entry_is_expired entry now_epoch then Err Forbidden else Ok entry))
       | None \<Rightarrow> Ret (Err Forbidden))"

definition check_acl :: "string \<Rightarrow> role acl_prog" where
  "check_acl did =
     bndE (get_acl_entry did) (\<lambda>found.
       case found of
         Some entry \<Rightarrow> Now (\<lambda>now_epoch.
           Ret (if entry_is_expired entry now_epoch then Err Forbidden else Ok (e_role entry)))
       | None \<Rightarrow> Ret (Err Forbidden))"

definition check_acl_full :: "string \<Rightarrow> (role \<times> string list) acl_prog" where
  "check_acl_full did =
     bndE (check_acl_entry did) (\<lambda>entry. Ret (Ok (e_role entry, e_allowed_contexts entry)))"

section \<open>What one operation does\<close>

lemma acl_key_inject [simp, key_simps]: "acl_key d = acl_key d' \<longleftrightarrow> d = d'"
  by (simp add: acl_key_def)

lemma acl_key_prefix [simp, key_simps]: "prefix ''acl:'' k \<longleftrightarrow> (\<exists>did. k = acl_key did)"
  by (auto simp: acl_key_def prefix_def)

text \<open>The abstract access list: the entry stored for a DID, when its row decodes.\<close>

definition acl_abs :: "(string, acl_row) keyspace \<Rightarrow> string \<Rightarrow> acl_entry option" where
  "acl_abs ks did =
     (case get_raw ks (acl_key did) of Some (AclRow e) \<Rightarrow> Some e | _ \<Rightarrow> None)"

lemma acl_abs_Some_iff: "acl_abs ks did = Some e \<longleftrightarrow> get_raw ks (acl_key did) = Some (AclRow e)"
  by (simp add: acl_abs_def split: option.split acl_row.split)

lemma decode_opt_simps [simp]:
  "decode_opt None = Ok None" "decode_opt (Some (AclRow e)) = Ok (Some e)"
  "decode_opt (Some (CorruptRow s)) = Err Serialization"
  by (simp_all add: decode_opt_def)

lemma decode_opt_Ok_iff:
  "decode_opt raw = Ok c \<longleftrightarrow>
     (raw = None \<and> c = None) \<or> (\<exists>e. raw = Some (AclRow e) \<and> c = Some e)"
  by (cases raw; cases "the raw") (auto simp: decode_opt_def)

lemma decode_opt_Err: "decode_opt raw = Err x \<Longrightarrow> x = Serialization"
  by (cases raw; cases "the raw") (auto simp: decode_opt_def)

lemma run_store_acl_entry:
  "run (store_acl_entry entry) w =
     (Ok (), w\<lparr>w_ks := insert_raw (acl_key (e_did entry)) (AclRow entry) (w_ks w)\<rparr>)"
  by (simp add: store_acl_entry_def apply_batch_def batch_validate_def)

lemma run_delete_acl_entry:
  "run (delete_acl_entry did) w = (Ok (), w\<lparr>w_ks := remove (acl_key did) (w_ks w)\<rparr>)"
  by (simp add: delete_acl_entry_def apply_batch_def batch_validate_def)

lemma versioned_batch_apply:
  "apply_batch (versioned_batch e v raw) ks =
     (if get_raw ks (acl_key (e_did e)) = raw
      then (Ok Applied, insert_raw (acl_key (e_did e)) (AclRow (e\<lparr>e_version := v + 1\<rparr>)) ks)
      else (Ok (Refused 0), ks))"
  by (auto simp: apply_batch_def batch_validate_def versioned_batch_def Let_def split: option.splits)

lemma run_update_versioned:
  "run (update_acl_entry_versioned e v) w =
     (case decode_opt (get_raw (w_ks w) (acl_key (e_did e))) of
        Err x \<Rightarrow> (Err x, w)
      | Ok current \<Rightarrow>
          if stored_version current \<noteq> v then (Err Conflict, w)
          else (Ok (v + 1),
                w\<lparr>w_ks := insert_raw (acl_key (e_did e)) (AclRow (e\<lparr>e_version := v + 1\<rparr>)) (w_ks w)\<rparr>))"
  by (auto simp: update_acl_entry_versioned_def versioned_batch_apply versioned_finish_def
      is_applied_def split: sum.splits)

lemma run_check_acl_entry:
  "run (check_acl_entry did) w =
     ((case get_raw (w_ks w) (acl_key did) of
         None \<Rightarrow> Err Forbidden
       | Some (CorruptRow _) \<Rightarrow> Err Serialization
       | Some (AclRow e) \<Rightarrow> if entry_is_expired e (w_now w) then Err Forbidden else Ok e), w)"
  by (auto simp: check_acl_entry_def get_acl_entry_def run_bndE split: option.splits acl_row.splits)

lemma acl_abs_insert:
  "acl_abs (insert_raw (acl_key d) (AclRow e) ks) = (acl_abs ks)(d \<mapsto> e)"
  by (rule ext) (simp add: acl_abs_def)

lemma acl_abs_remove: "acl_abs (remove (acl_key d) ks) = (acl_abs ks)(d := None)"
  by (rule ext) (simp add: acl_abs_def)

text \<open>A row that does not decode stands in the way of the operations on its DID until it is overwritten or deleted.\<close>

definition acl_corrupt :: "(string, acl_row) keyspace \<Rightarrow> string \<Rightarrow> bool" where
  "acl_corrupt ks did \<longleftrightarrow> (\<exists>s. get_raw ks (acl_key did) = Some (CorruptRow s))"

lemma acl_corrupt_simps:
  "acl_corrupt (insert_raw (acl_key d) (AclRow e) ks) = (acl_corrupt ks)(d := False)"
  "acl_corrupt (remove (acl_key d) ks) = (acl_corrupt ks)(d := False)"
  by (auto simp: acl_corrupt_def fun_eq_iff)

lemma decode_opt_abs:
  "decode_opt (get_raw ks (acl_key d)) = (if acl_corrupt ks d then Err Serialization else Ok (acl_abs ks d))"
  by (auto simp: decode_opt_def acl_corrupt_def acl_abs_def split: option.splits acl_row.splits)

text \<open>C26: the stored access list refines a map from DIDs to entries, with a set of DIDs whose row does not
  decode: storing updates one point, deleting clears one, and both always succeed and repair a row that does
  not decode. A versioned write succeeds exactly when the row decodes or is absent and the stored version is
  the expected one (an absent entry counting as version 0); it then updates that point with the next version
  and answers that version. A row that does not decode is answered with a serialisation error, another
  version with a conflict, and both leave the store as it was. The effective-entry check reads only and
  answers from that map and the clock: the entry when there is one that has not expired, an error otherwise.\<close>

theorem acl_store_refines:
  "result_of (store_acl_entry e) w = Ok () \<and>
   acl_abs (w_ks (world_after (store_acl_entry e) w)) = (acl_abs (w_ks w))(e_did e \<mapsto> e) \<and>
   acl_corrupt (w_ks (world_after (store_acl_entry e) w)) = (acl_corrupt (w_ks w))(e_did e := False) \<and>
   result_of (delete_acl_entry d) w = Ok () \<and>
   acl_abs (w_ks (world_after (delete_acl_entry d) w)) = (acl_abs (w_ks w))(d := None) \<and>
   acl_corrupt (w_ks (world_after (delete_acl_entry d) w)) = (acl_corrupt (w_ks w))(d := False) \<and>
   result_of (update_acl_entry_versioned e v) w =
     (if acl_corrupt (w_ks w) (e_did e) then Err Serialization
      else if stored_version (acl_abs (w_ks w) (e_did e)) = v then Ok (v + 1) else Err Conflict) \<and>
   (if is_ok (result_of (update_acl_entry_versioned e v) w)
    then acl_abs (w_ks (world_after (update_acl_entry_versioned e v) w)) =
           (acl_abs (w_ks w))(e_did e \<mapsto> e\<lparr>e_version := v + 1\<rparr>) \<and>
         acl_corrupt (w_ks (world_after (update_acl_entry_versioned e v) w)) = acl_corrupt (w_ks w)
    else world_after (update_acl_entry_versioned e v) w = w) \<and>
   world_after (check_acl_entry d) w = w \<and>
   result_of (check_acl_entry d) w =
     (if acl_corrupt (w_ks w) d then Err Serialization
      else case acl_abs (w_ks w) d of
        None \<Rightarrow> Err Forbidden
      | Some f \<Rightarrow> if entry_is_expired f (w_now w) then Err Forbidden else Ok f)"
proof (intro conjI)
  show "result_of (update_acl_entry_versioned e v) w =
     (if acl_corrupt (w_ks w) (e_did e) then Err Serialization
      else if stored_version (acl_abs (w_ks w) (e_did e)) = v then Ok (v + 1) else Err Conflict)"
    by (simp add: result_of_def run_update_versioned decode_opt_abs)
  show "if is_ok (result_of (update_acl_entry_versioned e v) w)
    then acl_abs (w_ks (world_after (update_acl_entry_versioned e v) w)) =
           (acl_abs (w_ks w))(e_did e \<mapsto> e\<lparr>e_version := v + 1\<rparr>) \<and>
         acl_corrupt (w_ks (world_after (update_acl_entry_versioned e v) w)) = acl_corrupt (w_ks w)
    else world_after (update_acl_entry_versioned e v) w = w"
    by (auto simp: result_of_def world_after_def run_update_versioned decode_opt_abs acl_abs_insert acl_corrupt_simps fun_upd_idem)
  show "result_of (check_acl_entry d) w =
     (if acl_corrupt (w_ks w) d then Err Serialization
      else case acl_abs (w_ks w) d of
        None \<Rightarrow> Err Forbidden
      | Some f \<Rightarrow> if entry_is_expired f (w_now w) then Err Forbidden else Ok f)"
    by (auto simp: result_of_def run_check_acl_entry acl_abs_def acl_corrupt_def split: option.splits acl_row.splits)
qed (auto simp: result_of_def world_after_def run_store_acl_entry run_delete_acl_entry run_check_acl_entry acl_abs_insert
    acl_abs_remove acl_corrupt_simps)

text \<open>Rotating an entry to a new DID moves the authority and never copies it: a move that
  succeeds leaves no entry under the old DID, the successor under the new one and every other entry
  as it was, and a second move expecting the same bytes fails; any other outcome changes nothing.\<close>

theorem acl_move_exclusive:
  "(case run (move_acl_entry_if_unchanged old expected succ) w of
      (Ok Moved, w') \<Rightarrow> old \<noteq> e_did succ \<and>
        acl_abs (w_ks w') = (acl_abs (w_ks w))(old := None, e_did succ \<mapsto> succ) \<and>
        result_of (move_acl_entry_if_unchanged old expected succ') w' = Ok SourceMissing
    | (Ok _, w') \<Rightarrow> w' = w
    | (Err _, _) \<Rightarrow> False)"
proof (cases "get_raw (w_ks w) (acl_key old) = Some expected \<and>
    get_raw (w_ks w) (acl_key (e_did succ)) = None")
  case True
  then have ne: "old \<noteq> e_did succ" by auto
  have "acl_abs (commit_move (acl_key old) (acl_key (e_did succ)) (AclRow succ) (w_ks w)) =
      (acl_abs (w_ks w))(old := None, e_did succ \<mapsto> succ)"
    using ne by (simp add: commit_move_def acl_abs_insert acl_abs_remove fun_upd_twist)
  then show ?thesis using True ne
    by (simp add: move_acl_entry_if_unchanged_def move_if_unchanged_def result_of_def
        get_raw_commit_move)
next
  case False
  then show ?thesis
    by (auto simp: move_acl_entry_if_unchanged_def move_if_unchanged_def split: option.splits)
qed

lemma map_filter_decode:
  "e \<in> set (List.map_filter (\<lambda>(_, v). case decode_acl v of Ok e \<Rightarrow> Some e | Err _ \<Rightarrow> None) rows) \<longleftrightarrow>
     (\<exists>k. (k, AclRow e) \<in> set rows)"
proof (induction rows)
  case (Cons r rows)
  then show ?case by (cases r; cases "snd r") (auto simp: List.map_filter_simps)
qed (simp add: List.map_filter_simps)

text \<open>Listing returns exactly the entries whose rows decode, skipping corrupt rows instead of
  failing.\<close>

theorem list_acl_entries_exact:
  assumes "ks_ordered (w_ks w)"
  shows "\<exists>es. run list_acl_entries w = (Ok es, w) \<and>
    set es = {e. \<exists>did. acl_abs (w_ks w) did = Some e}"
proof -
  have "(k, AclRow e) \<in> set (prefix_iter_raw ''acl:'' (w_ks w)) \<longleftrightarrow>
      (\<exists>did. k = acl_key did \<and> acl_abs (w_ks w) did = Some e)" for k e
    using prefix_iter_raw_mem [OF assms, of k "AclRow e" "''acl:''"] by (auto simp: acl_abs_Some_iff)
  then show ?thesis unfolding list_acl_entries_def
    by (auto simp: map_filter_decode)
qed

definition example_acl_world :: acl_world where
  "example_acl_world =
     \<lparr> w_ks = [(''acl:did:key:z2'', AclRow example_approver), (''acl:did:key:z4'', CorruptRow ''x'')],
       w_now = 5, w_supply = (\<lambda>n. []), w_drawn = 0, w_seq = 0, w_log = [] \<rparr>"

theorem acl_store_refines_witness:
  "acl_abs (w_ks example_acl_world) ''did:key:z2'' = Some example_approver \<and>
   acl_abs (w_ks (world_after (delete_acl_entry ''did:key:z2'') example_acl_world)) ''did:key:z2'' = None \<and>
   acl_abs (w_ks (world_after (store_acl_entry example_subject) example_acl_world)) (e_did example_subject) =
     Some example_subject \<and>
   result_of (update_acl_entry_versioned (example_subject\<lparr>e_did := ''did:key:z4''\<rparr>) 0) example_acl_world = Err Serialization"
  using acl_store_refines [of "example_subject\<lparr>e_did := ''did:key:z4''\<rparr>" example_acl_world "[]" 0] acl_store_refines [of example_subject example_acl_world "''did:key:z2''" 0]
  by (simp add: acl_abs_def acl_corrupt_def example_acl_world_def acl_key_def get_raw_def)

theorem list_acl_entries_exact_witness:
  "\<exists>es. run list_acl_entries example_acl_world = (Ok es, example_acl_world) \<and>
     set es = {e. \<exists>did. acl_abs (w_ks example_acl_world) did = Some e}"
proof (rule list_acl_entries_exact)
  show "ks_ordered (w_ks example_acl_world)" by code_simp
qed

section \<open>Concurrent versioned writes\<close>

text \<open>Any number of writers update the entry of one DID, all expecting the same version.  A thread is
  at its start, about to commit against the bytes it read (which carried the expected version), or
  done.\<close>

definition writers :: "acl_entry list \<Rightarrow> u32 \<Rightarrow> (acl_row, unit, (app_error, u32) result) prog list" where
  "writers es v = map (\<lambda>e. update_acl_entry_versioned e v) es"

definition commit_step :: "acl_entry \<Rightarrow> u32 \<Rightarrow> acl_row option \<Rightarrow> u32 acl_prog" where
  "commit_step e v raw =
     ApplyBatch (versioned_batch e v raw) (\<lambda>r. Ret (versioned_finish v r))"

definition raw_has_version :: "u32 \<Rightarrow> acl_row option \<Rightarrow> bool" where
  "raw_has_version v raw \<longleftrightarrow> (\<exists>c. decode_opt raw = Ok c \<and> stored_version c = v)"

definition writer_state :: "acl_entry \<Rightarrow> u32 \<Rightarrow> u32 acl_prog \<Rightarrow> bool" where
  "writer_state e v p \<longleftrightarrow>
     p = update_acl_entry_versioned e v \<or>
     (\<exists>raw. raw_has_version v raw \<and> p = commit_step e v raw) \<or> (\<exists>r. p = Ret r)"

definition winners :: "u32 acl_prog list \<Rightarrow> nat set" where
  "winners ps = {i. i < length ps \<and> (\<exists>n. ps ! i = Ret (Ok n))}"

definition writers_inv ::
    "acl_entry list \<Rightarrow> u32 \<Rightarrow> string \<Rightarrow> u32 acl_prog list \<times> acl_world \<Rightarrow> bool" where
  "writers_inv es v d c =
     (case c of (ps, w) \<Rightarrow>
        length ps = length es \<and> (\<forall>i < length es. writer_state (es ! i) v (ps ! i)) \<and>
        (winners ps = {} \<or>
         (\<exists>i < length es. winners ps = {i} \<and> ps ! i = Ret (Ok (v + 1)) \<and>
            get_raw (w_ks w) (acl_key d) = Some (AclRow ((es ! i)\<lparr>e_version := v + 1\<rparr>)))))"

lemma next_version_differs: "(v :: u32) + 1 \<noteq> v"
  by simp

lemma not_Ret_not_winner: "ps ! i \<noteq> Ret (Ok n) \<Longrightarrow> \<not> (\<exists>n. ps ! i = Ret (Ok n)) \<Longrightarrow> i \<notin> winners ps"
  by (simp add: winners_def)

lemma winners_update:
  "i < length ps \<Longrightarrow> winners (ps[i := p]) =
     (if \<exists>n. p = Ret (Ok n) then insert i (winners ps) else winners ps - {i})"
  by (auto simp: winners_def nth_list_update)

lemma winners_initial: "winners (writers es v) = {}"
  by (auto simp: winners_def writers_def update_acl_entry_versioned_def)

lemma writer_read_step:
  assumes "step1 (update_acl_entry_versioned e v) w = (p', w')"
  shows "w' = w \<and> writer_state e v p' \<and> (\<forall>n. p' \<noteq> Ret (Ok n))"
  using assms
  by (auto simp: update_acl_entry_versioned_def writer_state_def commit_step_def raw_has_version_def
      split: sum.splits if_splits)

lemma writer_commit_step:
  assumes "step1 (commit_step e v raw) w = (p', w')"
  shows "(p' = Ret (Err Conflict) \<and> w' = w) \<or>
    (p' = Ret (Ok (v + 1)) \<and> get_raw (w_ks w) (acl_key (e_did e)) = raw \<and>
     w' = w\<lparr>w_ks := insert_raw (acl_key (e_did e)) (AclRow (e\<lparr>e_version := v + 1\<rparr>)) (w_ks w)\<rparr>)"
  using assms
  by (auto simp: commit_step_def versioned_batch_apply versioned_finish_def is_applied_def
      split: if_splits)

lemma written_version: "\<not> raw_has_version v (Some (AclRow (e\<lparr>e_version := v + 1\<rparr>)))"
  by (simp add: raw_has_version_def stored_version_def next_version_differs)

lemma writers_inv_step:
  assumes inv: "writers_inv es v d (ps, w)" and dids: "\<And>e. e \<in> set es \<Longrightarrow> e_did e = d"
    and i: "i < length ps" and st: "step1 (ps ! i) w = (p', w')"
  shows "writers_inv es v d (ps[i := p'], w')"
proof -
  from inv have len: "length ps = length es" and states: "\<forall>j < length es. writer_state (es ! j) v (ps ! j)"
    and win: "winners ps = {} \<or> (\<exists>j < length es. winners ps = {j} \<and> ps ! j = Ret (Ok (v + 1)) \<and>
            get_raw (w_ks w) (acl_key d) = Some (AclRow ((es ! j)\<lparr>e_version := v + 1\<rparr>)))"
    by (auto simp: writers_inv_def)
  have did: "e_did (es ! i) = d" using i len dids by simp
  from states i len have "writer_state (es ! i) v (ps ! i)" by simp
  then consider (start) "ps ! i = update_acl_entry_versioned (es ! i) v"
    | (commit) raw where "raw_has_version v raw" "ps ! i = commit_step (es ! i) v raw"
    | (finished) r where "ps ! i = Ret r" by (auto simp: writer_state_def)
  then show ?thesis
  proof cases
    case start
    then have s: "w' = w" "writer_state (es ! i) v p'" "\<forall>n. p' \<noteq> Ret (Ok n)"
      using writer_read_step [of "es ! i" v w p' w'] st by auto
    have "i \<notin> winners ps" using start by (simp add: winners_def update_acl_entry_versioned_def)
    then show ?thesis using s len states win i
      by (auto simp: writers_inv_def winners_update nth_list_update)
  next
    case commit
    have ni: "i \<notin> winners ps" using commit by (simp add: winners_def commit_step_def)
    from writer_commit_step [of "es ! i" v raw w p' w'] st commit(2)
    consider "p' = Ret (Err Conflict)" "w' = w" | "p' = Ret (Ok (v + 1))"
        "get_raw (w_ks w) (acl_key d) = raw"
        "w' = w\<lparr>w_ks := insert_raw (acl_key d) (AclRow ((es ! i)\<lparr>e_version := v + 1\<rparr>)) (w_ks w)\<rparr>"
      using did by auto
    then show ?thesis
    proof cases
      case 1
      then show ?thesis using len states win i ni
        by (auto simp: writers_inv_def winners_update nth_list_update writer_state_def)
    next
      case 2
      then have "winners ps = {}" using win commit(1) written_version by auto
      then show ?thesis using 2 len states i
        by (auto simp: writers_inv_def winners_update nth_list_update writer_state_def)
    qed
  next
    case finished
    then show ?thesis using st inv i by (auto simp: list_update_same_conv)
  qed
qed

lemma writers_inv_initial: "writers_inv es v d (writers es v, w)"
  by (simp add: writers_inv_def winners_initial) (simp add: writers_def writer_state_def)

lemma writers_inv_pstep:
  assumes "\<And>e. e \<in> set es \<Longrightarrow> e_did e = d" and "writers_inv es v d c" and "pstep c c'"
  shows "writers_inv es v d c'"
  using assms(3,2)
proof cases
  case (pstep_thread i ps w p' w')
  then show ?thesis using writers_inv_step [OF _ assms(1)] assms(2) by simp
next
  case (pstep_tick w t ps)
  then show ?thesis using assms(2) by (simp add: writers_inv_def)
qed

text \<open>C25: Optimistic concurrency loses no update: of any number of concurrent versioned writes to the
  entry of one DID that expect the same version, under every interleaving of their store operations
  at most one succeeds, and from then on the stored entry is that writer's, one version higher.\<close>

theorem versioned_write_single_winner:
  assumes "\<forall>e\<in>set es. e_did e = d" and "reach (writers es v, w) (ps, w')"
  shows "winners ps = {} \<or> (\<exists>i < length es. winners ps = {i} \<and> ps ! i = Ret (Ok (v + 1)) \<and>
    acl_abs (w_ks w') d = Some ((es ! i)\<lparr>e_version := v + 1\<rparr>))"
proof -
  have "writers_inv es v d (ps, w')"
    using assms(2) writers_inv_initial
    by (rule reach_invariant) (rule writers_inv_pstep, use assms(1) in auto)
  then show ?thesis by (auto simp: writers_inv_def acl_abs_Some_iff)
qed

definition example_writers :: "acl_entry list" where
  "example_writers = [example_approver\<lparr>e_label := Some ''a''\<rparr>, example_approver\<lparr>e_label := Some ''b''\<rparr>]"

lemma example_race:
  "let (ps, w') = run_schedule [0, 1, 1, 0] (writers example_writers 0, example_acl_world)
   in (case ps of [Ret (Err Conflict), Ret (Ok n)] \<Rightarrow> n = 1 | _ \<Rightarrow> False)"
  by code_simp

theorem versioned_write_single_winner_witness:
  "\<exists>ps w'. reach (writers example_writers 0, example_acl_world) (ps, w') \<and> 1 \<in> winners ps \<and>
     acl_abs (w_ks w') ''did:key:z2'' = Some ((example_writers ! 1)\<lparr>e_version := 1\<rparr>)"
proof -
  obtain ps w' where s: "run_schedule [0, 1, 1, 0] (writers example_writers 0, example_acl_world) = (ps, w')"
    by fastforce
  then have r: "reach (writers example_writers 0, example_acl_world) (ps, w')"
    using run_schedule_reach by metis
  have "\<forall>e\<in>set example_writers. e_did e = ''did:key:z2''" by code_simp
  note win = versioned_write_single_winner [OF this r]
  have "1 \<in> winners ps"
    using example_race s by (auto simp: winners_def split: list.splits prog.splits sum.splits app_error.splits)
  with win have "1 \<in> winners ps \<and>
      acl_abs (w_ks w') ''did:key:z2'' = Some ((example_writers ! 1)\<lparr>e_version := 1\<rparr>)" by auto
  with r show ?thesis by blast
qed

end
