(* ===== verification/Scan.thy ===== *)
theory Scan
  imports Kv_Store
begin

text \<open>
  Bounded range reads of \<open>vti-common/src/store/mod.rs\<close>: the byte bounds a scan computes, the
  in-memory fallback for back ends that can only return a whole prefix, and the resumable pager that
  chooses between the two page by page.  Keys are byte strings in lexicographic order.  The bounds
  are proved to select exactly the keys with the prefix that lie beyond the resume point, and the
  pager to enumerate the range exactly once, in order and in finitely many pages, whichever way each
  page is served.
\<close>

section \<open>Bounds\<close>

datatype 'k bound = Included 'k | Excluded 'k | Unbounded

record scan_opts =
  so_prefix :: bytes
  so_after :: "bytes option"
  so_limit :: nat
  so_reverse :: bool

definition scan_opts_new :: "bytes \<Rightarrow> nat \<Rightarrow> scan_opts" where
  "scan_opts_new p limit =
     \<lparr>so_prefix = p, so_after = None, so_limit = limit, so_reverse = False\<rparr>"

definition newest_first :: "bytes \<Rightarrow> nat \<Rightarrow> scan_opts" where
  "newest_first p limit = (scan_opts_new p limit)\<lparr>so_reverse := True\<rparr>"

definition scan_after :: "scan_opts \<Rightarrow> bytes \<Rightarrow> scan_opts" where
  "scan_after opts key = opts\<lparr>so_after := Some key\<rparr>"

text \<open>The loop pops bytes off the end of the prefix; the argument is the reversed prefix.\<close>

fun upper_bound_loop :: "bytes \<Rightarrow> bytes bound" where
  "upper_bound_loop [] = Unbounded"
| "upper_bound_loop (b # popped) =
     (if b < 255 then Excluded (rev popped @ [b + 1]) else upper_bound_loop popped)"

definition prefix_upper_bound :: "bytes \<Rightarrow> bytes bound" where
  "prefix_upper_bound p = upper_bound_loop (rev p)"

definition scan_bounds :: "scan_opts \<Rightarrow> bytes bound \<times> bytes bound" where
  "scan_bounds opts =
     (let lower = (if so_prefix opts = [] then Unbounded else Included (so_prefix opts));
          upper = prefix_upper_bound (so_prefix opts)
      in case so_after opts of
           None \<Rightarrow> (lower, upper)
         | Some after \<Rightarrow>
             if so_reverse opts then
               (if (case upper of Excluded e \<Rightarrow> after < e | _ \<Rightarrow> True)
                then (lower, Excluded after) else (lower, upper))
             else if after \<ge> so_prefix opts then (Excluded after, upper)
             else (lower, upper))"

definition key_in_bounds :: "bytes \<Rightarrow> bytes bound \<times> bytes bound \<Rightarrow> bool" where
  "key_in_bounds key bounds =
     (case bounds of (lower, upper) \<Rightarrow>
        (case lower of Included b \<Rightarrow> key \<ge> b | Excluded b \<Rightarrow> key > b | Unbounded \<Rightarrow> True) \<and>
        (case upper of Included b \<Rightarrow> key \<le> b | Excluded b \<Rightarrow> key < b | Unbounded \<Rightarrow> True))"

definition apply_scan_locally :: "(bytes \<times> 'v) list \<Rightarrow> scan_opts \<Rightarrow> (bytes \<times> 'v) list" where
  "apply_scan_locally pairs opts =
     (let bounds = scan_bounds opts;
          kept = sort_key fst (filter (\<lambda>(key, _). key_in_bounds key bounds) pairs)
      in take (so_limit opts) (if so_reverse opts then rev kept else kept))"

definition scan_raw :: "scan_opts \<Rightarrow> (bytes, 'v) keyspace \<Rightarrow> (bytes \<times> 'v) list" where
  "scan_raw opts ks =
     (if so_limit opts = 0 then []
      else let iter = filter (\<lambda>(key, _). key_in_bounds key (scan_bounds opts)) ks
           in take (so_limit opts) (if so_reverse opts then rev iter else iter))"

section \<open>The pager\<close>

record 'v scan_pager =
  sp_opts :: scan_opts
  sp_cursor :: "bytes option"
  sp_buffered :: "(bytes \<times> 'v) list option"
  sp_done :: bool

definition pager_new :: "scan_opts \<Rightarrow> 'v scan_pager" where
  "pager_new opts =
     \<lparr>sp_opts = opts, sp_cursor = so_after opts, sp_buffered = None, sp_done = (so_limit opts = 0)\<rparr>"

definition advance_cursor :: "bytes option \<Rightarrow> (bytes \<times> 'v) list \<Rightarrow> bytes option" where
  "advance_cursor cursor page = (if page = [] then cursor else Some (fst (last page)))"

definition take_buffered_page :: "'v scan_pager \<Rightarrow> (bytes \<times> 'v) list \<times> 'v scan_pager" where
  "take_buffered_page p =
     (let limit = so_limit (sp_opts p);
          buffered = (case sp_buffered p of Some b \<Rightarrow> b | None \<Rightarrow> []);
          page = take limit buffered
      in (page, p\<lparr>sp_buffered := Some (drop limit buffered),
                  sp_done := (if length page < limit then True else sp_done p),
                  sp_cursor := advance_cursor (sp_cursor p) page\<rparr>))"

text \<open>The fallback's limit is \<open>usize::MAX\<close>; no list in memory is longer, so the length of the list
  serves.\<close>

definition buffer_remaining_range :: "(bytes, 'v) keyspace \<Rightarrow> 'v scan_pager \<Rightarrow> 'v scan_pager" where
  "buffer_remaining_range ks p =
     (let pairs = prefix_iter_raw (so_prefix (sp_opts p)) ks;
          remaining = (sp_opts p)\<lparr>so_after := sp_cursor p, so_limit := length pairs\<rparr>
      in p\<lparr>sp_buffered := Some (apply_scan_locally pairs remaining)\<rparr>)"

definition next_page ::
    "bool \<Rightarrow> (bytes, 'v) keyspace \<Rightarrow> 'v scan_pager \<Rightarrow> (bytes \<times> 'v) list \<times> 'v scan_pager" where
  "next_page has_native_scan ks p =
     (if sp_done p then ([], p)
      else if sp_buffered p \<noteq> None then take_buffered_page p
      else if has_native_scan then
        (let page = scan_raw ((sp_opts p)\<lparr>so_after := sp_cursor p\<rparr>) ks
         in (page, p\<lparr>sp_done := (length page < so_limit (sp_opts p) \<or> page = []),
                     sp_cursor := advance_cursor (sp_cursor p) page\<rparr>))
      else take_buffered_page (buffer_remaining_range ks p))"

text \<open>A walk asks for pages until one is empty; \<open>native\<close> says, page by page, whether the back end
  serves bounded scans at that moment.\<close>

fun walk :: "(nat \<Rightarrow> bool) \<Rightarrow> nat \<Rightarrow> (bytes, 'v) keyspace \<Rightarrow> 'v scan_pager \<Rightarrow> (bytes \<times> 'v) list list" where
  "walk native 0 ks p = []"
| "walk native (Suc fuel) ks p =
     (let (page, p') = next_page (native fuel) ks p
      in if page = [] then [] else page # walk native fuel ks p')"

section \<open>The bounds select the prefix and what lies beyond the resume point\<close>

definition beyond :: "bool \<Rightarrow> bytes option \<Rightarrow> bytes \<Rightarrow> bool" where
  "beyond reverse after k =
     (case after of None \<Rightarrow> True | Some a \<Rightarrow> if reverse then k < a else a < k)"

lemma u8_le_255: "x \<le> (255 :: u8)"
proof -
  have "unat x < 2 ^ LENGTH(8)" by (rule unsigned_less)
  then show ?thesis by (simp add: word_le_nat_alt)
qed

lemma u8_less_Suc: "x < (255 :: u8) \<Longrightarrow> y < x + 1 \<longleftrightarrow> y \<le> x"
  using unat_add_lem [of x 1] by (simp add: word_less_nat_alt word_le_nat_alt less_Suc_eq_le)

lemma all_max_le_iff: "replicate n (255 :: u8) \<le> ys \<longleftrightarrow> prefix (replicate n 255) ys"
proof (induction n arbitrary: ys)
  case (Suc n)
  show ?case
  proof (cases ys)
    case (Cons y zs)
    have "\<not> 255 < y" using u8_le_255 [of y] by simp
    then show ?thesis using Suc Cons by auto
  qed simp
qed simp

lemma upper_bound_exact:
  assumes "x < (255 :: u8)"
  shows "q @ x # replicate n 255 \<le> k \<and> k < q @ [x + 1] \<longleftrightarrow> prefix (q @ x # replicate n 255) k"
proof (induction q arbitrary: k)
  case Nil
  show ?case
  proof (cases k)
    case (Cons y ys)
    have "y # ys < [x + 1] \<longleftrightarrow> y \<le> x" unfolding Cons_less_Cons u8_less_Suc [OF assms] by simp
    moreover have "x # replicate n 255 \<le> y # ys \<longleftrightarrow> x < y \<or> x = y \<and> prefix (replicate n 255) ys"
      unfolding Cons_le_Cons all_max_le_iff by blast
    ultimately show ?thesis unfolding Cons append_Nil Cons_prefix_Cons
      by (metis not_le order_refl)
  qed simp
next
  case IH: (Cons a q)
  show ?case
  proof (cases k)
    case (Cons y ys)
    show ?thesis
    proof (cases "a = y")
      case True
      then show ?thesis using IH [of ys] unfolding Cons append_Cons by simp
    next
      case False
      then have "\<not> (a < y \<and> y < a)" by (meson less_asym)
      with False show ?thesis
        unfolding Cons append_Cons Cons_le_Cons Cons_less_Cons Cons_prefix_Cons by blast
    qed
  qed simp
qed

lemma upper_bound_loop_cases:
  "(upper_bound_loop r = Unbounded \<and> r = replicate (length r) 255) \<or>
   (\<exists>q x n. x < 255 \<and> rev r = q @ x # replicate n 255 \<and> upper_bound_loop r = Excluded (q @ [x + 1]))"
proof (induction r rule: upper_bound_loop.induct)
  case (2 b r)
  show ?case
  proof (cases "b < 255")
    case True
    then show ?thesis by (intro disjI2 exI [of _ "rev r"] exI [of _ b] exI [of _ 0]) simp
  next
    case False
    then have b: "b = 255" using u8_le_255 [of b] by simp
    from 2 False consider "upper_bound_loop r = Unbounded" "r = replicate (length r) 255"
      | q x n where "x < 255" "rev r = q @ x # replicate n 255"
        "upper_bound_loop r = Excluded (q @ [x + 1])" by blast
    then show ?thesis
    proof cases
      case 1
      then show ?thesis using b by simp
    next
      case 2
      then have "rev (b # r) = q @ x # replicate (Suc n) 255"
        using b by (simp add: replicate_append_same)
      then show ?thesis using 2 b
        by (intro disjI2 exI [of _ q] exI [of _ x] exI [of _ "Suc n"]) simp
    qed
  qed
qed simp

lemma prefix_bounds_exact:
  "prefix p k \<longleftrightarrow> p \<le> k \<and> (case prefix_upper_bound p of Excluded e \<Rightarrow> k < e | _ \<Rightarrow> True)"
  using upper_bound_loop_cases [of "rev p"]
proof (elim disjE exE conjE)
  assume u: "upper_bound_loop (rev p) = Unbounded" "rev p = replicate (length (rev p)) 255"
  then obtain n where "p = replicate n 255" by (metis rev_replicate rev_rev_ident)
  then show ?thesis using u(1) by (simp add: prefix_upper_bound_def all_max_le_iff)
next
  fix q x n
  assume "x < 255" "rev (rev p) = q @ x # replicate n 255" "upper_bound_loop (rev p) = Excluded (q @ [x + 1])"
  then show ?thesis using upper_bound_exact [of x q n k] by (simp add: prefix_upper_bound_def)
qed

lemma key_in_bounds_simps:
  "key_in_bounds k (lower, upper) \<longleftrightarrow>
     (case lower of Included b \<Rightarrow> b \<le> k | Excluded b \<Rightarrow> b < k | Unbounded \<Rightarrow> True) \<and>
     (case upper of Included b \<Rightarrow> k \<le> b | Excluded b \<Rightarrow> k < b | Unbounded \<Rightarrow> True)"
  by (simp add: key_in_bounds_def)

lemma upper_bound_not_Included: "prefix_upper_bound p \<noteq> Included b"
  using upper_bound_loop_cases [of "rev p"] by (auto simp: prefix_upper_bound_def)

lemma lower_bound_prefix:
  "(case (if p = [] then Unbounded else Included p) of
      Included b \<Rightarrow> b \<le> k | Excluded b \<Rightarrow> b < k | Unbounded \<Rightarrow> True) \<longleftrightarrow> p \<le> (k :: bytes)"
  by simp

text \<open>The byte bounds of a scan are exact: a key lies within them just when it starts with the
  prefix and lies strictly beyond the resume key in the direction of the scan.  A resume key outside
  the prefix never widens the range, in either direction.\<close>

theorem scan_bounds_exact:
  "key_in_bounds k (scan_bounds opts) \<longleftrightarrow>
     prefix (so_prefix opts) k \<and> beyond (so_reverse opts) (so_after opts) k"
proof -
  let ?p = "so_prefix opts"
  let ?up = "prefix_upper_bound ?p"
  have up: "(case ?up of Included b \<Rightarrow> k \<le> b | Excluded b \<Rightarrow> k < b | Unbounded \<Rightarrow> True) =
      (case ?up of Excluded e \<Rightarrow> k < e | _ \<Rightarrow> True)"
    using upper_bound_not_Included by (simp split: bound.split)
  show ?thesis
  proof (cases "so_after opts")
    case None
    then show ?thesis
      by (simp add: scan_bounds_def key_in_bounds_simps beyond_def prefix_bounds_exact [of ?p] up)
  next
    case (Some a)
    show ?thesis
    proof (cases "so_reverse opts")
      case True
      show ?thesis
      proof (cases ?up)
        case (Excluded e)
        have "a < e \<Longrightarrow> k < a \<Longrightarrow> k < e" by (rule less_trans)
        moreover have "\<not> a < e \<Longrightarrow> k < e \<Longrightarrow> k < a" by (meson not_less less_le_trans)
        ultimately show ?thesis using Some True Excluded
          by (cases "a < e") (auto simp: scan_bounds_def key_in_bounds_simps beyond_def
              prefix_bounds_exact [of ?p])
      qed (use Some True upper_bound_not_Included in
          \<open>simp_all add: scan_bounds_def key_in_bounds_simps beyond_def prefix_bounds_exact [of ?p]\<close>)
    next
      case False
      have "?p \<le> a \<Longrightarrow> a < k \<Longrightarrow> ?p \<le> k" by (meson le_less_trans less_imp_le)
      moreover have "\<not> ?p \<le> a \<Longrightarrow> ?p \<le> k \<Longrightarrow> a < k" by (meson not_le less_le_trans)
      ultimately show ?thesis using Some False
        by (auto simp: scan_bounds_def key_in_bounds_simps beyond_def prefix_bounds_exact [of ?p] up
            Let_def)
    qed
  qed
qed

section \<open>The pager enumerates the range\<close>

text \<open>The range a scan covers, resumed at a cursor, in the direction of the scan.\<close>

definition scan_range :: "scan_opts \<Rightarrow> bytes option \<Rightarrow> (bytes, 'v) keyspace \<Rightarrow> (bytes \<times> 'v) list" where
  "scan_range opts cursor ks =
     (let within = filter (\<lambda>(k, _). prefix (so_prefix opts) k \<and> beyond (so_reverse opts) cursor k) ks
      in if so_reverse opts then rev within else within)"

definition scan_less :: "scan_opts \<Rightarrow> bytes \<times> 'v \<Rightarrow> bytes \<times> 'v \<Rightarrow> bool" where
  "scan_less opts x y \<longleftrightarrow> (if so_reverse opts then fst y < fst x else fst x < fst y)"

lemma scan_raw_range:
  "scan_raw (opts\<lparr>so_after := cursor\<rparr>) ks = take (so_limit opts) (scan_range opts cursor ks)"
  by (simp add: scan_raw_def scan_range_def scan_bounds_exact Let_def)

lemma scan_range_mem:
  "x \<in> set (scan_range opts cursor ks) \<longleftrightarrow>
     x \<in> set ks \<and> prefix (so_prefix opts) (fst x) \<and> beyond (so_reverse opts) cursor (fst x)"
  by (auto simp: scan_range_def Let_def)

lemma scan_range_sorted: "ks_ordered ks \<Longrightarrow> sorted_wrt (scan_less opts) (scan_range opts cursor ks)"
  unfolding ks_ordered_def scan_range_def scan_less_def Let_def
  by (cases "so_reverse opts") (simp_all add: sorted_wrt_filter sorted_wrt_rev)

lemma ordered_sort_key:
  assumes "ks_ordered ks"
  shows "sort_key fst (filter P ks) = filter P ks"
proof (rule sort_key_id_if_sorted)
  have "sorted_wrt (\<lambda>x y. fst x < fst y) (filter P ks)"
    using assms by (simp add: ks_ordered_def sorted_wrt_filter)
  then have "sorted_wrt (\<lambda>x y. fst x \<le> fst y) (filter P ks)"
    by (rule sorted_wrt_mono_rel [rotated]) simp
  then show "sorted (map fst (filter P ks))" by (simp add: sorted_map)
qed

lemma buffer_range:
  assumes "ks_ordered ks"
  shows "apply_scan_locally (prefix_iter_raw (so_prefix opts) ks)
      (opts\<lparr>so_after := cursor, so_limit := length (prefix_iter_raw (so_prefix opts) ks)\<rparr>) =
    scan_range opts cursor ks"
proof -
  have "filter (\<lambda>(key, _). prefix (so_prefix opts) key \<and> beyond r cursor key)
      (prefix_iter_raw (so_prefix opts) ks) =
    filter (\<lambda>(key, _). prefix (so_prefix opts) key \<and> beyond r cursor key) ks" for r
    by (simp add: prefix_iter_raw_def) (rule filter_cong, auto)
  moreover have "length (filter Q ks) \<le> length (prefix_iter_raw (so_prefix opts) ks)"
    if "\<And>x. Q x \<Longrightarrow> prefix (so_prefix opts) (fst x)" for Q
    unfolding prefix_iter_raw_def using that by (induction ks) auto
  ultimately show ?thesis
    using ordered_sort_key [OF assms]
    by (simp add: apply_scan_locally_def scan_range_def scan_bounds_exact Let_def split_def)
qed

lemma sorted_filter_after_take:
  assumes sorted: "sorted_wrt R xs" and asym: "\<And>x y. R x y \<Longrightarrow> \<not> R y x" and ne: "take l xs \<noteq> []"
  shows "filter (R (last (take l xs))) xs = drop l xs"
proof -
  have split: "sorted_wrt R (take l xs @ drop l xs)" using sorted by simp
  have bl: "take l xs = butlast (take l xs) @ [last (take l xs)]" using ne by simp
  have "\<not> R (last (take l xs)) x" if "x \<in> set (take l xs)" for x
  proof -
    have "sorted_wrt R (butlast (take l xs) @ [last (take l xs)])"
      using split bl by (metis sorted_wrt_append)
    then have "\<forall>y\<in>set (butlast (take l xs)). R y (last (take l xs))" by (simp add: sorted_wrt_append)
    moreover have "x \<in> set (butlast (take l xs)) \<or> x = last (take l xs)"
      using that bl by (metis UnE empty_iff empty_set set_ConsD set_append)
    ultimately show ?thesis using asym by blast
  qed
  then have "filter (R (last (take l xs))) (take l xs) = []" by (simp add: filter_empty_conv)
  moreover have "filter (R (last (take l xs))) (drop l xs) = drop l xs"
  proof -
    have "\<forall>x\<in>set (take l xs). \<forall>y\<in>set (drop l xs). R x y" using split unfolding sorted_wrt_append by blast
    then show ?thesis using last_in_set [OF ne] by (simp add: filter_id_conv)
  qed
  ultimately show ?thesis by (metis append_Nil append_take_drop_id filter_append)
qed

lemma scan_range_advance:
  assumes "ks_ordered ks" and "take l (scan_range opts cursor ks) \<noteq> []"
  shows "scan_range opts (Some (fst (last (take l (scan_range opts cursor ks))))) ks =
    drop l (scan_range opts cursor ks)"
proof -
  let ?xs = "scan_range opts cursor ks"
  let ?c = "last (take l ?xs)"
  have "?c \<in> set ?xs" using assms(2) by (meson in_set_takeD last_in_set)
  then have c: "beyond (so_reverse opts) cursor (fst ?c)" by (simp add: scan_range_mem)
  have "beyond (so_reverse opts) (Some (fst ?c)) k \<longleftrightarrow>
      beyond (so_reverse opts) cursor k \<and> scan_less opts ?c (k, v)" for k v
    using c by (auto simp: beyond_def scan_less_def split: option.splits dest: less_trans)
  then have "(\<lambda>(k, _). prefix (so_prefix opts) k \<and> beyond (so_reverse opts) (Some (fst ?c)) k) =
      (\<lambda>x. (case x of (k, _) \<Rightarrow> prefix (so_prefix opts) k \<and> beyond (so_reverse opts) cursor k) \<and>
        scan_less opts ?c x)" by (auto simp: fun_eq_iff)
  then have "scan_range opts (Some (fst ?c)) ks = filter (scan_less opts ?c) ?xs"
    by (simp add: scan_range_def Let_def rev_filter filter_filter conj_commute)
  moreover have "filter (scan_less opts ?c) ?xs = drop l ?xs"
    using scan_range_sorted [OF assms(1)] _ assms(2)
    by (rule sorted_filter_after_take) (auto simp: scan_less_def split: if_splits)
  ultimately show ?thesis by simp
qed

definition remaining :: "(bytes, 'v) keyspace \<Rightarrow> 'v scan_pager \<Rightarrow> (bytes \<times> 'v) list" where
  "remaining ks p =
     (if sp_done p then []
      else case sp_buffered p of
        Some b \<Rightarrow> b
      | None \<Rightarrow> scan_range (sp_opts p) (sp_cursor p) ks)"

lemma take_buffered_remaining:
  assumes "sp_buffered p = Some b" and "\<not> sp_done p"
  shows "fst (take_buffered_page p) = take (so_limit (sp_opts p)) b"
    "remaining ks (snd (take_buffered_page p)) = drop (so_limit (sp_opts p)) b"
    "sp_opts (snd (take_buffered_page p)) = sp_opts p"
  using assms by (auto simp: take_buffered_page_def remaining_def Let_def)

lemma next_page_remaining:
  assumes ord: "ks_ordered ks" and lim: "0 < so_limit (sp_opts p)"
  shows "fst (next_page n ks p) = take (so_limit (sp_opts p)) (remaining ks p) \<and>
    remaining ks (snd (next_page n ks p)) = drop (so_limit (sp_opts p)) (remaining ks p) \<and>
    sp_opts (snd (next_page n ks p)) = sp_opts p"
proof -
  let ?l = "so_limit (sp_opts p)"
  consider "sp_done p" | b where "\<not> sp_done p" "sp_buffered p = Some b"
    | "\<not> sp_done p" "sp_buffered p = None" "n" | "\<not> sp_done p" "sp_buffered p = None" "\<not> n" by blast
  then show ?thesis
  proof cases
    case 1
    then show ?thesis by (simp add: next_page_def remaining_def)
  next
    case 2
    then show ?thesis using take_buffered_remaining [OF 2(2,1)]
      by (simp add: next_page_def) (simp add: remaining_def)
  next
    case 3
    let ?xs = "scan_range (sp_opts p) (sp_cursor p) ks"
    have page: "fst (next_page n ks p) = take ?l ?xs"
      using 3 by (simp add: next_page_def Let_def scan_raw_range)
    have rem: "remaining ks p = ?xs" using 3 by (simp add: remaining_def)
    have "remaining ks (snd (next_page n ks p)) = drop ?l ?xs"
    proof (cases "take ?l ?xs = [] \<or> length (take ?l ?xs) < ?l")
      case True
      then have "length ?xs \<le> ?l" using lim by auto
      then show ?thesis using True 3 by (auto simp: next_page_def Let_def scan_raw_range remaining_def)
    next
      case False
      then show ?thesis using 3 scan_range_advance [OF ord, of ?l "sp_opts p" "sp_cursor p"]
        by (simp add: next_page_def Let_def scan_raw_range remaining_def advance_cursor_def)
    qed
    then show ?thesis using page rem 3 by (simp add: next_page_def Let_def)
  next
    case 4
    let ?p = "buffer_remaining_range ks p"
    have b: "sp_buffered ?p = Some (scan_range (sp_opts p) (sp_cursor p) ks)" "\<not> sp_done ?p"
      "sp_opts ?p = sp_opts p"
      using 4 buffer_range [OF ord] by (simp_all add: buffer_remaining_range_def Let_def)
    then show ?thesis using 4 take_buffered_remaining [OF b(1,2)]
      by (simp add: next_page_def) (simp add: remaining_def)
  qed
qed

lemma walk_concat:
  assumes "ks_ordered ks" and "0 < so_limit (sp_opts p)" and "length (remaining ks p) \<le> fuel"
  shows "concat (walk native fuel ks p) = remaining ks p \<and>
    (\<forall>page\<in>set (walk native fuel ks p). page \<noteq> [] \<and> length page \<le> so_limit (sp_opts p))"
  using assms(2,3)
proof (induction fuel arbitrary: p)
  case (Suc fuel)
  obtain page p' where np: "next_page (native fuel) ks p = (page, p')" by fastforce
  note r = next_page_remaining [OF assms(1) Suc.prems(1), of "native fuel", unfolded np fst_conv snd_conv]
  then have r3: "sp_opts p' = sp_opts p" by simp
  show ?case
  proof (cases "page = []")
    case True
    then have "remaining ks p = []" using r Suc.prems(1) by auto
    then show ?thesis using True np by simp
  next
    case False
    then have "length (remaining ks p') \<le> fuel" using r Suc.prems by auto
    then have "concat (walk native fuel ks p') = remaining ks p' \<and>
        (\<forall>page\<in>set (walk native fuel ks p'). page \<noteq> [] \<and> length page \<le> so_limit (sp_opts p'))"
      using Suc.IH [of p'] r3 Suc.prems(1) by simp
    then show ?thesis using False np r unfolding r3 by simp
  qed
qed simp

text \<open>C28: A pager enumerates its range exactly once: whatever mixture of native and buffered pages the
  back end serves, the pages concatenate to the rows with the prefix beyond the start key, in the
  direction of the scan; every page is non-empty and within the limit, and the walk ends after at
  most as many pages as there are rows.\<close>

theorem pager_enumerates_range:
  fixes ks :: "(bytes, 'v) keyspace"
  assumes "ks_ordered ks" and "0 < so_limit opts" and "length ks \<le> fuel"
  shows "concat (walk native fuel ks (pager_new opts)) = scan_range opts (so_after opts) ks \<and>
    (\<forall>page\<in>set (walk native fuel ks (pager_new opts)). page \<noteq> [] \<and> length page \<le> so_limit opts)"
proof -
  have p: "sp_opts (pager_new opts :: 'v scan_pager) = opts"
    "remaining ks (pager_new opts) = scan_range opts (so_after opts) ks"
    using assms(2) by (simp_all add: pager_new_def remaining_def)
  have "length (scan_range opts (so_after opts) ks) \<le> length ks"
    by (simp add: scan_range_def Let_def)
  then show ?thesis using walk_concat [OF assms(1), of "pager_new opts" fuel native] assms p by simp
qed

definition example_rows :: "(bytes, nat) keyspace" where
  "example_rows = [([1], 0), ([1, 255], 1), ([1, 255, 0], 2), ([1, 255, 7], 3), ([2], 4)]"

theorem pager_enumerates_range_witness:
  "concat (walk (\<lambda>i. i = 4) 5 example_rows (pager_new (newest_first [1, 255] 2))) =
     scan_range (newest_first [1, 255] 2) None example_rows \<and>
   scan_range (newest_first [1, 255] 2) None example_rows =
     [([1, 255, 7], 3), ([1, 255, 0], 2), ([1, 255], 1)]"
proof -
  have "ks_ordered example_rows" by code_simp
  moreover have "0 < so_limit (newest_first [1, 255] 2)" by code_simp
  moreover have "length example_rows \<le> 5" by code_simp
  moreover have "so_after (newest_first [1, 255] 2) = None" by code_simp
  moreover have "scan_range (newest_first [1, 255] 2) None example_rows =
     [([1, 255, 7], 3), ([1, 255, 0], 2), ([1, 255], 1)]" by code_simp
  ultimately show ?thesis using pager_enumerates_range by metis
qed

end
