(* ===== verification/Counter.thy ===== *)
theory Counter
  imports Kv_Store
begin

unbundle bit_operations_syntax

text \<open>
  The store counters of \<open>vti-common/src/store/counter.rs\<close>, from which key-derivation indices are
  allocated.  A counter is four little-endian bytes under a key.  Every operation holds the
  process-wide counter lock from its read to its write, so each is one atomic step on the keyspace.
  The addition is Rust's \<open>+\<close> on \<open>u32\<close>, which wraps in a release build.
\<close>

section \<open>Operations\<close>

definition to_le_bytes :: "u32 \<Rightarrow> bytes" where
  "to_le_bytes w = [ucast w, ucast (drop_bit 8 w), ucast (drop_bit 16 w), ucast (drop_bit 24 w)]"

fun from_le_bytes :: "bytes \<Rightarrow> u32 option" where
  "from_le_bytes [a, b, c, d] =
     Some (ucast a OR push_bit 8 (ucast b) OR push_bit 16 (ucast c) OR push_bit 24 (ucast d))"
| "from_le_bytes _ = None"

definition read_u32 :: "(string, bytes) keyspace \<Rightarrow> string \<Rightarrow> (app_error, u32) result" where
  "read_u32 ks counter_key =
     (case get_raw ks counter_key of
        Some b \<Rightarrow> (case from_le_bytes b of Some n \<Rightarrow> Ok n | None \<Rightarrow> Err Internal)
      | None \<Rightarrow> Ok 0)"

definition allocate_u32_block ::
    "string \<Rightarrow> u32 \<Rightarrow> u32 option \<Rightarrow> (string, bytes) keyspace \<Rightarrow>
     (app_error, u32) result \<times> (string, bytes) keyspace" where
  "allocate_u32_block counter_key count expected ks =
     (case read_u32 ks counter_key of
        Err e \<Rightarrow> (Err e, ks)
      | Ok current \<Rightarrow>
          if (case expected of Some x \<Rightarrow> current \<noteq> x | None \<Rightarrow> False) then (Err Conflict, ks)
          else if count = 0 then (Ok current, ks)
          else (Ok current, insert_raw counter_key (to_le_bytes (current + count)) ks))"

definition allocate_u32 ::
    "string \<Rightarrow> (string, bytes) keyspace \<Rightarrow> (app_error, u32) result \<times> (string, bytes) keyspace" where
  "allocate_u32 counter_key ks = allocate_u32_block counter_key 1 None ks"

definition peek_u32 :: "string \<Rightarrow> (string, bytes) keyspace \<Rightarrow> (app_error, u32) result" where
  "peek_u32 counter_key ks = read_u32 ks counter_key"

text \<open>A history of allocations from one counter: the first value of each block.\<close>

fun allocate_all ::
    "string \<Rightarrow> u32 list \<Rightarrow> (string, bytes) keyspace \<Rightarrow> (app_error, u32 list) result" where
  "allocate_all key [] ks = Ok []"
| "allocate_all key (count # counts) ks =
     (case allocate_u32_block key count None ks of
        (Err e, _) \<Rightarrow> Err e
      | (Ok first, ks') \<Rightarrow> res_bind (allocate_all key counts ks') (\<lambda>rest. Ok (first # rest)))"

definition block :: "u32 \<Rightarrow> u32 \<Rightarrow> nat list" where
  "block first count = [unat first ..< unat first + unat count]"

section \<open>Lemmas\<close>

lemma le_bytes_roundtrip [simp]: "from_le_bytes (to_le_bytes w) = Some w"
proof -
  have "ucast (ucast w :: u8) OR push_bit 8 (ucast (ucast (drop_bit 8 w) :: u8)) OR
      push_bit 16 (ucast (ucast (drop_bit 16 w) :: u8)) OR push_bit 24 (ucast (ucast (drop_bit 24 w) :: u8)) = w"
    (is "?l = w")
  proof (rule bit_word_eqI)
    fix n
    assume "n < LENGTH(32)"
    then consider "n < 8" | "8 \<le> n" "n < 16" | "16 \<le> n" "n < 24" | "24 \<le> n" "n < 32"
      by fastforce
    then show "bit ?l n \<longleftrightarrow> bit w n"
      by cases (auto simp: bit_simps)
  qed
  then show ?thesis by (simp add: to_le_bytes_def)
qed

lemma read_after_allocate:
  assumes "allocate_u32_block key count expected ks = (Ok first, ks')"
  shows "read_u32 ks key = Ok first \<and> read_u32 ks' key = Ok (first + count)"
  using assms
  by (auto simp: allocate_u32_block_def read_u32_def split: option.splits if_splits)

lemma allocate_other_counter:
  "k' \<noteq> key \<Longrightarrow> read_u32 (snd (allocate_u32_block key count expected ks)) k' = read_u32 ks k'"
  by (auto simp: allocate_u32_block_def read_u32_def split: sum.splits option.splits)

lemma allocate_all_blocks:
  assumes "read_u32 ks key = Ok start" and "unat start + sum_list (map unat counts) < 2 ^ 32"
  shows "\<exists>firsts. allocate_all key counts ks = Ok firsts \<and> length firsts = length counts \<and>
    concat (map2 block firsts counts) = [unat start ..< unat start + sum_list (map unat counts)]"
  using assms
proof (induction counts arbitrary: ks start)
  case (Cons c counts)
  obtain ks' where al: "allocate_u32_block key c None ks = (Ok start, ks')"
    using Cons.prems(1) by (cases "c = 0") (simp_all add: allocate_u32_block_def)
  have rd: "read_u32 ks' key = Ok (start + c)" using read_after_allocate [OF al] by simp
  have un: "unat (start + c) = unat start + unat c"
    using Cons.prems(2) unat_add_lem [of start c] by simp
  from Cons.IH [OF rd] Cons.prems(2) un obtain firsts where
    f: "allocate_all key counts ks' = Ok firsts" "length firsts = length counts"
       "concat (map2 block firsts counts) =
          [unat start + unat c ..< unat start + unat c + sum_list (map unat counts)]"
    by (auto simp: add.assoc)
  moreover have "[unat start ..< unat start + unat c + sum_list (map unat counts)] =
      block start c @ [unat start + unat c ..< unat start + unat c + sum_list (map unat counts)]"
    unfolding block_def by (rule upt_add_eq_append) simp
  ultimately show ?case using al
    by (intro exI [of _ "start # firsts"]) (simp add: add.assoc)
qed simp

text \<open>Block allocation hands out every index once: as long as the counter does not reach the end
  of its range, consecutive allocations return contiguous, pairwise disjoint blocks, in order and
  without gaps; a pinned allocation that finds the counter moved is refused without consuming
  anything.\<close>

theorem counter_blocks_disjoint:
  assumes "peek_u32 key ks = Ok start" and "unat start + sum_list (map unat counts) < 2 ^ 32"
  shows "(\<exists>firsts. allocate_all key counts ks = Ok firsts \<and>
      distinct (concat (map2 block firsts counts)) \<and>
      concat (map2 block firsts counts) = [unat start ..< unat start + sum_list (map unat counts)]) \<and>
    (x \<noteq> start \<longrightarrow> allocate_u32_block key count (Some x) ks = (Err Conflict, ks))"
proof -
  obtain firsts where "allocate_all key counts ks = Ok firsts"
    "concat (map2 block firsts counts) = [unat start ..< unat start + sum_list (map unat counts)]"
    using allocate_all_blocks [of ks key start counts] assms by (auto simp: peek_u32_def)
  moreover from this have "distinct (concat (map2 block firsts counts))" by (metis distinct_upt)
  moreover have "x \<noteq> start \<longrightarrow> allocate_u32_block key count (Some x) ks = (Err Conflict, ks)"
    using assms(1) by (simp add: allocate_u32_block_def peek_u32_def)
  ultimately show ?thesis by blast
qed

theorem counter_blocks_disjoint_witness:
  "(\<exists>firsts. allocate_all ''path_counter'' [2, 0, 3] [] = Ok firsts \<and>
     distinct (concat (map2 block firsts [2, 0, 3]))) \<and>
   allocate_u32_block ''path_counter'' 1 (Some 7) [] = (Err Conflict, [])"
proof -
  have "peek_u32 ''path_counter'' [] = Ok 0" by code_simp
  moreover have "unat (0 :: u32) + sum_list (map unat [2, 0, 3 :: u32]) < 2 ^ 32" by simp
  moreover have "(7 :: u32) \<noteq> 0" by simp
  ultimately show ?thesis using counter_blocks_disjoint by blast
qed

lemma allocate_block: "read_u32 ks key = Ok n \<Longrightarrow> \<exists>ks'. allocate_u32_block key count None ks = (Ok n, ks') \<and> read_u32 ks' key = Ok (n + count)"
proof -
  assume "read_u32 ks key = Ok n"
  then obtain ks' where "allocate_u32_block key count None ks = (Ok n, ks')"
    by (cases "count = 0") (simp_all add: allocate_u32_block_def)
  then show ?thesis using read_after_allocate by blast
qed

text \<open>Where a block starts, whatever was allocated before it: the counter counts modulo the width.\<close>

lemma allocate_all_last:
  assumes "read_u32 ks key = Ok n"
  shows "\<exists>firsts. allocate_all key (counts @ [d]) ks = Ok firsts \<and> firsts ! 0 = n \<and>
    firsts ! length counts = n + word_of_nat (sum_list (map unat counts))"
  using assms
proof (induction counts arbitrary: ks n)
  case Nil
  then obtain ks' where "allocate_u32_block key d None ks = (Ok n, ks')" using allocate_block by blast
  then show ?case by simp
next
  case (Cons c counts)
  obtain ks' where al: "allocate_u32_block key c None ks = (Ok n, ks')" "read_u32 ks' key = Ok (n + c)"
    using allocate_block [OF Cons.prems] by blast
  from Cons.IH [OF al(2)] obtain firsts where "allocate_all key (counts @ [d]) ks' = Ok firsts"
    "firsts ! length counts = n + c + word_of_nat (sum_list (map unat counts))" by blast
  then show ?case using al(1) by (intro exI [of _ "n # firsts"]) (simp add: add.assoc)
qed

lemma full_circle: "n + word_of_nat (2 ^ 32) = (n :: u32)"
proof -
  have "(word_of_nat (2 ^ 32) :: u32) = 0" by (simp add: word_of_nat_eq_0_iff)
  then show ?thesis by simp
qed

text \<open>C39: the counter starts again at the end of its range. Whatever the store holds, the allocation of the last
  index leaves a counter of zero, and the next allocation answers index zero. And from any value of the counter, any
  sequence of allocations that hands out as many indices as there are is followed by one that starts at the index the
  first of them started at: that index is handed out a second time.\<close>

theorem counter_wraps_at_end:
  assumes "peek_u32 key ks = Ok start"
  shows "(start = - 1 \<longrightarrow> (\<exists>ks'. allocate_u32 key ks = (Ok (- 1), ks') \<and> peek_u32 key ks' = Ok 0 \<and>
      fst (allocate_u32 key ks') = Ok 0)) \<and>
    (\<forall>counts d. sum_list (map unat counts) = 2 ^ 32 \<longrightarrow>
      (\<exists>firsts. allocate_all key (counts @ [d]) ks = Ok firsts \<and> firsts ! 0 = start \<and> firsts ! length counts = start))"
proof (intro conjI allI impI)
  assume "start = - 1"
  then obtain ks' where ks': "allocate_u32_block key 1 None ks = (Ok (- 1), ks')" "read_u32 ks' key = Ok 0"
    using allocate_block [of ks key "- 1" 1] assms by (auto simp: peek_u32_def)
  then show "\<exists>ks'. allocate_u32 key ks = (Ok (- 1), ks') \<and> peek_u32 key ks' = Ok 0 \<and> fst (allocate_u32 key ks') = Ok 0"
    using allocate_block [OF ks'(2), of 1] by (auto simp: allocate_u32_def peek_u32_def)
next
  fix counts :: "u32 list" and d
  assume "sum_list (map unat counts) = 2 ^ 32"
  then have "start + word_of_nat (sum_list (map unat counts)) = start" by (simp only: full_circle)
  then show "\<exists>firsts. allocate_all key (counts @ [d]) ks = Ok firsts \<and> firsts ! 0 = start \<and> firsts ! length counts = start"
    using allocate_all_last [of ks key start counts d] assms by (simp only: peek_u32_def)
qed

theorem counter_wraps_at_end_witness:
  "(\<exists>ks'. allocate_u32 ''path_counter'' [(''path_counter'', to_le_bytes (- 1))] = (Ok (- 1), ks') \<and>
     fst (allocate_u32 ''path_counter'' ks') = Ok 0) \<and>
   (\<exists>firsts. allocate_all ''path_counter'' [0x80000000, 0x80000000, 1] [] = Ok firsts \<and> firsts ! 0 = 0 \<and> firsts ! 2 = 0)"
proof
  have "peek_u32 ''path_counter'' [(''path_counter'', to_le_bytes (- 1))] = Ok (- 1)"
    by (simp add: peek_u32_def read_u32_def get_raw_def)
  from counter_wraps_at_end [OF this]
  show "\<exists>ks'. allocate_u32 ''path_counter'' [(''path_counter'', to_le_bytes (- 1))] = (Ok (- 1), ks') \<and>
     fst (allocate_u32 ''path_counter'' ks') = Ok 0" by blast
  have "peek_u32 ''path_counter'' [] = Ok 0" by (simp add: peek_u32_def read_u32_def get_raw_def)
  from counter_wraps_at_end [OF this, THEN conjunct2, THEN spec [of _ "[0x80000000, 0x80000000]"], THEN spec [of _ 1]]
  have "\<exists>firsts. allocate_all ''path_counter'' ([0x80000000, 0x80000000] @ [1]) [] = Ok firsts \<and> firsts ! 0 = 0 \<and>
    firsts ! length [0x80000000 :: u32, 0x80000000] = 0" by simp
  then show "\<exists>firsts. allocate_all ''path_counter'' [0x80000000, 0x80000000, 1] [] = Ok firsts \<and> firsts ! 0 = 0 \<and> firsts ! 2 = 0"
    by (simp only: append.simps list.size numeral_2_eq_2 add_0 add_Suc_right add_0_right One_nat_def)
qed

end
