(* ===== verification/Store_Logic.thy ===== *)
theory Store_Logic
  imports Store_Prog
begin

text \<open>
  Rules for programs over a keyspace, proved once for all of them: what a program run alone leaves
  unchanged, and what any interleaving of several programs can and cannot do to a key.  Each rule
  rests on a predicate defined by recursion over the program, so a component only has to check its
  own operations one by one.
\<close>

section \<open>Programs that leave a key alone\<close>

definition preserves :: "string \<Rightarrow> ('v, 'e, 'r) prog \<Rightarrow> bool" where
  "preserves k p \<longleftrightarrow> (\<forall>w. get_raw (w_ks (snd (run p w))) k = get_raw (w_ks w) k)"

lemma preservesD: "preserves k p \<Longrightarrow> get_raw (w_ks (snd (run p w))) k = get_raw (w_ks w) k"
  by (simp add: preserves_def)

lemma preserves_Ret [simp]: "preserves k (Ret r)"
  by (simp add: preserves_def)

lemma preserves_Remove: "k' \<noteq> k \<Longrightarrow> preserves k p \<Longrightarrow> preserves k (Remove k' p)"
  by (simp add: preserves_def)

lemma preserves_Get: "(\<And>x. preserves k (c x)) \<Longrightarrow> preserves k (Get k' c)"
  by (simp add: preserves_def)

lemma preserves_PrefixIter:
  "(\<And>es. \<forall>e \<in> set es. prefix p (fst e) \<Longrightarrow> preserves k (c es)) \<Longrightarrow> preserves k (PrefixIter p c)"
  by (auto simp: preserves_def prefix_iter_raw_def)

lemma preserves_bndE: "preserves k p \<Longrightarrow> (\<And>r. preserves k (f r)) \<Longrightarrow> preserves k (bndE p f)"
  by (auto simp: preserves_def run_simps split: prod.splits sum.splits) (metis snd_conv)+

lemma preserves_forE: "(\<And>x. x \<in> set xs \<Longrightarrow> preserves k (f x)) \<Longrightarrow> preserves k (forE f xs)"
  by (induction xs) (auto intro: preserves_bndE)

text \<open>More generally, a predicate of the world that a program establishes again when it ends.\<close>

definition stable :: "(('v, 'e) world \<Rightarrow> bool) \<Rightarrow> ('v, 'e, 'r) prog \<Rightarrow> bool" where
  "stable I p \<longleftrightarrow> (\<forall>w. I w \<longrightarrow> I (snd (run p w)))"

lemma stableD: "stable I p \<Longrightarrow> I w \<Longrightarrow> I (snd (run p w))"
  by (simp add: stable_def)

lemma stable_Ret [simp]: "stable I (Ret r)"
  by (simp add: stable_def)

lemma stable_bndE: "stable I p \<Longrightarrow> (\<And>r. stable I (f r)) \<Longrightarrow> stable I (bndE p f)"
  by (auto simp: stable_def run_simps split: prod.splits sum.splits)

lemma stable_forE: "(\<And>x. x \<in> set xs \<Longrightarrow> stable I (f x)) \<Longrightarrow> stable I (forE f xs)"
  by (induction xs) (auto intro: stable_bndE)

lemma stable_Get: "(\<And>x. stable I (c x)) \<Longrightarrow> stable I (Get k c)"
  by (simp add: stable_def)

lemma stable_PrefixIter:
  "(\<And>w. I w \<Longrightarrow> stable I (c (prefix_iter_raw p (w_ks w)))) \<Longrightarrow> stable I (PrefixIter p c)"
  by (simp add: stable_def)

section \<open>Keys that stay absent\<close>

text \<open>Whether a batch may bring an absent key into existence: it writes the key and no check of it
  requires the key to be present.\<close>

definition batch_may_create :: "string \<Rightarrow> (string, 'v) batch \<Rightarrow> bool" where
  "batch_may_create k b \<longleftrightarrow>
     (\<exists>v. Put k v \<in> set (writes b)) \<and>
     \<not> (\<exists>c \<in> set (checks b). c = Present k \<or> (\<exists>v. c = Unchanged k v))"

text \<open>A program that never brings the key \<open>k\<close> into existence, whatever it reads.  The random values
  it draws are taken from \<open>A\<close>.\<close>

primrec keeps_absent :: "string set \<Rightarrow> string \<Rightarrow> ('v, 'e, 'r) prog \<Rightarrow> bool" where
  "keeps_absent A k (Ret r) = True"
| "keeps_absent A k (Get k' c) = (\<forall>x. keeps_absent A k (c x))"
| "keeps_absent A k (Insert k' v c) = (k' \<noteq> k \<and> keeps_absent A k c)"
| "keeps_absent A k (Remove k' c) = keeps_absent A k c"
| "keeps_absent A k (Take k' c) = (\<forall>x. keeps_absent A k (c x))"
| "keeps_absent A k (InsertIfAbsent k' v c) = (k' \<noteq> k \<and> (\<forall>x. keeps_absent A k (c x)))"
| "keeps_absent A k (MoveIfUnchanged k1 v k2 v' c) = (k2 \<noteq> k \<and> (\<forall>x. keeps_absent A k (c x)))"
| "keeps_absent A k (ApplyBatch b c) = (\<not> batch_may_create k b \<and> (\<forall>x. keeps_absent A k (c x)))"
| "keeps_absent A k (PrefixIter p c) = (\<forall>x. keeps_absent A k (c x))"
| "keeps_absent A k (Now c) = (\<forall>x. keeps_absent A k (c x))"
| "keeps_absent A k (Fresh c) = (\<forall>x \<in> A. keeps_absent A k (c x))"
| "keeps_absent A k (NextSeq c) = (\<forall>x. keeps_absent A k (c x))"
| "keeps_absent A k (Emit e c) = keeps_absent A k c"

lemma keeps_absent_bnd:
  "keeps_absent A k p \<Longrightarrow> (\<And>r. keeps_absent A k (f r)) \<Longrightarrow> keeps_absent A k (bnd p f)"
  by (induction p) auto

lemma keeps_absent_bndE:
  "keeps_absent A k p \<Longrightarrow> (\<And>r. keeps_absent A k (f r)) \<Longrightarrow> keeps_absent A k (bndE p f)"
  unfolding bndE_def by (rule keeps_absent_bnd) (auto split: sum.splits)

lemma keeps_absent_forE:
  "(\<And>x. x \<in> set xs \<Longrightarrow> keeps_absent A k (f x)) \<Longrightarrow> keeps_absent A k (forE f xs)"
  by (induction xs) (auto intro: keeps_absent_bndE)

lemma keeps_absent_map_errP: "keeps_absent A k p \<Longrightarrow> keeps_absent A k (map_errP f p)"
  unfolding map_errP_def by (rule keeps_absent_bnd) auto

lemma fold_writes_absent:
  fixes ks :: "(string, 'v) keyspace"
  shows "get_raw ks k = None \<Longrightarrow> \<nexists>v. Put k v \<in> set ws \<Longrightarrow> get_raw (fold apply_write ws ks) k = None"
proof (induction ws arbitrary: ks)
  case (Cons w ws)
  have "get_raw (apply_write w ks) k = None"
    using Cons.prems by (cases w) (auto simp: local_store.get_put local_store.get_del)
  then show ?case using Cons by simp
qed simp

lemma apply_batch_absent:
  fixes ks :: "(string, 'v) keyspace"
  assumes "get_raw ks k = None" and "\<not> batch_may_create k b"
  shows "get_raw (snd (apply_batch b ks)) k = None"
proof (cases "\<exists>v. Put k v \<in> set (writes b)")
  case True
  then obtain c where c: "c \<in> set (checks b)" "c = Present k \<or> (\<exists>v. c = Unchanged k v)"
    using assms(2) by (auto simp: batch_may_create_def)
  then have "\<not> check_holds ks c" using assms(1) by auto
  then have "first_refused ks 0 (checks b) \<noteq> None"
    using c(1) by (auto simp: first_refused_None_iff list_all_iff)
  then show ?thesis using assms(1)
    by (auto simp: apply_batch_def split: sum.splits option.splits)
next
  case False
  then show ?thesis using assms(1) fold_writes_absent [of ks k "writes b"]
    by (auto simp: apply_batch_def split: sum.splits option.splits)
qed

lemma step1_supply [simp]: "w_supply (snd (step1 p w)) = w_supply w"
  by (cases p) simp_all

lemma keeps_absent_step:
  assumes "keeps_absent A k p" and "range (w_supply w) \<subseteq> A"
  shows "keeps_absent A k (fst (step1 p w))"
  using assms by (cases p) auto

lemma absent_step:
  assumes "keeps_absent A k p" and "get_raw (w_ks w) k = None"
  shows "get_raw (w_ks (snd (step1 p w))) k = None"
  using assms
  by (cases p)
    (auto simp: local_store.get_put local_store.get_del apply_batch_absent take_raw_def
      insert_if_absent_def move_if_unchanged_def get_raw_commit_move split: option.splits)

text \<open>In a pool of such programs an absent key stays absent.\<close>

definition pool_keeps_absent ::
    "string set \<Rightarrow> string \<Rightarrow> ('v, 'e, 'r) prog list \<times> ('v, 'e) world \<Rightarrow> bool" where
  "pool_keeps_absent A k c \<longleftrightarrow>
     range (w_supply (snd c)) \<subseteq> A \<and> (\<forall>p \<in> set (fst c). keeps_absent A k p)"

lemma pool_keeps_absent_step:
  assumes "pool_keeps_absent A k c" and "pstep c d"
  shows "pool_keeps_absent A k d \<and>
    (get_raw (w_ks (snd c)) k = None \<longrightarrow> get_raw (w_ks (snd d)) k = None)"
  using assms(2)
proof (cases rule: pstep.cases)
  case (pstep_thread i ps w p' w')
  have i: "keeps_absent A k (ps ! i)" and sup: "range (w_supply w) \<subseteq> A"
    and all: "\<forall>p \<in> set ps. keeps_absent A k p"
    using assms(1) pstep_thread by (auto simp: pool_keeps_absent_def)
  have p': "p' = fst (step1 (ps ! i) w)" "w' = snd (step1 (ps ! i) w)"
    using pstep_thread by simp_all
  have "keeps_absent A k p'" unfolding p' by (rule keeps_absent_step [OF i sup])
  then have "\<forall>p \<in> set (ps[i := p']). keeps_absent A k p"
    using all set_update_subset_insert [of ps i p'] by blast
  moreover have "get_raw (w_ks w) k = None \<longrightarrow> get_raw (w_ks w') k = None"
    unfolding p' using absent_step [OF i] by blast
  moreover have "w_supply w' = w_supply w" unfolding p' by simp
  ultimately show ?thesis using sup pstep_thread(1,2) by (simp add: pool_keeps_absent_def)
next
  case (pstep_tick w t ps)
  then show ?thesis using assms(1) by (simp add: pool_keeps_absent_def)
qed

lemma pool_absent_forever:
  assumes "reach c d" and "pool_keeps_absent A k c" and "get_raw (w_ks (snd c)) k = None"
  shows "get_raw (w_ks (snd d)) k = None"
  using reach_invariant [OF assms(1), of "\<lambda>c. pool_keeps_absent A k c \<and> get_raw (w_ks (snd c)) k = None"]
    pool_keeps_absent_step assms(2,3) by blast

lemma pool_keeps_absent_reach:
  assumes "reach c d" and "pool_keeps_absent A k c"
  shows "pool_keeps_absent A k d"
  using reach_invariant [OF assms(1), of "pool_keeps_absent A k"] pool_keeps_absent_step assms(2)
  by blast

section \<open>Claims by taking a key\<close>

text \<open>A program that returns a result satisfying \<open>ok\<close> only on a path on which it took the key \<open>k\<close>
  itself, and never brings \<open>k\<close> into existence.\<close>

primrec claims_by :: "string set \<Rightarrow> string \<Rightarrow> ('r \<Rightarrow> bool) \<Rightarrow> ('v, 'e, 'r) prog \<Rightarrow> bool" where
  "claims_by A k ok (Ret r) = (\<not> ok r)"
| "claims_by A k ok (Get k' c) = (\<forall>x. claims_by A k ok (c x))"
| "claims_by A k ok (Insert k' v c) = (k' \<noteq> k \<and> claims_by A k ok c)"
| "claims_by A k ok (Remove k' c) = claims_by A k ok c"
| "claims_by A k ok (Take k' c) =
     (if k' = k then claims_by A k ok (c None) \<and> (\<forall>x. keeps_absent A k (c x))
      else (\<forall>x. claims_by A k ok (c x)))"
| "claims_by A k ok (InsertIfAbsent k' v c) = (k' \<noteq> k \<and> (\<forall>x. claims_by A k ok (c x)))"
| "claims_by A k ok (MoveIfUnchanged k1 v k2 v' c) = (k2 \<noteq> k \<and> (\<forall>x. claims_by A k ok (c x)))"
| "claims_by A k ok (ApplyBatch b c) = (\<not> batch_may_create k b \<and> (\<forall>x. claims_by A k ok (c x)))"
| "claims_by A k ok (PrefixIter p c) = (\<forall>x. claims_by A k ok (c x))"
| "claims_by A k ok (Now c) = (\<forall>x. claims_by A k ok (c x))"
| "claims_by A k ok (Fresh c) = (\<forall>x \<in> A. claims_by A k ok (c x))"
| "claims_by A k ok (NextSeq c) = (\<forall>x. claims_by A k ok (c x))"
| "claims_by A k ok (Emit e c) = claims_by A k ok c"

lemma claims_by_keeps_absent: "claims_by A k ok p \<Longrightarrow> keeps_absent A k p"
  by (induction p) (auto split: if_splits)

lemma claims_by_step:
  assumes "claims_by A k ok p" and "range (w_supply w) \<subseteq> A"
  shows "claims_by A k ok (fst (step1 p w)) \<or>
    get_raw (w_ks w) k \<noteq> None \<and> get_raw (w_ks (snd (step1 p w))) k = None"
proof -
  have "w_supply w n \<in> A" for n using assms(2) by blast
  then show ?thesis using assms(1)
    by (cases p) (auto simp: take_raw_def local_store.get_del split: option.splits if_splits)
qed

text \<open>The pool invariant: at most one program has left the claiming states, and if one has, the key
  is gone.\<close>

definition claimed_once ::
    "string set \<Rightarrow> string \<Rightarrow> ('r \<Rightarrow> bool) \<Rightarrow> ('v, 'e, 'r) prog list \<times> ('v, 'e) world \<Rightarrow> bool" where
  "claimed_once A k ok c \<longleftrightarrow>
     pool_keeps_absent A k c \<and>
     ((\<forall>i < length (fst c). claims_by A k ok (fst c ! i)) \<or>
      get_raw (w_ks (snd c)) k = None \<and>
      (\<exists>j < length (fst c). \<forall>i < length (fst c). i \<noteq> j \<longrightarrow> claims_by A k ok (fst c ! i)))"

lemma claimed_once_step:
  assumes "claimed_once A k ok c" and "pstep c d"
  shows "claimed_once A k ok d"
  using assms(2)
proof (cases rule: pstep.cases)
  case (pstep_thread i ps w p' w')
  have keep: "pool_keeps_absent A k d"
    and absent: "get_raw (w_ks w) k = None \<longrightarrow> get_raw (w_ks w') k = None"
    using pool_keeps_absent_step [OF _ assms(2)] assms(1) pstep_thread by (auto simp: claimed_once_def)
  have p': "p' = fst (step1 (ps ! i) w)" "w' = snd (step1 (ps ! i) w)" using pstep_thread by simp_all
  have sup: "range (w_supply w) \<subseteq> A"
    using assms(1) pstep_thread by (simp add: claimed_once_def pool_keeps_absent_def)
  have step: "claims_by A k ok (ps ! i) \<Longrightarrow>
    claims_by A k ok p' \<or> get_raw (w_ks w) k \<noteq> None \<and> get_raw (w_ks w') k = None"
    unfolding p' by (rule claims_by_step [OF _ sup])
  show ?thesis
  proof (cases "\<forall>j < length ps. claims_by A k ok (ps ! j)")
    case True
    then show ?thesis using step keep pstep_thread
      by (auto simp: claimed_once_def nth_list_update intro!: exI [of _ i])
  next
    case False
    then obtain j where j: "j < length ps" "get_raw (w_ks w) k = None"
      "\<forall>i < length ps. i \<noteq> j \<longrightarrow> claims_by A k ok (ps ! i)"
      using assms(1) pstep_thread by (auto simp: claimed_once_def)
    have "i \<noteq> j \<longrightarrow> claims_by A k ok p'" using step j pstep_thread by auto
    then have "\<forall>m < length ps. m \<noteq> j \<longrightarrow> claims_by A k ok (ps[i := p'] ! m)"
      using j pstep_thread(3) by (auto simp: nth_list_update)
    then show ?thesis using keep absent j pstep_thread by (auto simp: claimed_once_def)
  qed
qed (use assms(1) in \<open>auto simp: claimed_once_def pool_keeps_absent_def\<close>)

text \<open>In every reachable state at most one program of the pool has returned an accepted result.\<close>

lemma claimed_at_most_once:
  assumes "reach (ps, w) (qs, w')" and "range (w_supply w) \<subseteq> A"
    and "\<forall>p \<in> set ps. claims_by A k ok p"
    and "i < length qs" and "j < length qs"
    and "qs ! i = Ret r" and "ok r" and "qs ! j = Ret r'" and "ok r'"
  shows "i = j"
proof -
  have "claimed_once A k ok (ps, w)"
    using assms(2,3) by (auto simp: claimed_once_def pool_keeps_absent_def claims_by_keeps_absent)
  then have "claimed_once A k ok (qs, w')"
    using reach_invariant [OF assms(1), of "claimed_once A k ok"] claimed_once_step by blast
  then show ?thesis using assms(4-9)
    by (auto simp: claimed_once_def) (metis claims_by.simps(1))+
qed

text \<open>The contract of a single-use claim: the claim returns a value only if it took its key, and it
  never brings the key back.  What follows a claim inherits the guarantee.\<close>

lemma claims_by_bndE:
  assumes "claims_by A k (\<lambda>r. \<exists>a. r = Ok (Some a)) p"
    and "\<And>a. keeps_absent A k (f (Some a))" and "claims_by A k ok (f None)" and "\<And>e. \<not> ok (Err e)"
  shows "claims_by A k ok (bndE p f)"
proof -
  have "keeps_absent A k (bndE q f)" if "keeps_absent A k q" for q
    using that assms(2) claims_by_keeps_absent [OF assms(3)]
    by (intro keeps_absent_bndE) (metis not_None_eq)+
  then show ?thesis using assms(1)
  proof (induction p)
    case (Ret r)
    then show ?case using assms(3,4) by (cases r) auto
  qed (auto simp: assms(4) split: if_splits intro: claims_by_keeps_absent)
qed

lemma claims_by_map_errP:
  "claims_by A k (\<lambda>r. \<exists>a. r = Ok (Some a)) p \<Longrightarrow> claims_by A k (\<lambda>r. \<exists>a. r = Ok (Some a)) (map_errP g p)"
proof (induction p)
  case (Ret r)
  then show ?case by (cases r) (auto simp: map_errP_def)
qed (auto simp: map_errP_def keeps_absent_bnd split: if_splits)

locale single_use_claim =
  fixes claim :: "'k \<Rightarrow> ('v, 'e, (app_error, 'a option) result) prog"
    and claim_key :: "'k \<Rightarrow> string"
  assumes claims: "\<And>A k. claims_by A (claim_key k) (\<lambda>r. \<exists>a. r = Ok (Some a)) (claim k)"
begin

lemma claim_then:
  assumes "\<And>a. keeps_absent A (claim_key k) (f (Some a))"
    and "claims_by A (claim_key k) ok (f None)" and "\<And>e. \<not> ok (Err e)"
  shows "claims_by A (claim_key k) ok (bndE (map_errP g (claim k)) f)"
  by (rule claims_by_bndE [OF claims_by_map_errP [OF claims] assms])

lemma claimed_once:
  assumes "reach (replicate n (claim k), w) (ps, w')"
    and "i < length ps" and "j < length ps" and "ps ! i = Ret (Ok (Some a))" and "ps ! j = Ret (Ok (Some b))"
  shows "i = j"
  using claimed_at_most_once [OF assms(1), of UNIV "claim_key k" "\<lambda>r. \<exists>a. r = Ok (Some a)" i j] claims assms(2-5)
  by auto

end

section \<open>A key whose content the programs vouch for\<close>

text \<open>A program that, if reads of the key \<open>T\<close> return values satisfying \<open>Q\<close>, writes only such values
  there and returns only results satisfying \<open>good\<close>.\<close>

primrec obeys ::
    "string set \<Rightarrow> string \<Rightarrow> ('v option \<Rightarrow> bool) \<Rightarrow> ('r \<Rightarrow> bool) \<Rightarrow> ('v, 'e, 'r) prog \<Rightarrow> bool" where
  "obeys A T Q good (Ret r) = good r"
| "obeys A T Q good (Get k c) = (\<forall>x. (k = T \<longrightarrow> Q x) \<longrightarrow> obeys A T Q good (c x))"
| "obeys A T Q good (Insert k v c) = ((k = T \<longrightarrow> Q (Some v)) \<and> obeys A T Q good c)"
| "obeys A T Q good (Remove k c) = (k \<noteq> T \<and> obeys A T Q good c)"
| "obeys A T Q good (Take k c) = (k \<noteq> T \<and> (\<forall>x. obeys A T Q good (c x)))"
| "obeys A T Q good (InsertIfAbsent k v c) = (k \<noteq> T \<and> (\<forall>x. obeys A T Q good (c x)))"
| "obeys A T Q good (MoveIfUnchanged k v k' v' c) =
     (k \<noteq> T \<and> k' \<noteq> T \<and> (\<forall>x. obeys A T Q good (c x)))"
| "obeys A T Q good (ApplyBatch b c) =
     (T \<notin> write_key ` set (writes b) \<and> (\<forall>x. obeys A T Q good (c x)))"
| "obeys A T Q good (PrefixIter p c) = (\<forall>x. obeys A T Q good (c x))"
| "obeys A T Q good (Now c) = (\<forall>x. obeys A T Q good (c x))"
| "obeys A T Q good (Fresh c) = (\<forall>x \<in> A. obeys A T Q good (c x))"
| "obeys A T Q good (NextSeq c) = (\<forall>x. obeys A T Q good (c x))"
| "obeys A T Q good (Emit e c) = obeys A T Q good c"

lemma obeys_mono: "obeys A T Q good p \<Longrightarrow> (\<And>r. good r \<Longrightarrow> good' r) \<Longrightarrow> obeys A T Q good' p"
  by (induction p) auto

lemma obeys_bnd: "obeys A T Q (\<lambda>r. obeys A T Q good (f r)) p \<Longrightarrow> obeys A T Q good (bnd p f)"
  by (induction p) auto

lemma obeys_bndE:
  "obeys A T Q (\<lambda>r. case r of Err x \<Rightarrow> good (Err x) | Ok a \<Rightarrow> obeys A T Q good (f a)) p \<Longrightarrow>
   obeys A T Q good (bndE p f)"
  unfolding bndE_def by (rule obeys_bnd, erule obeys_mono) (auto split: sum.splits)

lemma apply_batch_other:
  fixes ks :: "(string, 'v) keyspace"
  shows "k \<notin> write_key ` set (writes b) \<Longrightarrow> get_raw (snd (apply_batch b ks)) k = get_raw ks k"
  using apply_batch_cases [of b ks] fold_write_other [of k "writes b" ks] by auto

lemma obeys_step:
  assumes "obeys A T Q good p" and "Q (get_raw (w_ks w) T)" and "range (w_supply w) \<subseteq> A"
  shows "obeys A T Q good (fst (step1 p w)) \<and> Q (get_raw (w_ks (snd (step1 p w))) T)"
proof -
  have "w_supply w n \<in> A" for n using assms(3) by blast
  then show ?thesis using assms(1,2)
    by (cases p)
      (auto simp: take_raw_simps insert_if_absent_def move_if_unchanged_def get_raw_commit_move
        apply_batch_other split: option.splits)
qed

text \<open>A program whose first random draw fixes which predicate it obeys from then on; before the draw
  it obeys all of them.\<close>

primrec draws ::
    "string set \<Rightarrow> string \<Rightarrow> (string \<Rightarrow> 'v option \<Rightarrow> bool) \<Rightarrow> (string \<Rightarrow> 'r \<Rightarrow> bool) \<Rightarrow> ('v, 'e, 'r) prog \<Rightarrow> bool" where
  "draws A T Q good (Ret r) = (\<forall>R. good R r)"
| "draws A T Q good (Get k c) = (\<forall>x. (k = T \<longrightarrow> (\<forall>R. Q R x)) \<longrightarrow> draws A T Q good (c x))"
| "draws A T Q good (Insert k v c) = ((k = T \<longrightarrow> (\<forall>R. Q R (Some v))) \<and> draws A T Q good c)"
| "draws A T Q good (Remove k c) = (k \<noteq> T \<and> draws A T Q good c)"
| "draws A T Q good (Take k c) = (k \<noteq> T \<and> (\<forall>x. draws A T Q good (c x)))"
| "draws A T Q good (InsertIfAbsent k v c) = (k \<noteq> T \<and> (\<forall>x. draws A T Q good (c x)))"
| "draws A T Q good (MoveIfUnchanged k v k' v' c) = (k \<noteq> T \<and> k' \<noteq> T \<and> (\<forall>x. draws A T Q good (c x)))"
| "draws A T Q good (ApplyBatch b c) =
     (T \<notin> write_key ` set (writes b) \<and> (\<forall>x. draws A T Q good (c x)))"
| "draws A T Q good (PrefixIter p c) = (\<forall>x. draws A T Q good (c x))"
| "draws A T Q good (Now c) = (\<forall>x. draws A T Q good (c x))"
| "draws A T Q good (Fresh c) = (\<forall>x \<in> A. obeys A T (Q x) (good x) (c x))"
| "draws A T Q good (NextSeq c) = (\<forall>x. draws A T Q good (c x))"
| "draws A T Q good (Emit e c) = draws A T Q good c"

lemma draws_step:
  assumes "draws A T Q good p" and "\<forall>R. Q R (get_raw (w_ks w) T)" and "range (w_supply w) \<subseteq> A"
  shows "draws A T Q good (fst (step1 p w)) \<and> (\<forall>R. Q R (get_raw (w_ks (snd (step1 p w))) T)) \<or>
    (\<exists>R. obeys A T (Q R) (good R) (fst (step1 p w)) \<and> Q R (get_raw (w_ks (snd (step1 p w))) T))"
proof -
  have "w_supply w n \<in> A" for n using assms(3) by blast
  then show ?thesis using assms(1,2)
    by (cases p)
      (auto simp: take_raw_simps insert_if_absent_def move_if_unchanged_def get_raw_commit_move
        apply_batch_other split: option.splits)
qed

text \<open>Programs that race for the key \<open>k\<close>: each first tries to take it; the one that succeeds draws a
  value and vouches for it, the others obey whatever is drawn.\<close>

definition claimer ::
    "string set \<Rightarrow> string \<Rightarrow> string \<Rightarrow> (string \<Rightarrow> 'v option \<Rightarrow> bool) \<Rightarrow> (string \<Rightarrow> 'r \<Rightarrow> bool) \<Rightarrow>
     ('v, 'e, 'r) prog \<Rightarrow> bool" where
  "claimer A k T Q good p \<longleftrightarrow>
     (\<exists>c. p = Take k c \<and> (\<forall>R. obeys A T (Q R) (good R) (c None)) \<and> (\<forall>v. draws A T Q good (c (Some v))))"

definition bystander ::
    "string set \<Rightarrow> string \<Rightarrow> string \<Rightarrow> (string \<Rightarrow> 'v option \<Rightarrow> bool) \<Rightarrow> (string \<Rightarrow> 'r \<Rightarrow> bool) \<Rightarrow>
     ('v, 'e, 'r) prog \<Rightarrow> bool" where
  "bystander A k T Q good p \<longleftrightarrow> claimer A k T Q good p \<or> (\<forall>R. obeys A T (Q R) (good R) p)"

text \<open>The three phases of the race: nobody has taken \<open>k\<close>; the program \<open>j\<close> took it and has not drawn
  yet; the value \<open>R\<close> is drawn.\<close>

inductive issue_phase ::
    "string set \<Rightarrow> string \<Rightarrow> string \<Rightarrow> (string \<Rightarrow> 'v option \<Rightarrow> bool) \<Rightarrow> (string \<Rightarrow> 'r \<Rightarrow> bool) \<Rightarrow>
     ('v, 'e, 'r) prog list \<Rightarrow> ('v, 'e) world \<Rightarrow> bool"
  for A k T Q good ps w where
  unclaimed: "\<forall>R. Q R (get_raw (w_ks w) T) \<Longrightarrow>
    \<forall>i < length ps. bystander A k T Q good (ps ! i) \<Longrightarrow> issue_phase A k T Q good ps w"
| claimed: "get_raw (w_ks w) k = None \<Longrightarrow> \<forall>R. Q R (get_raw (w_ks w) T) \<Longrightarrow> j < length ps \<Longrightarrow>
    draws A T Q good (ps ! j) \<Longrightarrow> \<forall>i < length ps. i \<noteq> j \<longrightarrow> bystander A k T Q good (ps ! i) \<Longrightarrow>
    issue_phase A k T Q good ps w"
| drawn: "get_raw (w_ks w) k = None \<Longrightarrow> Q R (get_raw (w_ks w) T) \<Longrightarrow>
    \<forall>i < length ps. claimer A k T Q good (ps ! i) \<or> obeys A T (Q R) (good R) (ps ! i) \<Longrightarrow>
    issue_phase A k T Q good ps w"

lemma claimer_step:
  assumes "claimer A k T Q good p" and "k \<noteq> T"
  shows "get_raw (w_ks (snd (step1 p w))) T = get_raw (w_ks w) T"
    and "get_raw (w_ks w) k = None \<Longrightarrow> \<forall>R. obeys A T (Q R) (good R) (fst (step1 p w))"
    and "get_raw (w_ks w) k \<noteq> None \<Longrightarrow> draws A T Q good (fst (step1 p w)) \<and>
      get_raw (w_ks (snd (step1 p w))) k = None"
  using assms by (auto simp: claimer_def take_raw_simps)

lemma all_obey_step:
  assumes "\<forall>R. obeys A T (Q R) (good R) p" and "\<forall>R. Q R (get_raw (w_ks w) T)" and "range (w_supply w) \<subseteq> A"
  shows "\<forall>R. obeys A T (Q R) (good R) (fst (step1 p w))" and "\<forall>R. Q R (get_raw (w_ks (snd (step1 p w))) T)"
  using assms obeys_step by blast+

lemma bystander_step:
  assumes "bystander A k T Q good p" and "k \<noteq> T" and "range (w_supply w) \<subseteq> A"
    and "\<forall>R. Q R (get_raw (w_ks w) T)" and "get_raw (w_ks w) k = None"
  shows "bystander A k T Q good (fst (step1 p w)) \<and> (\<forall>R. Q R (get_raw (w_ks (snd (step1 p w))) T))"
  using assms claimer_step [of A k T Q good p w] obeys_step [of A T _ _ p w]
  unfolding bystander_def by metis

lemma issue_phase_step:
  assumes "issue_phase A k T Q good ps w" and "i < length ps" and "k \<noteq> T" and sup: "range (w_supply w) \<subseteq> A"
    and absent: "get_raw (w_ks w) k = None \<Longrightarrow> get_raw (w_ks (snd (step1 (ps ! i) w))) k = None"
  shows "issue_phase A k T Q good (ps[i := fst (step1 (ps ! i) w)]) (snd (step1 (ps ! i) w))"
  using assms(1)
proof cases
  case unclaimed
  let ?p = "fst (step1 (ps ! i) w)" and ?w = "snd (step1 (ps ! i) w)"
  consider (win) "claimer A k T Q good (ps ! i)" "get_raw (w_ks w) k \<noteq> None"
    | (lose) "claimer A k T Q good (ps ! i)" "get_raw (w_ks w) k = None"
    | (free) "\<forall>R. obeys A T (Q R) (good R) (ps ! i)"
    using unclaimed(2) assms(2) by (auto simp: bystander_def)
  then show ?thesis
  proof cases
    case win
    then show ?thesis using claimer_step [OF win(1) assms(3), of w] unclaimed assms(2)
      by (intro issue_phase.claimed [of _ _ _ _ i]) (auto simp: nth_list_update)
  next
    case lose
    then have "bystander A k T Q good ?p" using claimer_step [OF lose(1) assms(3), of w]
      by (simp add: bystander_def)
    then show ?thesis using claimer_step(1) [OF lose(1) assms(3), of w] unclaimed assms(2)
      by (intro issue_phase.unclaimed) (auto simp: nth_list_update)
  next
    case free
    then have "bystander A k T Q good ?p" "\<forall>R. Q R (get_raw (w_ks ?w) T)"
      using all_obey_step [of A T Q good "ps ! i" w] unclaimed(1) sup by (simp_all add: bystander_def)
    then show ?thesis using unclaimed(2) assms(2) by (intro issue_phase.unclaimed) (auto simp: nth_list_update)
  qed
next
  case (claimed j)
  show ?thesis
  proof (cases "i = j")
    case True
    then consider (still) "draws A T Q good (fst (step1 (ps ! i) w))"
        "\<forall>R. Q R (get_raw (w_ks (snd (step1 (ps ! i) w))) T)"
      | (drew) R where "obeys A T (Q R) (good R) (fst (step1 (ps ! i) w))"
        "Q R (get_raw (w_ks (snd (step1 (ps ! i) w))) T)"
      using draws_step [of A T Q good "ps ! i" w] claimed(2,4) sup by blast
    then show ?thesis
    proof cases
      case still
      then show ?thesis using True claimed absent assms(2)
        by (intro issue_phase.claimed [of _ _ _ _ i]) (auto simp: nth_list_update)
    next
      case drew
      then show ?thesis using True claimed absent assms(2)
        by (intro issue_phase.drawn [of _ _ _ R]) (auto simp: nth_list_update bystander_def)
    qed
  next
    case False
    then have "bystander A k T Q good (fst (step1 (ps ! i) w))"
      "\<forall>R. Q R (get_raw (w_ks (snd (step1 (ps ! i) w))) T)"
      using bystander_step [of A k T Q good "ps ! i" w] claimed(1,2,5) assms(2,3) sup by auto
    then show ?thesis using False claimed absent assms(2)
      by (intro issue_phase.claimed [of _ _ _ _ j]) (auto simp: nth_list_update)
  qed
next
  case (drawn R)
  have "obeys A T (Q R) (good R) (fst (step1 (ps ! i) w)) \<and> Q R (get_raw (w_ks (snd (step1 (ps ! i) w))) T)"
    using drawn assms(2) claimer_step(1,2) [of A k T Q good "ps ! i" w] assms(3)
      obeys_step [of A T "Q R" "good R" "ps ! i" w] sup by metis
  then show ?thesis using drawn absent assms(2)
    by (intro issue_phase.drawn [of _ _ _ R]) (auto simp: nth_list_update)
qed

lemma issue_phase_tick: "issue_phase A k T Q good ps w \<Longrightarrow> issue_phase A k T Q good ps (w\<lparr>w_now := t\<rparr>)"
  by (erule issue_phase.cases; rule issue_phase.intros) simp_all

definition issue_inv ::
    "string set \<Rightarrow> string \<Rightarrow> string \<Rightarrow> (string \<Rightarrow> 'v option \<Rightarrow> bool) \<Rightarrow> (string \<Rightarrow> 'r \<Rightarrow> bool) \<Rightarrow>
     ('v, 'e, 'r) prog list \<times> ('v, 'e) world \<Rightarrow> bool" where
  "issue_inv A k T Q good c \<longleftrightarrow> pool_keeps_absent A k c \<and> issue_phase A k T Q good (fst c) (snd c)"

lemma issue_inv_step:
  assumes "issue_inv A k T Q good c" and "pstep c d" and "k \<noteq> T"
  shows "issue_inv A k T Q good d"
proof -
  have keep: "pool_keeps_absent A k d" "get_raw (w_ks (snd c)) k = None \<longrightarrow> get_raw (w_ks (snd d)) k = None"
    using pool_keeps_absent_step [OF _ assms(2)] assms(1) by (auto simp: issue_inv_def)
  from assms(2) show ?thesis
  proof (cases rule: pstep.cases)
    case (pstep_thread i ps w p' w')
    have "range (w_supply w) \<subseteq> A" "issue_phase A k T Q good ps w"
      using assms(1) pstep_thread(1) by (simp_all add: issue_inv_def pool_keeps_absent_def)
    moreover have "p' = fst (step1 (ps ! i) w)" "w' = snd (step1 (ps ! i) w)" using pstep_thread(4) by simp_all
    ultimately have "issue_phase A k T Q good (ps[i := p']) w'"
      using issue_phase_step [OF _ pstep_thread(3) assms(3)] keep(2) pstep_thread(1,2) by simp
    then show ?thesis using keep(1) pstep_thread(2) by (simp add: issue_inv_def)
  next
    case (pstep_tick w t ps)
    then show ?thesis using assms(1) keep(1) issue_phase_tick by (fastforce simp: issue_inv_def)
  qed
qed

text \<open>All accepted results of the race vouch for one value.\<close>

lemma issued_once:
  assumes "reach (ps, w) (qs, w')" and "range (w_supply w) \<subseteq> A" and "k \<noteq> T"
    and "\<forall>p \<in> set ps. claimer A k T Q good p \<and> keeps_absent A k p"
    and "\<forall>R. Q R (get_raw (w_ks w) T)"
  shows "\<exists>R. \<forall>i < length qs. \<forall>r. qs ! i = Ret r \<longrightarrow> good R r"
proof -
  have "issue_inv A k T Q good (ps, w)" using assms(2,4,5)
    by (auto simp: issue_inv_def pool_keeps_absent_def bystander_def intro!: issue_phase.unclaimed)
  then have "issue_inv A k T Q good (qs, w')"
    by (rule reach_invariant [OF assms(1)]) (rule issue_inv_step [OF _ _ assms(3)])
  then have "issue_phase A k T Q good qs w'" by (simp add: issue_inv_def)
  then show ?thesis
  proof cases
    case (claimed j)
    then have "qs ! i = Ret r \<Longrightarrow> i < length qs \<Longrightarrow> good R r" for i r R
      by (cases "i = j") (auto simp: bystander_def claimer_def)
    then show ?thesis by blast
  next
    case unclaimed
    then have "qs ! i = Ret r \<Longrightarrow> i < length qs \<Longrightarrow> good R r" for i r R
      by (auto simp: bystander_def claimer_def)
    then show ?thesis by blast
  next
    case (drawn R)
    then have "qs ! i = Ret r \<Longrightarrow> i < length qs \<Longrightarrow> good R r" for i r
      by (auto simp: claimer_def)
    then show ?thesis by blast
  qed
qed

end
