(* ===== verification/Session.thy ===== *)
theory Session
  imports Store_Logic
begin

text \<open>
  Sessions and their indexes (\<open>vti-common/src/auth/session.rs\<close>): the session row, the refresh-token
  reverse index, the record of the token a session currently issues, tombstones of spent tokens, the
  per-subject index of outstanding challenges, and the sweep that expires them, all in one keyspace.
  A stored row is one of the typed JSON rows or raw text.  SHA-256 is the parameter \<open>sha\<close>.  Rows
  under the raw-text prefixes are only ever written as text, so reading another kind of row there as
  text is treated as malformed.
\<close>

unbundle bit_operations_syntax

section \<open>Rows\<close>

datatype session_state = ChallengeSent | Authenticated

record session =
  session_id :: string
  sess_did :: string
  challenge :: string
  sess_state :: session_state
  created_at :: u64
  last_seen :: u64
  refresh_token :: "string option"
  refresh_expires_at :: "u64 option"
  tee_attested :: bool
  amr :: "string list"
  acr :: string
  acr_expires_at :: "u64 option"
  token_id :: "string option"
  session_pubkey :: "string option"
  not_after :: "u64 option"

datatype tombstone_cause = Rotated | Superseded

record refresh_tombstone =
  t_session_id :: string
  t_did :: string
  t_rotated_at :: u64
  t_expires_at :: u64
  t_successor_hash :: string
  t_cause :: tombstone_cause

record pending_challenge_entry =
  p_created_at :: u64
  p_seq :: u64

record pending_step_up =
  su_challenge :: string
  su_session_id :: string
  su_subject :: string
  su_approver :: string
  su_approver_any :: bool
  su_target_acr :: string
  su_acceptable_evidence :: "string list"
  su_created_at :: u64
  su_expires_at :: u64
  su_bound_to :: "string option"

datatype session_row =
    RSession session
  | RTombstone refresh_tombstone
  | RPending pending_challenge_entry
  | RStepUp pending_step_up
  | RText string
  | RMalformed string

type_synonym ('e, 'r) sess_prog = "(session_row, 'e, (app_error, 'r) result) prog"

section \<open>Operations on one session\<close>

definition clamp_to_end :: "session \<Rightarrow> u64 \<Rightarrow> u64" where
  "clamp_to_end s at = (case not_after s of None \<Rightarrow> at | Some end' \<Rightarrow> min at end')"

definition past_end :: "session \<Rightarrow> u64 \<Rightarrow> bool" where
  "past_end s now = (case not_after s of None \<Rightarrow> False | Some end' \<Rightarrow> now \<ge> end')"

definition elevation_active :: "session \<Rightarrow> u64 \<Rightarrow> bool" where
  "elevation_active s now = (case acr_expires_at s of None \<Rightarrow> False | Some deadline \<Rightarrow> now < deadline)"

definition downgrade_lapsed_elevation :: "u64 \<Rightarrow> session \<Rightarrow> bool \<times> session" where
  "downgrade_lapsed_elevation now s =
     (case acr_expires_at s of
        Some deadline \<Rightarrow>
          if now \<ge> deadline then (True, s\<lparr>acr := ''aal1'', acr_expires_at := None, amr := [''did'']\<rparr>)
          else (False, s)
      | None \<Rightarrow> (False, s))"

definition clear_non_passkey_elevation :: "session \<Rightarrow> bool \<times> session" where
  "clear_non_passkey_elevation s =
     (if acr_expires_at s = None \<or> list_ex (\<lambda>m. m = ''passkey'') (amr s) then (False, s)
      else (True, s\<lparr>acr := ''aal1'', acr_expires_at := None, amr := [''did'']\<rparr>))"

section \<open>Keys\<close>

definition hex_lower :: "bytes \<Rightarrow> string" where
  "hex_lower bs = concat (map (\<lambda>b. [''0123456789abcdef'' ! unat (drop_bit 4 b),
                                     ''0123456789abcdef'' ! unat (b AND 15)]) bs)"

definition session_key :: "string \<Rightarrow> string" where
  "session_key sid = ''session:'' @ sid"

definition refresh_token_hash :: "(string \<Rightarrow> bytes) \<Rightarrow> string \<Rightarrow> string" where
  "refresh_token_hash sha token = hex_lower (sha token)"

definition refresh_key :: "(string \<Rightarrow> bytes) \<Rightarrow> string \<Rightarrow> string" where
  "refresh_key sha token = ''refresh:'' @ refresh_token_hash sha token"

definition current_refresh_key :: "string \<Rightarrow> string" where
  "current_refresh_key sid = ''refresh-current:'' @ sid"

definition rotated_key :: "(string \<Rightarrow> bytes) \<Rightarrow> string \<Rightarrow> string" where
  "rotated_key sha token = ''rotated:'' @ refresh_token_hash sha token"

definition pending_challenge_prefix :: "(string \<Rightarrow> bytes) \<Rightarrow> string \<Rightarrow> string" where
  "pending_challenge_prefix sha did = ''pending-challenge:'' @ hex_lower (sha did) @ '':''"

definition pending_challenge_key :: "(string \<Rightarrow> bytes) \<Rightarrow> string \<Rightarrow> string \<Rightarrow> string" where
  "pending_challenge_key sha did sid = pending_challenge_prefix sha did @ sid"

section \<open>Reading and writing rows\<close>

definition as_session :: "session_row option \<Rightarrow> (app_error, session option) result" where
  "as_session r =
     (case r of None \<Rightarrow> Ok None | Some (RSession s) \<Rightarrow> Ok (Some s) | Some _ \<Rightarrow> Err Serialization)"

definition as_text :: "session_row option \<Rightarrow> (app_error, string option) result" where
  "as_text r = (case r of None \<Rightarrow> Ok None | Some (RText s) \<Rightarrow> Ok (Some s) | Some _ \<Rightarrow> Err Internal)"

definition as_tombstone :: "session_row option \<Rightarrow> (app_error, refresh_tombstone option) result" where
  "as_tombstone r =
     (case r of None \<Rightarrow> Ok None | Some (RTombstone t) \<Rightarrow> Ok (Some t) | Some _ \<Rightarrow> Err Serialization)"

definition apply_batchE :: "(string, session_row) batch \<Rightarrow> ('e, batch_outcome) sess_prog" where
  "apply_batchE b = ApplyBatch b Ret"

text \<open>\<open>stage_pending_challenge_index\<close>: the writes it adds to a batch.\<close>

definition stage_pending_challenge_index ::
    "(string \<Rightarrow> bytes) \<Rightarrow> session \<Rightarrow> ((string, session_row) write_op list \<Rightarrow> ('e, 'r) sess_prog) \<Rightarrow>
     ('e, 'r) sess_prog" where
  "stage_pending_challenge_index sha s cont =
     (if sess_state s \<noteq> ChallengeSent then cont []
      else NextSeq (\<lambda>n. cont [Put (pending_challenge_key sha (sess_did s) (session_id s))
                              (RPending \<lparr>p_created_at = created_at s, p_seq = n\<rparr>)]))"

definition write_session :: "(string \<Rightarrow> bytes) \<Rightarrow> session \<Rightarrow> ('e, unit) sess_prog" where
  "write_session sha s =
     stage_pending_challenge_index sha s (\<lambda>staged.
       bndE (apply_batchE \<lparr>checks = [], writes = staged @ [Put (session_key (session_id s)) (RSession s)]\<rparr>)
         (\<lambda>_. Ret (Ok ())))"

definition store_session :: "(string \<Rightarrow> bytes) \<Rightarrow> session \<Rightarrow> ('e, unit) sess_prog" where
  "store_session sha s = write_session sha s"

definition update_session :: "(string \<Rightarrow> bytes) \<Rightarrow> session \<Rightarrow> ('e, unit) sess_prog" where
  "update_session sha s = write_session sha s"

definition get_session :: "string \<Rightarrow> ('e, session option) sess_prog" where
  "get_session sid = Get (session_key sid) (\<lambda>r. Ret (as_session r))"

definition take_session :: "(string \<Rightarrow> bytes) \<Rightarrow> string \<Rightarrow> ('e, session option) sess_prog" where
  "take_session sha sid =
     Take (session_key sid) (\<lambda>r.
       case r of
         None \<Rightarrow> Ret (Ok None)
       | Some (RSession s) \<Rightarrow>
           Remove (pending_challenge_key sha (sess_did s) sid) (Ret (Ok (Some s)))
       | Some _ \<Rightarrow> Ret (Err Internal))"

definition SESSION_WRITE_ATTEMPTS :: nat where "SESSION_WRITE_ATTEMPTS = 64"

primrec update_session_loop ::
    "(string \<Rightarrow> bytes) \<Rightarrow> string \<Rightarrow> (session \<Rightarrow> bool \<times> session) \<Rightarrow> nat \<Rightarrow>
     ('e, session option) sess_prog" where
  "update_session_loop sha sid modify 0 = Ret (Err Conflict)"
| "update_session_loop sha sid modify (Suc n) =
     Get (session_key sid) (\<lambda>raw.
       case raw of
         None \<Rightarrow> Ret (Ok None)
       | Some (RSession stored) \<Rightarrow>
           (case modify stored of
              (False, s) \<Rightarrow> Ret (Ok (Some s))
            | (True, s) \<Rightarrow>
                stage_pending_challenge_index sha s (\<lambda>staged.
                  bndE (apply_batchE
                    \<lparr>checks = [Unchanged (session_key sid) (RSession stored)],
                     writes = Put (session_key sid) (RSession s) # staged\<rparr>)
                  (\<lambda>out. if is_applied out then Ret (Ok (Some s))
                         else update_session_loop sha sid modify n)))
       | Some _ \<Rightarrow> Ret (Err Internal))"

definition update_session_with ::
    "(string \<Rightarrow> bytes) \<Rightarrow> string \<Rightarrow> (session \<Rightarrow> bool \<times> session) \<Rightarrow> ('e, session option) sess_prog" where
  "update_session_with sha sid modify = update_session_loop sha sid modify SESSION_WRITE_ATTEMPTS"

definition LAST_SEEN_GRANULARITY_SECS :: u64 where "LAST_SEEN_GRANULARITY_SECS = 60"

definition INTRINSIC_SESSION_IDLE_TTL_SECS :: u64 where "INTRINSIC_SESSION_IDLE_TTL_SECS = 86400"

definition touch_last_seen :: "session \<Rightarrow> u64 \<Rightarrow> ('e, bool) sess_prog" where
  "touch_last_seen s now =
     (if now < sat_add (last_seen s) LAST_SEEN_GRANULARITY_SECS then Ret (Ok False)
      else Get (session_key (session_id s)) (\<lambda>raw.
        case raw of
          None \<Rightarrow> Ret (Ok False)
        | Some (RSession current) \<Rightarrow>
            if now < sat_add (last_seen current) LAST_SEEN_GRANULARITY_SECS then Ret (Ok False)
            else bndE (apply_batchE
              \<lparr>checks = [Unchanged (session_key (session_id s)) (RSession current)],
               writes = [Put (session_key (session_id s)) (RSession (current\<lparr>last_seen := now\<rparr>))]\<rparr>)
              (\<lambda>out. Ret (Ok (is_applied out)))
        | Some _ \<Rightarrow> Ret (Err Internal)))"

definition intrinsic_session :: "string \<Rightarrow> u64 \<Rightarrow> session" where
  "intrinsic_session did now =
     \<lparr> session_id = did, sess_did = did, challenge = [], sess_state = Authenticated,
       created_at = now, last_seen = now, refresh_token = None, refresh_expires_at = None,
       tee_attested = False, amr = [''did''], acr = ''aal1'', acr_expires_at = None,
       token_id = None, session_pubkey = None, not_after = None \<rparr>"

primrec resolve_loop ::
    "(string \<Rightarrow> bytes) \<Rightarrow> string \<Rightarrow> u64 \<Rightarrow> nat \<Rightarrow> ('e, session) sess_prog" where
  "resolve_loop sha did now 0 = Ret (Err Conflict)"
| "resolve_loop sha did now (Suc n) =
     bndE (update_session_with sha did
             (\<lambda>s. (True, snd (downgrade_lapsed_elevation now (s\<lparr>last_seen := now\<rparr>)))))
       (\<lambda>found. case found of
          Some s \<Rightarrow> Ret (Ok s)
        | None \<Rightarrow>
            bndE (apply_batchE
              \<lparr>checks = [Absent (session_key did)],
               writes = [Put (session_key did) (RSession (intrinsic_session did now))]\<rparr>)
              (\<lambda>out. if is_applied out then Ret (Ok (intrinsic_session did now))
                     else resolve_loop sha did now n))"

definition resolve_did_session :: "(string \<Rightarrow> bytes) \<Rightarrow> string \<Rightarrow> u64 \<Rightarrow> ('e, session) sess_prog" where
  "resolve_did_session sha did now = resolve_loop sha did now SESSION_WRITE_ATTEMPTS"

section \<open>Indexes\<close>

definition store_refresh_index :: "(string \<Rightarrow> bytes) \<Rightarrow> string \<Rightarrow> string \<Rightarrow> ('e, unit) sess_prog" where
  "store_refresh_index sha token sid =
     bndE (apply_batchE
       \<lparr>checks = [], writes = [Put (current_refresh_key sid) (RText (refresh_token_hash sha token)),
                              Put (refresh_key sha token) (RText sid)]\<rparr>)
       (\<lambda>_. Ret (Ok ()))"

definition current_refresh_hash :: "string \<Rightarrow> ('e, string option) sess_prog" where
  "current_refresh_hash sid = Get (current_refresh_key sid) (\<lambda>r. Ret (as_text r))"

definition get_session_by_refresh :: "(string \<Rightarrow> bytes) \<Rightarrow> string \<Rightarrow> ('e, string option) sess_prog" where
  "get_session_by_refresh sha token = Get (refresh_key sha token) (\<lambda>r. Ret (as_text r))"

definition delete_refresh_index :: "(string \<Rightarrow> bytes) \<Rightarrow> string \<Rightarrow> ('e, unit) sess_prog" where
  "delete_refresh_index sha token = Remove (refresh_key sha token) (Ret (Ok ()))"

definition take_session_id_by_refresh :: "(string \<Rightarrow> bytes) \<Rightarrow> string \<Rightarrow> ('e, string option) sess_prog" where
  "take_session_id_by_refresh sha token = Take (refresh_key sha token) (\<lambda>r. Ret (as_text r))"

definition store_refresh_tombstone ::
    "(string \<Rightarrow> bytes) \<Rightarrow> string \<Rightarrow> refresh_tombstone \<Rightarrow> ('e, unit) sess_prog" where
  "store_refresh_tombstone sha token t = Insert (rotated_key sha token) (RTombstone t) (Ret (Ok ()))"

definition get_refresh_tombstone :: "(string \<Rightarrow> bytes) \<Rightarrow> string \<Rightarrow> ('e, refresh_tombstone option) sess_prog" where
  "get_refresh_tombstone sha token = Get (rotated_key sha token) (\<lambda>r. Ret (as_tombstone r))"

definition stage_session_removal :: "(string \<Rightarrow> bytes) \<Rightarrow> session \<Rightarrow> (string, session_row) write_op list" where
  "stage_session_removal sha s =
     (case refresh_token s of Some token \<Rightarrow> [Delete (refresh_key sha token)] | None \<Rightarrow> []) @
     [Delete (current_refresh_key (session_id s)),
      Delete (pending_challenge_key sha (sess_did s) (session_id s)),
      Delete (session_key (session_id s))]"

definition delete_session :: "(string \<Rightarrow> bytes) \<Rightarrow> string \<Rightarrow> ('e, unit) sess_prog" where
  "delete_session sha sid =
     bndE (get_session sid) (\<lambda>found.
       case found of
         Some s \<Rightarrow> bndE (apply_batchE \<lparr>checks = [], writes = stage_session_removal sha s\<rparr>) (\<lambda>_. Ret (Ok ()))
       | None \<Rightarrow> Ret (Ok ()))"

section \<open>Listing\<close>

primrec pending_loop ::
    "string \<Rightarrow> string \<Rightarrow> (string \<times> session_row) list \<Rightarrow> (u64 \<times> session) list \<Rightarrow>
     ('e, (u64 \<times> session) list) sess_prog" where
  "pending_loop did pfx [] acc = Ret (Ok acc)"
| "pending_loop did pfx (e # es) acc =
     (case strip_prefix pfx (fst e) of
        None \<Rightarrow> pending_loop did pfx es acc
      | Some sid \<Rightarrow>
          bndE (get_session sid) (\<lambda>found.
            case found of
              Some s \<Rightarrow>
                if sess_did s = did \<and> sess_state s = ChallengeSent
                then pending_loop did pfx es
                       (acc @ [(case snd e of RPending p \<Rightarrow> p_seq p | _ \<Rightarrow> 0, s)])
                else pending_loop did pfx es acc
            | None \<Rightarrow> pending_loop did pfx es acc))"

text \<open>A stable sort by creation time and then sequence number.\<close>

definition sort_pending :: "(u64 \<times> session) list \<Rightarrow> (u64 \<times> session) list" where
  "sort_pending xs = sort_key (\<lambda>(_, s). created_at s) (sort_key fst xs)"

definition list_pending_challenges :: "(string \<Rightarrow> bytes) \<Rightarrow> string \<Rightarrow> ('e, session list) sess_prog" where
  "list_pending_challenges sha did =
     PrefixIter (pending_challenge_prefix sha did) (\<lambda>entries.
       bndE (pending_loop did (pending_challenge_prefix sha did) entries []) (\<lambda>pending.
         Ret (Ok (map snd (sort_pending pending)))))"

definition row_sessions :: "(string \<times> session_row) list \<Rightarrow> session list" where
  "row_sessions rows = List.map_filter (\<lambda>(_, v). case v of RSession s \<Rightarrow> Some s | _ \<Rightarrow> None) rows"

definition count_pending_challenges :: "string \<Rightarrow> ('e, nat) sess_prog" where
  "count_pending_challenges did = PrefixIter ''session:'' (\<lambda>entries.
     Ret (Ok (length (filter (\<lambda>s. sess_did s = did \<and> sess_state s = ChallengeSent) (row_sessions entries)))))"

definition list_sessions :: "('e, session list) sess_prog" where
  "list_sessions = PrefixIter ''session:'' (\<lambda>entries. Ret (Ok (row_sessions entries)))"

section \<open>The sweep\<close>

definition session_expired :: "u64 \<Rightarrow> u64 \<Rightarrow> session \<Rightarrow> bool" where
  "session_expired challenge_ttl now s =
     (case sess_state s of
        ChallengeSent \<Rightarrow> sat_sub now (created_at s) > challenge_ttl
      | Authenticated \<Rightarrow>
          if refresh_token s \<noteq> None then
            (case refresh_expires_at s of None \<Rightarrow> True | Some expires \<Rightarrow> now > expires)
          else if session_id s = sess_did s then
            sat_sub now (max (last_seen s) (created_at s)) > INTRINSIC_SESSION_IDLE_TTL_SECS
          else (case refresh_expires_at s of None \<Rightarrow> True | Some expires \<Rightarrow> now > expires))"

primrec sweep_rows ::
    "(string \<Rightarrow> bytes) \<Rightarrow> u64 \<Rightarrow> u64 \<Rightarrow> (string \<times> session_row) list \<Rightarrow> string set \<Rightarrow>
     ('e, string set) sess_prog" where
  "sweep_rows sha ttl now [] live = Ret (Ok live)"
| "sweep_rows sha ttl now (e # es) live =
     (case snd e of
        RSession s \<Rightarrow>
          if session_expired ttl now s then
            bndE (apply_batchE \<lparr>checks = [Unchanged (fst e) (RSession s)],
                                writes = stage_session_removal sha s\<rparr>)
              (\<lambda>out. sweep_rows sha ttl now es
                 (if is_applied out then live else insert (session_id s) live))
          else sweep_rows sha ttl now es (insert (session_id s) live)
      | _ \<Rightarrow> sweep_rows sha ttl now es live)"

definition sweep_refresh_entry ::
    "(string \<Rightarrow> bytes) \<Rightarrow> string \<times> session_row \<Rightarrow> ('e, unit) sess_prog" where
  "sweep_refresh_entry sha e =
     (case snd e of
        RText sid \<Rightarrow>
          bndE (get_session sid) (\<lambda>found.
            case found of
              None \<Rightarrow> Remove (fst e) (Ret (Ok ()))
            | Some row \<Rightarrow>
                bndE (current_refresh_hash sid) (\<lambda>current.
                  if (case current of
                        Some hash \<Rightarrow> ''refresh:'' @ hash = fst e
                      | None \<Rightarrow> (case refresh_token row of
                                   Some live \<Rightarrow> refresh_key sha live = fst e | None \<Rightarrow> False))
                  then Ret (Ok ()) else Remove (fst e) (Ret (Ok ()))))
      | _ \<Rightarrow> Remove (fst e) (Ret (Ok ())))"

definition sweep_current_entry :: "string \<times> session_row \<Rightarrow> ('e, unit) sess_prog" where
  "sweep_current_entry e =
     (case strip_prefix ''refresh-current:'' (fst e) of
        None \<Rightarrow> Remove (fst e) (Ret (Ok ()))
      | Some sid \<Rightarrow>
          Get (session_key sid) (\<lambda>r.
            if r = None then Remove (fst e) (Ret (Ok ())) else Ret (Ok ())))"

definition sweep_pending_entry :: "u64 \<Rightarrow> u64 \<Rightarrow> string \<times> session_row \<Rightarrow> ('e, unit) sess_prog" where
  "sweep_pending_entry ttl now e =
     (if sat_sub now (case snd e of RPending p \<Rightarrow> p_created_at p | _ \<Rightarrow> 0) > ttl
      then Remove (fst e) (Ret (Ok ())) else Ret (Ok ()))"

definition sweep_nonce_entry :: "string set \<Rightarrow> string \<times> session_row \<Rightarrow> ('e, unit) sess_prog" where
  "sweep_nonce_entry live e =
     (case snd e of
        RText sid \<Rightarrow> if sid \<in> live then Ret (Ok ()) else Remove (fst e) (Ret (Ok ()))
      | _ \<Rightarrow> Remove (fst e) (Ret (Ok ())))"

definition sweep_tombstone :: "u64 \<Rightarrow> string \<times> session_row \<Rightarrow> ('e, unit) sess_prog" where
  "sweep_tombstone now e =
     (if (case snd e of RTombstone t \<Rightarrow> now > t_expires_at t | _ \<Rightarrow> True)
      then Remove (fst e) (Ret (Ok ())) else Ret (Ok ()))"

text \<open>The passes over the indexes, with the sessions that survived the pass over the rows.\<close>

definition cleanup_indexes :: "(string \<Rightarrow> bytes) \<Rightarrow> u64 \<Rightarrow> u64 \<Rightarrow> string set \<Rightarrow> ('e, unit) sess_prog" where
  "cleanup_indexes sha challenge_ttl now live =
     PrefixIter ''refresh:'' (\<lambda>refresh_entries.
     bndE (forE (sweep_refresh_entry sha) refresh_entries) (\<lambda>_.
     PrefixIter ''refresh-current:'' (\<lambda>current_entries.
     bndE (forE sweep_current_entry current_entries) (\<lambda>_.
     PrefixIter ''pending-challenge:'' (\<lambda>pending_entries.
     bndE (forE (sweep_pending_entry challenge_ttl now) pending_entries) (\<lambda>_.
     PrefixIter ''nonce:'' (\<lambda>nonce_entries.
     bndE (forE (sweep_nonce_entry live) nonce_entries) (\<lambda>_.
     PrefixIter ''rotated:'' (\<lambda>tombstones.
     forE (sweep_tombstone now) tombstones)))))))))"

definition cleanup_expired_sessions :: "(string \<Rightarrow> bytes) \<Rightarrow> u64 \<Rightarrow> ('e, unit) sess_prog" where
  "cleanup_expired_sessions sha challenge_ttl =
     PrefixIter ''session:'' (\<lambda>entries. Now (\<lambda>now.
       bndE (sweep_rows sha challenge_ttl now entries {}) (\<lambda>live.
       cleanup_indexes sha challenge_ttl now live)))"

section \<open>Keys\<close>

lemmas key_defs = session_key_def refresh_key_def current_refresh_key_def rotated_key_def
  pending_challenge_key_def pending_challenge_prefix_def

lemma session_key_inj [simp]: "session_key a = session_key b \<longleftrightarrow> a = b"
  by (simp add: session_key_def)

lemma current_refresh_key_inj [simp]: "current_refresh_key a = current_refresh_key b \<longleftrightarrow> a = b"
  by (simp add: current_refresh_key_def)

lemma keys_disjoint [simp]:
  "session_key a \<noteq> refresh_key sha t" "refresh_key sha t \<noteq> session_key a"
  "session_key a \<noteq> current_refresh_key b" "current_refresh_key b \<noteq> session_key a"
  "session_key a \<noteq> rotated_key sha t" "rotated_key sha t \<noteq> session_key a"
  "session_key a \<noteq> pending_challenge_key sha d b" "pending_challenge_key sha d b \<noteq> session_key a"
  "refresh_key sha t \<noteq> current_refresh_key b" "current_refresh_key b \<noteq> refresh_key sha t"
  "refresh_key sha t \<noteq> rotated_key sha' t'" "rotated_key sha' t' \<noteq> refresh_key sha t"
  "refresh_key sha t \<noteq> pending_challenge_key sha' d b"
  "pending_challenge_key sha' d b \<noteq> refresh_key sha t"
  "current_refresh_key b \<noteq> rotated_key sha t" "rotated_key sha t \<noteq> current_refresh_key b"
  "current_refresh_key a \<noteq> pending_challenge_key sha d b"
  "pending_challenge_key sha d b \<noteq> current_refresh_key a"
  "rotated_key sha t \<noteq> pending_challenge_key sha' d b"
  "pending_challenge_key sha' d b \<noteq> rotated_key sha t"
  by (simp_all add: key_defs)

lemma unat_nibbles:
  "unat (drop_bit 4 (b :: u8)) = unat b div 16" "unat (b AND 15) = unat b mod 16"
proof -
  show "unat (drop_bit 4 b) = unat b div 16" 
    by (simp only: unat_drop_bit_eq) (simp add: drop_bit_eq_div)
  have "b AND 15 = take_bit 4 b" by (simp add: take_bit_eq_mask mask_eq_exp_minus_1)
  then show "unat (b AND 15) = unat b mod 16" 
    by (simp only: unsigned_take_bit_eq) (simp add: take_bit_eq_mod)
qed

lemma nibble_bounds: "unat (drop_bit 4 (b :: u8)) < 16" "unat (b AND 15) < 16"
proof -
  have "unat b < 256" using unsigned_less [of b] by simp
  then show "unat (drop_bit 4 b) < 16" "unat (b AND 15) < 16" by (simp_all add: unat_nibbles)
qed

lemma hex_digit_inj:
  "i < 16 \<Longrightarrow> j < 16 \<Longrightarrow> ''0123456789abcdef'' ! i = ''0123456789abcdef'' ! j \<longleftrightarrow> i = j"
  by (rule nth_eq_iff_index_eq) simp_all

lemma hex_lower_simps [simp]:
  "hex_lower [] = []"
  "hex_lower (b # bs) = ''0123456789abcdef'' ! unat (drop_bit 4 b) #
     ''0123456789abcdef'' ! unat (b AND 15) # hex_lower bs"
  by (simp_all add: hex_lower_def)

lemma hex_lower_inj [simp]: "hex_lower a = hex_lower b \<longleftrightarrow> a = b"
proof (induction a arbitrary: b)
  case Nil
  then show ?case by (cases b) simp_all
next
  case (Cons x a)
  show ?case
  proof (cases b)
    case (Cons y b')
    have "unat x div 16 = unat y div 16 \<and> unat x mod 16 = unat y mod 16 \<longleftrightarrow> x = y"
      by (metis div_mult_mod_eq unsigned_word_eqI)
    then show ?thesis
      using Cons Cons.IH nibble_bounds [of x] nibble_bounds [of y]
      by (auto simp: hex_digit_inj unat_nibbles)
  qed simp
qed

lemma hex_lower_no_colon: "CHR '':'' \<notin> set (hex_lower bs)"
proof (induction bs)
  case (Cons b bs)
  have "CHR '':'' \<noteq> ''0123456789abcdef'' ! x" if "x < 16" for x :: nat
    using nth_mem [of x "''0123456789abcdef''"] that by auto
  from this [OF nibble_bounds(1) [of b]] this [OF nibble_bounds(2) [of b]]
  show ?case using Cons by simp
qed simp

lemma prefix_until_sep:
  "x \<notin> set h \<Longrightarrow> x \<notin> set h' \<Longrightarrow> prefix (h @ [x]) (h' @ x # r) \<longleftrightarrow> h = h'"
proof (induction h arbitrary: h')
  case Nil
  then show ?case by (cases h') auto
next
  case (Cons a h)
  then show ?case by (cases h') auto
qed

lemma refresh_keys_eq [simp]:
  "refresh_key sha a = refresh_key sha b \<longleftrightarrow> sha a = sha b"
  "rotated_key sha a = rotated_key sha b \<longleftrightarrow> sha a = sha b"
  by (simp_all add: refresh_key_def rotated_key_def refresh_token_hash_def)

text \<open>The prefix under which a subject's outstanding challenges are listed selects the index
  entries of that subject and of no other, although one DID may be a string prefix of another: an
  entry carries the prefix exactly when the two subjects have the same digest.  None of the index
  keys falls into the ranges swept as session rows, refresh entries, current-token records or
  tombstones.\<close>

theorem index_ranges_disjoint:
  "(prefix (pending_challenge_prefix sha did) (pending_challenge_key sha did' sid) \<longleftrightarrow>
      sha did = sha did') \<and>
   list_all (\<lambda>swept. \<not> prefix swept (pending_challenge_key sha did sid))
     [''session:'', ''refresh:'', ''refresh-current:'', ''rotated:'', ''nonce:''] \<and>
   list_all (\<lambda>swept. \<not> prefix swept (current_refresh_key sid))
     [''session:'', ''refresh:'', ''pending-challenge:'', ''rotated:'', ''nonce:''] \<and>
   list_all (\<lambda>swept. \<not> prefix swept (rotated_key sha token))
     [''session:'', ''refresh:'', ''refresh-current:'', ''pending-challenge:'', ''nonce:'']"
proof -
  have "prefix (hex_lower a @ [CHR '':'']) (hex_lower b @ CHR '':'' # sid) \<longleftrightarrow> a = b" for a b
    by (simp add: prefix_until_sep hex_lower_no_colon)
  then show ?thesis by (simp add: key_defs)
qed

section \<open>Single-use claims\<close>

interpretation session_claim: single_use_claim "take_session sha" session_key
  by unfold_locales (auto simp: take_session_def split: option.splits session_row.splits)

interpretation refresh_claim: single_use_claim "take_session_id_by_refresh sha" "refresh_key sha"
  by unfold_locales (auto simp: take_session_id_by_refresh_def as_text_def)

end
