(* ===== verification/Session_Writers.thy ===== *)
theory Session_Writers
  imports Session
begin

text \<open>
  Concurrent writers of session rows: the conditional read-modify-write of
  \<open>vti-common/src/auth/session.rs\<close> is linearizable and never gives up for fewer than sixty-five
  writers, and none of the writers of existing sessions brings a deleted session back.
\<close>

section \<open>Conditional updates\<close>

text \<open>The state of an update between its read and its conditional write.\<close>

definition upd_commit ::
    "(string \<Rightarrow> bytes) \<Rightarrow> string \<Rightarrow> (session \<Rightarrow> bool \<times> session) \<Rightarrow> nat \<Rightarrow> session \<Rightarrow> session \<Rightarrow>
     (string, session_row) write_op list \<Rightarrow> ('e, session option) sess_prog" where
  "upd_commit sha sid modify n stored s staged =
     bndE (apply_batchE \<lparr>checks = [Unchanged (session_key sid) (RSession stored)],
                         writes = Put (session_key sid) (RSession s) # staged\<rparr>)
       (\<lambda>out. if is_applied out then Ret (Ok (Some s)) else update_session_loop sha sid modify n)"

definition index_writes :: "(string, session_row) write_op list \<Rightarrow> bool" where
  "index_writes staged \<longleftrightarrow> staged = [] \<or> (\<exists>sha d i v. staged = [Put (pending_challenge_key sha d i) v])"

lemma step_upd_read:
  assumes "get_raw (w_ks w) (session_key sid) = Some (RSession stored)"
  shows "step1 (update_session_loop sha sid modify (Suc n)) w =
    (case modify stored of
       (False, s) \<Rightarrow> (Ret (Ok (Some s)), w)
     | (True, s) \<Rightarrow> (stage_pending_challenge_index sha s (upd_commit sha sid modify n stored s), w))"
  using assms by (simp add: upd_commit_def [abs_def] split: prod.splits bool.splits)

declare update_session_loop.simps(2) [simp del]

lemma step_upd_stage:
  "sess_state s = ChallengeSent \<Longrightarrow> \<exists>staged. index_writes staged \<and>
     step1 (stage_pending_challenge_index sha s cont) w = (cont staged, w\<lparr>w_seq := w_seq w + 1\<rparr>)"
  by (intro exI [of _ "[Put (pending_challenge_key sha (sess_did s) (session_id s))
       (RPending \<lparr>p_created_at = created_at s, p_seq = w_seq w\<rparr>)]"])
    (simp add: stage_pending_challenge_index_def index_writes_def, blast)

lemma stage_authenticated [simp]:
  "sess_state s \<noteq> ChallengeSent \<Longrightarrow> stage_pending_challenge_index sha s cont = cont []"
  by (simp add: stage_pending_challenge_index_def)

lemma step_upd_commit:
  assumes "get_raw (w_ks w) (session_key sid) = Some (RSession cur)" and "index_writes staged"
  shows "\<exists>w'. step1 (upd_commit sha sid modify n stored s staged) w =
      (if cur = stored then Ret (Ok (Some s)) else update_session_loop sha sid modify n, w') \<and>
    get_raw (w_ks w') (session_key sid) = Some (RSession (if cur = stored then s else cur))"
  using assms
  by (auto simp: upd_commit_def apply_batchE_def apply_batch_def batch_validate_def index_writes_def
      is_applied_def local_store.get_put split: option.splits)

definition apply_updates :: "(session \<Rightarrow> bool \<times> session) list \<Rightarrow> nat list \<Rightarrow> session \<Rightarrow> session" where
  "apply_updates ms log s = fold (\<lambda>i s. snd ((ms ! i) s)) log s"

lemma apply_updates_snoc [simp]:
  "apply_updates ms (log @ [i]) s = snd ((ms ! i) (apply_updates ms log s))"
  by (simp add: apply_updates_def)

text \<open>The states of the \<open>i\<close>-th update, against the order \<open>log\<close> in which updates took effect.\<close>

inductive upd_thread ::
    "(string \<Rightarrow> bytes) \<Rightarrow> string \<Rightarrow> (session \<Rightarrow> bool \<times> session) list \<Rightarrow> session \<Rightarrow> nat list \<Rightarrow> nat \<Rightarrow>
     ('e, session option) sess_prog \<Rightarrow> bool"
  for sha sid ms s0 log i where
  reading: "i \<notin> set log \<Longrightarrow> SESSION_WRITE_ATTEMPTS \<le> n + length log \<Longrightarrow>
    upd_thread sha sid ms s0 log i (update_session_loop sha sid (ms ! i) n)"
| staging: "i \<notin> set log \<Longrightarrow> l \<le> length log \<Longrightarrow> SESSION_WRITE_ATTEMPTS \<le> Suc n + l \<Longrightarrow>
    stored = apply_updates ms (take l log) s0 \<Longrightarrow> (ms ! i) stored = (True, s) \<Longrightarrow>
    sess_state s = ChallengeSent \<Longrightarrow>
    upd_thread sha sid ms s0 log i
      (stage_pending_challenge_index sha s (upd_commit sha sid (ms ! i) n stored s))"
| committing: "i \<notin> set log \<Longrightarrow> l \<le> length log \<Longrightarrow> SESSION_WRITE_ATTEMPTS \<le> Suc n + l \<Longrightarrow>
    stored = apply_updates ms (take l log) s0 \<Longrightarrow> (ms ! i) stored = (True, s) \<Longrightarrow>
    index_writes staged \<Longrightarrow>
    upd_thread sha sid ms s0 log i (upd_commit sha sid (ms ! i) n stored s staged)"
| effective: "l < length log \<Longrightarrow> log ! l = i \<Longrightarrow> s = apply_updates ms (take (Suc l) log) s0 \<Longrightarrow>
    upd_thread sha sid ms s0 log i (Ret (Ok (Some s)))"
| unchanged: "l \<le> length log \<Longrightarrow> i \<notin> set log \<Longrightarrow> (ms ! i) (apply_updates ms (take l log) s0) = (False, s) \<Longrightarrow>
    upd_thread sha sid ms s0 log i (Ret (Ok (Some s)))"

text \<open>Another update taking effect keeps the state of this one valid.\<close>

lemma upd_thread_extend:
  "upd_thread sha sid ms s0 log i p \<Longrightarrow> j \<noteq> i \<Longrightarrow> upd_thread sha sid ms s0 (log @ [j]) i p"
proof (induction rule: upd_thread.induct)
  case (effective l s)
  then show ?case by (intro upd_thread.effective [of l]) (auto simp: nth_append)
next
  case (unchanged l s)
  then show ?case by (intro upd_thread.unchanged [of l]) auto
next
  case (staging l n stored s)
  then show ?case by (intro upd_thread.staging [of _ _ l]) auto
next
  case (committing l n stored s staged)
  then show ?case by (intro upd_thread.committing [of _ _ l]) auto
qed (auto intro: upd_thread.reading)

text \<open>One step of an update: either nothing takes effect, or this update does.\<close>

lemma upd_thread_step:
  fixes p :: "('a, session option) sess_prog"
  assumes "upd_thread sha sid ms s0 log i p"
    and row: "get_raw (w_ks w) (session_key sid) = Some (RSession (apply_updates ms log s0))"
  shows "\<exists>log'. (log' = log \<or> log' = log @ [i] \<and> i \<notin> set log) \<and>
    upd_thread sha sid ms s0 log' i (fst (step1 p w)) \<and>
    get_raw (w_ks (snd (step1 p w))) (session_key sid) = Some (RSession (apply_updates ms log' s0))"
  using assms(1)
proof cases
  case (reading n)
  show ?thesis
  proof (cases n)
    case 0
    then show ?thesis using reading row upd_thread.reading [of i log 0]
      by (intro exI [of _ log]) simp
  next
    case (Suc m)
    obtain b s where m: "(ms ! i) (apply_updates ms log s0) = (b, s)" by fastforce
    show ?thesis
    proof (cases b)
      case True
      have "upd_thread sha sid ms s0 log i (stage_pending_challenge_index sha s
          (upd_commit sha sid (ms ! i) m (apply_updates ms log s0) s) :: ('a, session option) sess_prog)"
      proof (cases "sess_state s = ChallengeSent")
        case True
        then show ?thesis using reading Suc m \<open>b\<close>
          by (intro upd_thread.staging [of _ _ "length log"]) simp_all
      next
        case False
        then show ?thesis using reading Suc m \<open>b\<close>
          by (simp, intro upd_thread.committing [of _ _ "length log"]) (simp_all add: index_writes_def)
      qed
      then show ?thesis using reading(1) Suc row m True
        by (intro exI [of _ log]) (simp add: step_upd_read)
    next
      case False
      then show ?thesis
        using reading Suc row m upd_thread.unchanged [of "length log" log i ms s0 s]
        by (intro exI [of _ log]) (simp add: step_upd_read)
    qed
  qed
next
  case (staging l n stored s)
  then obtain staged where st: "index_writes staged"
    "step1 p w = (upd_commit sha sid (ms ! i) n stored s staged, w\<lparr>w_seq := w_seq w + 1\<rparr>)"
    using step_upd_stage [of s] by metis
  then have "upd_thread sha sid ms s0 log i (fst (step1 p w))"
    using staging upd_thread.committing [of i log l n] by simp
  then show ?thesis using st row by (intro exI [of _ log]) simp
next
  case (committing l n stored s staged)
  obtain w' where st: "step1 p w = (if apply_updates ms log s0 = stored then Ret (Ok (Some s))
      else update_session_loop sha sid (ms ! i) n, w')"
    "get_raw (w_ks w') (session_key sid) =
      Some (RSession (if apply_updates ms log s0 = stored then s else apply_updates ms log s0))"
    using step_upd_commit [OF row committing(7)] committing(1) by metis
  show ?thesis
  proof (cases "apply_updates ms log s0 = stored")
    case True
    then have "upd_thread sha sid ms s0 (log @ [i]) i (Ret (Ok (Some s)))"
      using committing by (intro upd_thread.effective [of "length log"]) auto
    then show ?thesis using True st committing by (intro exI [of _ "log @ [i]"]) simp
  next
    case False
    then have "l \<noteq> length log" using committing by auto
    then have "upd_thread sha sid ms s0 log i (update_session_loop sha sid (ms ! i) n)"
      using committing by (intro upd_thread.reading) auto
    then show ?thesis using False st by (intro exI [of _ log]) simp
  qed
next
  case (effective l s)
  then show ?thesis using row assms(1) by (intro exI [of _ log]) simp
next
  case (unchanged l s)
  then show ?thesis using row assms(1) by (intro exI [of _ log]) simp
qed

definition upd_pool ::
    "(string \<Rightarrow> bytes) \<Rightarrow> string \<Rightarrow> (session \<Rightarrow> bool \<times> session) list \<Rightarrow> session \<Rightarrow>
     ('e, session option) sess_prog list \<times> (session_row, 'e) world \<Rightarrow> bool" where
  "upd_pool sha sid ms s0 c \<longleftrightarrow>
     (\<exists>log. distinct log \<and> set log \<subseteq> {..<length ms} \<and> length (fst c) = length ms \<and>
       get_raw (w_ks (snd c)) (session_key sid) = Some (RSession (apply_updates ms log s0)) \<and>
       (\<forall>i < length ms. upd_thread sha sid ms s0 log i (fst c ! i)))"

lemma upd_pool_step:
  assumes "upd_pool sha sid ms s0 c" and "pstep c d"
  shows "upd_pool sha sid ms s0 d"
  using assms(2)
proof (cases rule: pstep.cases)
  case (pstep_thread i ps w p' w')
  obtain log where log: "distinct log" "set log \<subseteq> {..<length ms}" "length ps = length ms"
    "get_raw (w_ks w) (session_key sid) = Some (RSession (apply_updates ms log s0))"
    "\<forall>i < length ms. upd_thread sha sid ms s0 log i (ps ! i)"
    using assms(1) pstep_thread(1) by (auto simp: upd_pool_def)
  have i: "i < length ms" using log(3) pstep_thread(3) by simp
  obtain log' where log': "log' = log \<or> log' = log @ [i] \<and> i \<notin> set log"
    "upd_thread sha sid ms s0 log' i p'"
    "get_raw (w_ks w') (session_key sid) = Some (RSession (apply_updates ms log' s0))"
    using upd_thread_step [OF log(5) [rule_format, OF i] log(4)] pstep_thread(4) by auto
  have "upd_thread sha sid ms s0 log' j (ps[i := p'] ! j)" if "j < length ms" for j
  proof (cases "j = i")
    case False
    then show ?thesis using log'(1) log(5) that upd_thread_extend [of sha sid ms s0 log j _ i] by auto
  qed (use log' log(3) i in simp)
  moreover have "distinct log'" "set log' \<subseteq> {..<length ms}" using log'(1) log(1,2) i by auto
  ultimately show ?thesis using log' log(3) pstep_thread(2) unfolding upd_pool_def
    by (intro exI [of _ log']) simp
next
  case (pstep_tick w t ps)
  then show ?thesis using assms(1) by (simp add: upd_pool_def)
qed

lemma update_session_loop_Ret:
  "update_session_loop sha sid m n = Ret r \<longleftrightarrow> n = 0 \<and> r = Err Conflict"
  by (cases n) (auto simp: update_session_loop.simps)

lemma upd_thread_Ret:
  assumes "upd_thread sha sid ms s0 log i (Ret r)"
  shows "(\<exists>l < length log. log ! l = i \<and> r = Ok (Some (apply_updates ms (take (Suc l) log) s0))) \<or>
    (\<exists>l \<le> length log. \<exists>s. (ms ! i) (apply_updates ms (take l log) s0) = (False, s) \<and>
       i \<notin> set log \<and> r = Ok (Some s)) \<or>
    r = Err Conflict \<and> i \<notin> set log \<and> SESSION_WRITE_ATTEMPTS \<le> length log"
  using assms
proof cases
  case (reading n)
  then have "n = 0 \<and> r = Err Conflict" by (metis update_session_loop_Ret)
  then show ?thesis using reading by simp
qed (auto simp: stage_pending_challenge_index_def upd_commit_def apply_batchE_def)

text \<open>C4: any number of requests update one session concurrently, in any interleaving of their
  store operations.  The row is then always the result of applying the updates that took effect one
  after the other, each at most once and each to the row the one before it left, so no change is
  lost or overwritten by a stale copy.  An update that returns a session took effect, and returns
  the row it wrote, or it found nothing to change.  It gives up with a conflict only when sixty-four
  others took effect, so with at most sixty-four requests none fails.\<close>

theorem session_updates_linearizable:
  assumes "get_raw (w_ks w) (session_key sid) = Some (RSession s0)"
    and "reach (map (update_session_with sha sid) ms, w) (ps, w')"
  shows "\<exists>log. distinct log \<and> set log \<subseteq> {..<length ms} \<and>
    get_raw (w_ks w') (session_key sid) = Some (RSession (apply_updates ms log s0)) \<and>
    (\<forall>i < length ms. \<forall>r. ps ! i = Ret r \<longrightarrow>
       (\<exists>l < length log. log ! l = i \<and> r = Ok (Some (apply_updates ms (take (Suc l) log) s0))) \<or>
       (\<exists>l \<le> length log. \<exists>s. (ms ! i) (apply_updates ms (take l log) s0) = (False, s) \<and>
          r = Ok (Some s)) \<or>
       r = Err Conflict \<and> SESSION_WRITE_ATTEMPTS \<le> length log \<and>
         SESSION_WRITE_ATTEMPTS < length ms)"
proof -
  have "upd_pool sha sid ms s0 (map (update_session_with sha sid) ms, w)"
    using assms(1) by (auto simp: upd_pool_def apply_updates_def update_session_with_def
        intro!: exI [of _ "[]"] upd_thread.reading)
  then have "upd_pool sha sid ms s0 (ps, w')"
    using reach_invariant [OF assms(2), of "upd_pool sha sid ms s0"] upd_pool_step by blast
  then obtain log where log: "distinct log" "set log \<subseteq> {..<length ms}"
    "get_raw (w_ks w') (session_key sid) = Some (RSession (apply_updates ms log s0))"
    "\<And>i. i < length ms \<Longrightarrow> upd_thread sha sid ms s0 log i (ps ! i)"
    by (auto simp: upd_pool_def)
  have full: "length log < length ms" if "i < length ms" "i \<notin> set log" for i
    using that log(1,2) psubset_card_mono [of "{..<length ms}" "set log"] distinct_card [of log]
    by auto
  show ?thesis
  proof (intro exI [of _ log] conjI allI impI log(1-3))
    fix i r assume "i < length ms" "ps ! i = Ret r"
    then show "(\<exists>l < length log. log ! l = i \<and> r = Ok (Some (apply_updates ms (take (Suc l) log) s0))) \<or>
       (\<exists>l \<le> length log. \<exists>s. (ms ! i) (apply_updates ms (take l log) s0) = (False, s) \<and>
          r = Ok (Some s)) \<or>
       r = Err Conflict \<and> SESSION_WRITE_ATTEMPTS \<le> length log \<and> SESSION_WRITE_ATTEMPTS < length ms"
      using log(4) [of i] full [of i] upd_thread_Ret [of sha sid ms s0 log i r] by fastforce
  qed
qed

definition example_sha :: "string \<Rightarrow> bytes" where
  "example_sha s = map (\<lambda>c. word_of_nat (of_char c)) s"

definition example_session :: session where
  "example_session = intrinsic_session ''did:key:z1'' 100"

definition example_session_world :: "(session_row, string) world" where
  "example_session_world =
     \<lparr> w_ks = [(session_key ''did:key:z1'', RSession example_session)], w_now = 1000,
       w_supply = (\<lambda>n. ''tok'' @ replicate n CHR ''x''), w_drawn = 0, w_seq = 0, w_log = [] \<rparr>"

definition example_updates :: "(session \<Rightarrow> bool \<times> session) list" where
  "example_updates = [\<lambda>s. (True, s\<lparr>acr := ''aal2''\<rparr>), \<lambda>s. (True, s\<lparr>last_seen := 1000\<rparr>)]"

definition example_update_pool ::
    "(string, session option) sess_prog list \<times> (session_row, string) world" where
  "example_update_pool = run_schedule [0, 1, 0, 1, 1, 1]
     (map (update_session_with example_sha ''did:key:z1'') example_updates, example_session_world)"

theorem session_updates_linearizable_witness:
  "get_raw (w_ks example_session_world) (session_key ''did:key:z1'') = Some (RSession example_session) \<and>
   reach (map (update_session_with example_sha ''did:key:z1'') example_updates, example_session_world)
     example_update_pool \<and>
   (\<exists>log. distinct log \<and> set log \<subseteq> {..<2} \<and>
     get_raw (w_ks (snd example_update_pool)) (session_key ''did:key:z1'') =
       Some (RSession (apply_updates example_updates log example_session)))"
proof -
  have row: "get_raw (w_ks example_session_world) (session_key ''did:key:z1'') =
      Some (RSession example_session)"
    by (simp add: example_session_world_def get_raw_def)
  have reach: "reach (map (update_session_with example_sha ''did:key:z1'') example_updates,
      example_session_world) example_update_pool"
    unfolding example_update_pool_def by (rule run_schedule_reach)
  show ?thesis
    using row reach session_updates_linearizable [OF row, of example_sha example_updates
        "fst example_update_pool" "snd example_update_pool"]
    by (auto simp: example_updates_def lessThan_nat_numeral lessThan_Suc)
qed

section \<open>Sign-out\<close>

lemma index_writes_intros [simp]:
  "index_writes []" "index_writes [Put (pending_challenge_key sha d i) v]"
  by (auto simp: index_writes_def)

lemma index_writes_no_session: "index_writes staged \<Longrightarrow> Put (session_key a) v \<notin> set staged"
  by (auto simp: index_writes_def)

lemma keeps_absent_stage:
  "(\<And>staged. index_writes staged \<Longrightarrow> keeps_absent A k (cont staged)) \<Longrightarrow>
   keeps_absent A k (stage_pending_challenge_index sha s cont)"
  by (simp add: stage_pending_challenge_index_def)

lemma keeps_absent_upd_commit:
  assumes "keeps_absent A (session_key a) (update_session_loop sha b m n :: ('e, session option) sess_prog)"
    and "index_writes staged"
  shows "keeps_absent A (session_key a)
    (upd_commit sha b m n stored s staged :: ('e, session option) sess_prog)"
  using assms unfolding upd_commit_def
  by (intro keeps_absent_bndE)
    (auto simp: apply_batchE_def batch_may_create_def index_writes_no_session)

lemma keeps_absent_update_loop: "keeps_absent A (session_key a) (update_session_loop sha b m n)"
proof (induction n)
  case (Suc n)
  then show ?case
    by (auto simp: update_session_loop.simps(2)
        intro!: keeps_absent_stage keeps_absent_upd_commit [unfolded upd_commit_def]
        split: option.splits session_row.splits prod.splits bool.splits)
qed simp

lemma keeps_absent_touch: "keeps_absent A (session_key a) (touch_last_seen s now)"
  by (auto simp: touch_last_seen_def apply_batchE_def batch_may_create_def
      intro!: keeps_absent_bndE split: option.splits session_row.splits)

lemma removal_no_put: "Put k v \<notin> set (stage_session_removal sha s)"
  by (auto simp: stage_session_removal_def split: option.splits)

lemma keeps_absent_delete_session: "keeps_absent A k (delete_session sha sid)"
  unfolding delete_session_def
  by (intro keeps_absent_bndE)
    (auto simp: get_session_def apply_batchE_def batch_may_create_def removal_no_put
      intro!: keeps_absent_bndE split: option.splits)

lemma keeps_absent_take_session: "keeps_absent A k (take_session sha sid)"
  by (auto simp: take_session_def split: option.splits session_row.splits)

lemma keeps_absent_sweep_rows: "keeps_absent A k (sweep_rows sha ttl now es live)"
  by (induction es arbitrary: live)
    (auto simp: apply_batchE_def batch_may_create_def removal_no_put
      intro!: keeps_absent_bndE split: session_row.splits)

lemma keeps_absent_sweep_entries:
  "keeps_absent A k (sweep_refresh_entry sha e)" "keeps_absent A k (sweep_current_entry e)"
  "keeps_absent A k (sweep_pending_entry ttl now e)" "keeps_absent A k (sweep_nonce_entry live e)"
  "keeps_absent A k (sweep_tombstone now e)"
  by (auto simp: sweep_refresh_entry_def sweep_current_entry_def sweep_pending_entry_def
      sweep_nonce_entry_def sweep_tombstone_def get_session_def current_refresh_hash_def
      intro!: keeps_absent_bndE split: session_row.splits option.splits)

lemma keeps_absent_cleanup: "keeps_absent A k (cleanup_expired_sessions sha ttl)"
  by (auto simp: cleanup_expired_sessions_def cleanup_indexes_def
      intro!: keeps_absent_bndE keeps_absent_forE keeps_absent_sweep_rows keeps_absent_sweep_entries)

text \<open>The requests that change existing sessions: activity, conditional updates, redemption of a
  challenge, sign-out and the sweep.\<close>

datatype session_writer =
    Touch session u64
  | Update string "session \<Rightarrow> bool \<times> session"
  | Redeem string
  | SignOut string
  | Sweep u64

primrec writer_prog :: "(string \<Rightarrow> bytes) \<Rightarrow> session_writer \<Rightarrow> (session_row, 'e, unit) prog" where
  "writer_prog sha (Touch s now) = bnd (touch_last_seen s now) (\<lambda>_. Ret ())"
| "writer_prog sha (Update sid modify) = bnd (update_session_with sha sid modify) (\<lambda>_. Ret ())"
| "writer_prog sha (Redeem sid) = bnd (take_session sha sid) (\<lambda>_. Ret ())"
| "writer_prog sha (SignOut sid) = bnd (delete_session sha sid) (\<lambda>_. Ret ())"
| "writer_prog sha (Sweep ttl) = bnd (cleanup_expired_sessions sha ttl) (\<lambda>_. Ret ())"

lemma keeps_absent_writer: "keeps_absent A (session_key a) (writer_prog sha x)"
  by (cases x)
    (auto simp: update_session_with_def
      intro!: keeps_absent_bnd keeps_absent_touch keeps_absent_update_loop keeps_absent_take_session
        keeps_absent_delete_session keeps_absent_cleanup)

text \<open>C5: a session that was signed out stays signed out.  Whatever activity touches, conditional
  updates, challenge redemptions, sign-outs and sweeps run concurrently, and however far each of
  them had read before, once the row is gone no interleaving of the rest writes it back.\<close>

theorem signed_out_stays_out:
  assumes "reach (map (writer_prog sha) ws, w) (ps, w1)"
    and "get_raw (w_ks w1) (session_key sid) = None"
    and "reach (ps, w1) (qs, w2)"
  shows "get_raw (w_ks w2) (session_key sid) = None"
proof -
  have "pool_keeps_absent UNIV (session_key sid) (map (writer_prog sha) ws, w)"
    by (auto simp: pool_keeps_absent_def keeps_absent_writer)
  then have "pool_keeps_absent UNIV (session_key sid) (ps, w1)"
    by (rule pool_keeps_absent_reach [OF assms(1)])
  then show ?thesis using pool_absent_forever [OF assms(3)] assms(2) by force
qed

definition example_session_writers :: "session_writer list" where
  "example_session_writers = [Touch example_session 1000, SignOut ''did:key:z1'']"

definition example_signed_out :: "(session_row, string, unit) prog list \<times> (session_row, string) world" where
  "example_signed_out = run_schedule [0, 1, 1]
     (map (writer_prog example_sha) example_session_writers, example_session_world)"

theorem signed_out_stays_out_witness:
  "get_raw (w_ks (snd example_signed_out)) (session_key ''did:key:z1'') = None \<and>
   get_raw (w_ks (snd (run_schedule [0] example_signed_out))) (session_key ''did:key:z1'') = None"
proof -
  have r: "reach (map (writer_prog example_sha) example_session_writers, example_session_world)
      (fst example_signed_out, snd example_signed_out)"
    unfolding example_signed_out_def prod.collapse by (rule run_schedule_reach)
  have gone: "get_raw (w_ks (snd example_signed_out)) (session_key ''did:key:z1'') = None"
    by code_simp
  have "reach (fst example_signed_out, snd example_signed_out)
      (fst (run_schedule [0] example_signed_out), snd (run_schedule [0] example_signed_out))"
    unfolding prod.collapse by (rule run_schedule_reach)
  from signed_out_stays_out [OF r gone this] gone show ?thesis by blast
qed

end
