(* ===== verification/Session_Sweep.thy ===== *)
theory Session_Sweep
  imports Session_Writers
begin

text \<open>
  What the expiry sweep of \<open>vti-common/src/auth/session.rs\<close> removes and what it keeps.
\<close>

section \<open>The sweep\<close>

text \<open>Rows stand under the key of the session they describe.\<close>

definition sessions_wf :: "(string, session_row) keyspace \<Rightarrow> bool" where
  "sessions_wf ks \<longleftrightarrow> (\<forall>sid s. get_raw ks (session_key sid) = Some (RSession s) \<longrightarrow> session_id s = sid)"

definition removal_keys :: "(string \<Rightarrow> bytes) \<Rightarrow> session \<Rightarrow> string set" where
  "removal_keys sha s = write_key ` set (stage_session_removal sha s)"

lemma removal_keys_eq:
  "removal_keys sha s = {refresh_key sha t |t. refresh_token s = Some t} \<union>
     {current_refresh_key (session_id s), pending_challenge_key sha (sess_did s) (session_id s),
      session_key (session_id s)}"
  by (auto simp: removal_keys_def stage_session_removal_def split: option.splits)

lemma removal_distinct: "distinct (map write_key (stage_session_removal sha s))"
  by (auto simp: stage_session_removal_def split: option.splits)

lemma apply_removal:
  assumes "get_raw ks (session_key (session_id s)) = Some (RSession s)"
  shows "\<exists>ks'. apply_batch \<lparr>checks = [Unchanged (session_key (session_id s)) (RSession s)],
      writes = stage_session_removal sha s\<rparr> ks = (Ok Applied, ks') \<and>
    (\<forall>k. get_raw ks' k = (if k \<in> removal_keys sha s then None else get_raw ks k))"
proof -
  let ?b = "\<lparr>checks = [Unchanged (session_key (session_id s)) (RSession s)],
    writes = stage_session_removal sha s\<rparr>"
  have v: "batch_validate ?b = Ok ()" by (simp add: batch_validate_iff removal_distinct)
  then have "apply_batch ?b ks = (Ok Applied, fold apply_write (stage_session_removal sha s) ks)"
    using assms by (simp add: apply_batch_def)
  moreover have "get_raw (fold apply_write (stage_session_removal sha s) ks) k =
      (if k \<in> removal_keys sha s then None else get_raw ks k)" for k
    by (auto simp: removal_keys_def stage_session_removal_def split: option.splits)
  ultimately show ?thesis by blast
qed

definition swept_keys :: "(string \<Rightarrow> bytes) \<Rightarrow> u64 \<Rightarrow> u64 \<Rightarrow> (string \<times> session_row) list \<Rightarrow> string set" where
  "swept_keys sha ttl now es =
     (\<Union>s \<in> {s. \<exists>k. (k, RSession s) \<in> set es \<and> session_expired ttl now s}. removal_keys sha s)"

text \<open>The entries of one scan of well-placed rows, none of which has changed since.\<close>

definition scanned :: "(string, session_row) keyspace \<Rightarrow> (string \<times> session_row) list \<Rightarrow> bool" where
  "scanned ks es \<longleftrightarrow> distinct (map fst es) \<and>
     (\<forall>k v. (k, v) \<in> set es \<longrightarrow> get_raw ks k = Some v) \<and>
     (\<forall>k s. (k, RSession s) \<in> set es \<longrightarrow> k = session_key (session_id s)) \<and>
     (\<forall>k v. (k, v) \<in> set es \<longrightarrow> prefix ''session:'' k)"

lemma session_key_prefix: "prefix ''session:'' k \<Longrightarrow> \<exists>sid. k = session_key sid"
  by (auto simp: session_key_def prefix_def)

lemma prefix_session_key: "prefix ''session:'' (session_key sid)"
  by (simp add: session_key_def)

lemma scanned_Cons: "scanned ks (e # es) \<Longrightarrow> scanned ks es"
  unfolding scanned_def by (simp del: split_paired_All)

lemma scanned_tail:
  assumes "scanned ks ((session_key (session_id s), RSession s) # es)"
    and "\<forall>k. get_raw ks' k = (if k \<in> removal_keys sha s then None else get_raw ks k)"
  shows "scanned ks' es"
proof -
  have "k \<notin> removal_keys sha s" if "(k, v) \<in> set es" for k v
  proof -
    have "prefix ''session:'' k" using assms(1) that unfolding scanned_def
      by (meson list.set_intros(2))
    then obtain sid where "k = session_key sid" using session_key_prefix by blast
    moreover have "k \<noteq> session_key (session_id s)"
      using assms(1) that by (auto simp: scanned_def image_iff)
    ultimately show ?thesis by (auto simp: removal_keys_eq)
  qed
  then have "(k, v) \<in> set es \<Longrightarrow> get_raw ks' k = get_raw ks k" for k v using assms(2) by auto
  then show ?thesis using scanned_Cons [OF assms(1)] unfolding scanned_def by metis
qed

lemma swept_keys_Cons:
  "swept_keys sha ttl now ((k, v) # es) =
     (case v of RSession s \<Rightarrow> if session_expired ttl now s then removal_keys sha s else {} | _ \<Rightarrow> {}) \<union>
     swept_keys sha ttl now es"
  by (auto simp: swept_keys_def split: session_row.splits)

lemma run_sweep_rows:
  "scanned (w_ks w) es \<Longrightarrow> \<exists>live' w'. run (sweep_rows sha ttl now es live) w = (Ok live', w') \<and>
     (\<forall>k. get_raw (w_ks w') k =
        (if k \<in> swept_keys sha ttl now es then None else get_raw (w_ks w) k))"
proof (induction es arbitrary: w live)
  case (Cons e es)
  obtain k v where e: "e = (k, v)" by force
  show ?case
  proof (cases "\<exists>s. v = RSession s \<and> session_expired ttl now s")
    case True
    then obtain s where s: "v = RSession s" "session_expired ttl now s" by blast
    then have k: "k = session_key (session_id s)" "get_raw (w_ks w) k = Some (RSession s)"
      using Cons.prems e by (auto simp: scanned_def)
    then obtain ks' where ks': "apply_batch \<lparr>checks = [Unchanged k (RSession s)],
        writes = stage_session_removal sha s\<rparr> (w_ks w) = (Ok Applied, ks')"
      "\<forall>k. get_raw ks' k = (if k \<in> removal_keys sha s then None else get_raw (w_ks w) k)"
      using apply_removal [of "w_ks w" s sha] by blast
    then have "scanned ks' es" using Cons.prems e s k scanned_tail by metis
    then obtain live' w' where run: "run (sweep_rows sha ttl now es live) (w\<lparr>w_ks := ks'\<rparr>) = (Ok live', w')"
      "\<forall>k. get_raw (w_ks w') k = (if k \<in> swept_keys sha ttl now es then None else get_raw ks' k)"
      using Cons.IH [of "w\<lparr>w_ks := ks'\<rparr>" live] by auto
    have "run (sweep_rows sha ttl now (e # es) live) w = (Ok live', w')"
      using run(1) ks'(1) e s by (simp add: apply_batchE_def run_simps is_applied_def)
    moreover have "swept_keys sha ttl now (e # es) = removal_keys sha s \<union> swept_keys sha ttl now es"
      using e s by (simp add: swept_keys_Cons)
    ultimately show ?thesis using run(2) ks'(2) by simp
  next
    case False
    then have "swept_keys sha ttl now (e # es) = swept_keys sha ttl now es"
      by (auto simp: e swept_keys_Cons split: session_row.splits)
    moreover have "\<exists>live2. sweep_rows sha ttl now (e # es) live = sweep_rows sha ttl now es live2"
      using False e by (cases v) auto
    ultimately show ?thesis using Cons.IH [OF scanned_Cons [OF Cons.prems]] by metis
  qed
qed (simp add: swept_keys_def)

lemma scan_scanned:
  assumes "ks_ordered ks" and "sessions_wf ks"
  shows "scanned ks (prefix_iter_raw ''session:'' ks)"
proof -
  have "distinct (map fst (prefix_iter_raw ''session:'' ks))"
    using ordered_distinct [OF assms(1)] by (simp add: prefix_iter_raw_def distinct_map_filter)
  then show ?thesis using assms
    by (auto simp: scanned_def prefix_iter_raw_mem sessions_wf_def dest!: session_key_prefix)
qed

lemma swept_keys_scan:
  assumes "ks_ordered ks" and "sessions_wf ks"
  shows "swept_keys sha ttl now (prefix_iter_raw ''session:'' ks) =
    (\<Union>s \<in> {s. \<exists>sid. get_raw ks (session_key sid) = Some (RSession s) \<and> session_expired ttl now s}.
      removal_keys sha s)"
proof -
  have "(\<exists>k. (k, RSession s) \<in> set (prefix_iter_raw ''session:'' ks) \<and> session_expired ttl now s) \<longleftrightarrow>
      (\<exists>sid. get_raw ks (session_key sid) = Some (RSession s) \<and> session_expired ttl now s)" for s
    using assms(1) session_key_prefix prefix_session_key by (simp add: prefix_iter_raw_mem) blast
  then show ?thesis by (simp add: swept_keys_def)
qed

text \<open>The later passes remove entries under their own prefixes only.\<close>

lemma preserves_sweep_entry:
  assumes "fst e \<noteq> k"
  shows "preserves k (sweep_refresh_entry sha e)" "preserves k (sweep_current_entry e)"
    "preserves k (sweep_pending_entry ttl now e)" "preserves k (sweep_nonce_entry live e)"
    "preserves k (sweep_tombstone now e)"
  using assms
  by (auto simp: sweep_refresh_entry_def sweep_current_entry_def sweep_pending_entry_def
      sweep_nonce_entry_def sweep_tombstone_def get_session_def current_refresh_hash_def
      intro!: preserves_Remove preserves_Get preserves_bndE split: session_row.splits option.splits)

lemma preserves_sweep_pass:
  assumes "\<not> prefix p k" and "\<And>e. fst e \<noteq> k \<Longrightarrow> preserves k (f e)"
    and "\<And>r. preserves k (c r)"
  shows "preserves k (PrefixIter p (\<lambda>es. bndE (forE f es) c))"
  using assms by (intro preserves_PrefixIter preserves_bndE preserves_forE) auto

lemma preserves_cleanup_indexes:
  assumes "\<not> prefix ''refresh:'' k" "\<not> prefix ''refresh-current:'' k" "\<not> prefix ''pending-challenge:'' k"
    "\<not> prefix ''nonce:'' k" "\<not> prefix ''rotated:'' k"
  shows "preserves k (cleanup_indexes sha ttl now live)"
proof -
  have "preserves k (PrefixIter ''rotated:'' (forE (sweep_tombstone now)))"
    using assms by (intro preserves_PrefixIter preserves_forE preserves_sweep_entry) auto
  then show ?thesis using assms unfolding cleanup_indexes_def
    by (intro preserves_sweep_pass preserves_sweep_entry) auto
qed

lemma ordered_apply_batchE: "stable (\<lambda>w. ks_ordered (w_ks w)) (apply_batchE b)"
  by (simp add: apply_batchE_def stable_def ordered_apply_batch)

lemma ordered_sweep_rows: "stable (\<lambda>w. ks_ordered (w_ks w)) (sweep_rows sha ttl now es live)"
proof (induction es arbitrary: live)
  case (Cons e es)
  then show ?case
    by (auto intro!: stable_bndE ordered_apply_batchE split: session_row.splits)
qed simp

lemma run_cleanup:
  assumes "ks_ordered (w_ks w)" and "sessions_wf (w_ks w)"
  shows "\<exists>live w1. run (cleanup_expired_sessions sha ttl) w = run (cleanup_indexes sha ttl (w_now w) live) w1 \<and>
    ks_ordered (w_ks w1) \<and>
    (\<forall>k. get_raw (w_ks w1) k =
      (if k \<in> swept_keys sha ttl (w_now w) (prefix_iter_raw ''session:'' (w_ks w)) then None
       else get_raw (w_ks w) k))"
proof -
  obtain live w1 where w1: "run (sweep_rows sha ttl (w_now w) (prefix_iter_raw ''session:'' (w_ks w)) {}) w = (Ok live, w1)"
    "\<forall>k. get_raw (w_ks w1) k =
      (if k \<in> swept_keys sha ttl (w_now w) (prefix_iter_raw ''session:'' (w_ks w)) then None
       else get_raw (w_ks w) k)"
    using run_sweep_rows [OF scan_scanned [OF assms], of sha ttl "w_now w" "{}"] by blast
  moreover have "ks_ordered (w_ks w1)"
    using stableD [OF ordered_sweep_rows assms(1)] w1(1) by (metis snd_conv)
  ultimately show ?thesis
    by (intro exI [of _ live] exI [of _ w1]) (simp add: cleanup_expired_sessions_def run_simps)
qed

text \<open>The sweep removes the rows of the expired sessions and of no others, and leaves every
  other row as it is, whatever the later passes over the indexes find.\<close>

theorem sweep_removes_expired_only:
  assumes "ks_ordered (w_ks w)" and "sessions_wf (w_ks w)"
  shows "get_raw (w_ks (world_after (cleanup_expired_sessions sha ttl) w)) (session_key sid) =
    (case get_raw (w_ks w) (session_key sid) of
       Some (RSession s) \<Rightarrow> if session_expired ttl (w_now w) s then None else Some (RSession s)
     | r \<Rightarrow> r)"
proof -
  obtain live w1 where w1: "run (cleanup_expired_sessions sha ttl) w = run (cleanup_indexes sha ttl (w_now w) live) w1"
    "\<forall>k. get_raw (w_ks w1) k =
      (if k \<in> swept_keys sha ttl (w_now w) (prefix_iter_raw ''session:'' (w_ks w)) then None
       else get_raw (w_ks w) k)"
    using run_cleanup [OF assms] by blast
  have "get_raw (w_ks (world_after (cleanup_expired_sessions sha ttl) w)) (session_key sid) =
      get_raw (w_ks w1) (session_key sid)"
    unfolding world_after_def w1(1)
    by (intro preservesD preserves_cleanup_indexes) (simp_all add: session_key_def)
  moreover have "session_key sid \<in> swept_keys sha ttl (w_now w) (prefix_iter_raw ''session:'' (w_ks w)) \<longleftrightarrow>
      (\<exists>s. get_raw (w_ks w) (session_key sid) = Some (RSession s) \<and> session_expired ttl (w_now w) s)"
    using assms(2) by (auto simp: swept_keys_scan [OF assms] removal_keys_eq sessions_wf_def)
  ultimately show ?thesis using w1(2) by (auto split: option.splits session_row.splits)
qed

definition example_sweep_world :: "(session_row, string) world" where
  "example_sweep_world = example_session_world
     \<lparr>w_ks := [(session_key ''a'', RSession (example_session\<lparr>session_id := ''a'', sess_state := ChallengeSent\<rparr>)),
               (session_key ''did:key:z1'', RSession example_session)]\<rparr>"

theorem sweep_removes_expired_only_witness:
  "ks_ordered (w_ks example_sweep_world) \<and> sessions_wf (w_ks example_sweep_world) \<and>
   get_raw (w_ks (world_after (cleanup_expired_sessions example_sha 300) example_sweep_world))
     (session_key ''a'') = None \<and>
   get_raw (w_ks (world_after (cleanup_expired_sessions example_sha 300) example_sweep_world))
     (session_key ''did:key:z1'') = Some (RSession example_session)"
proof -
  have ord: "ks_ordered (w_ks example_sweep_world)"
    by (simp add: example_sweep_world_def ks_ordered_def session_key_def)
  have wf: "sessions_wf (w_ks example_sweep_world)"
    by (auto simp: sessions_wf_def example_sweep_world_def get_raw_def example_session_def
        intrinsic_session_def split: if_splits)
  show ?thesis
    using ord wf sweep_removes_expired_only [OF ord wf, of example_sha 300 "''a''"]
      sweep_removes_expired_only [OF ord wf, of example_sha 300 "''did:key:z1''"]
    by (simp add: example_sweep_world_def example_session_world_def get_raw_def session_expired_def
        example_session_def intrinsic_session_def INTRINSIC_SESSION_IDLE_TTL_SECS_def sat_sub_def)
qed

text \<open>What a client that can renew its session relies on: its row, the record of its current token
  and the index entry of that token.\<close>

definition renewable :: "(string \<Rightarrow> bytes) \<Rightarrow> string \<Rightarrow> string \<Rightarrow> session \<Rightarrow> (session_row, 'e) world \<Rightarrow> bool" where
  "renewable sha sid token s w \<longleftrightarrow>
     ks_ordered (w_ks w) \<and> get_raw (w_ks w) (session_key sid) = Some (RSession s) \<and>
     get_raw (w_ks w) (current_refresh_key sid) = Some (RText (refresh_token_hash sha token)) \<and>
     get_raw (w_ks w) (refresh_key sha token) = Some (RText sid)"

lemma renewable_remove:
  "k \<notin> {session_key sid, current_refresh_key sid, refresh_key sha token} \<Longrightarrow>
   stable (renewable sha sid token s) (Remove k (Ret r))"
  by (auto simp: stable_def renewable_def ordered_remove)

lemma renewable_refresh_entry:
  assumes "fst e = refresh_key sha token \<Longrightarrow> snd e = RText sid" and "prefix ''refresh:'' (fst e)"
  shows "stable (renewable sha sid token s) (sweep_refresh_entry sha e)"
proof (cases "fst e = refresh_key sha token")
  case True
  then show ?thesis using assms(1)
    by (simp add: sweep_refresh_entry_def stable_def run_simps get_session_def current_refresh_hash_def
        renewable_def as_session_def as_text_def refresh_key_def)
next
  case False
  moreover have "fst e \<noteq> session_key sid" "fst e \<noteq> current_refresh_key sid"
    using assms(2) by (auto simp: key_defs)
  ultimately have "stable (renewable sha sid token s) (Remove (fst e) (Ret r))" for r
    by (intro renewable_remove) auto
  then show ?thesis
    by (auto simp: sweep_refresh_entry_def get_session_def current_refresh_hash_def
        intro!: stable_bndE stable_Get split: session_row.splits option.splits)
qed

lemma renewable_current_entry:
  assumes "prefix ''refresh-current:'' (fst e)"
  shows "stable (renewable sha sid token s) (sweep_current_entry e)"
proof -
  obtain i where i: "strip_prefix ''refresh-current:'' (fst e) = Some i" "fst e = current_refresh_key i"
    using assms by (auto simp: prefix_def current_refresh_key_def)
  show ?thesis
  proof (cases "i = sid")
    case True
    then show ?thesis using i by (simp add: sweep_current_entry_def stable_def renewable_def)
  next
    case False
    then have "stable (renewable sha sid token s) (Remove (fst e) (Ret r))" for r
      using i by (intro renewable_remove) auto
    then show ?thesis using i(1) by (auto simp: sweep_current_entry_def intro!: stable_Get)
  qed
qed

lemma renewable_other_entries:
  assumes "list_ex (\<lambda>p. prefix p (fst e)) [''pending-challenge:'', ''nonce:'', ''rotated:'']"
  shows "stable (renewable sha sid token s) (sweep_pending_entry ttl now e)"
    "stable (renewable sha sid token s) (sweep_nonce_entry live e)"
    "stable (renewable sha sid token s) (sweep_tombstone now e)"
proof -
  have "stable (renewable sha sid token s) (Remove (fst e) (Ret r))" for r
    using assms by (intro renewable_remove) (auto simp: key_defs)
  then show "stable (renewable sha sid token s) (sweep_pending_entry ttl now e)"
    "stable (renewable sha sid token s) (sweep_nonce_entry live e)"
    "stable (renewable sha sid token s) (sweep_tombstone now e)"
    by (auto simp: sweep_pending_entry_def sweep_nonce_entry_def sweep_tombstone_def split: session_row.splits)
qed

lemma prefix_iter_prefix: "e \<in> set (prefix_iter_raw p ks) \<Longrightarrow> prefix p (fst e)"
  by (auto simp: prefix_iter_raw_def)

lemma renewable_cleanup_indexes: "stable (renewable sha sid token s) (cleanup_indexes sha ttl now live)"
proof -
  have refresh: "stable (renewable sha sid token s) (forE (sweep_refresh_entry sha) (prefix_iter_raw ''refresh:'' (w_ks w)))"
    if "renewable sha sid token s w" for w :: "(session_row, 'e) world"
  proof (rule stable_forE)
    fix e assume e: "e \<in> set (prefix_iter_raw ''refresh:'' (w_ks w))"
    then have "get_raw (w_ks w) (fst e) = Some (snd e)"
      using that prefix_iter_raw_mem [of "w_ks w" "fst e" "snd e"] by (simp add: renewable_def)
    then show "stable (renewable sha sid token s) (sweep_refresh_entry sha e)"
      using that prefix_iter_prefix [OF e] by (intro renewable_refresh_entry) (auto simp: renewable_def)
  qed
  show ?thesis unfolding cleanup_indexes_def
    by (intro stable_PrefixIter stable_bndE refresh stable_forE renewable_current_entry renewable_other_entries)
      (auto dest: prefix_iter_prefix)
qed

text \<open>The sweep never takes away a client's means of renewing its session: while the session is
  not expired, its row, the record of its current refresh token and the index entry of that token
  all survive, provided no expired session names the same token.\<close>

theorem sweep_keeps_renewable:
  assumes "renewable sha sid token s w" and "sessions_wf (w_ks w)"
    and "\<not> session_expired ttl (w_now w) s"
    and "\<forall>i x t. get_raw (w_ks w) (session_key i) = Some (RSession x) \<and> session_expired ttl (w_now w) x \<and>
           refresh_token x = Some t \<longrightarrow> sha t \<noteq> sha token"
  shows "renewable sha sid token s (world_after (cleanup_expired_sessions sha ttl) w)"
proof -
  have ord: "ks_ordered (w_ks w)" using assms(1) by (simp add: renewable_def)
  let ?swept = "swept_keys sha ttl (w_now w) (prefix_iter_raw ''session:'' (w_ks w))"
  obtain live w1 where w1: "run (cleanup_expired_sessions sha ttl) w = run (cleanup_indexes sha ttl (w_now w) live) w1"
    "ks_ordered (w_ks w1)" "\<forall>k. get_raw (w_ks w1) k = (if k \<in> ?swept then None else get_raw (w_ks w) k)"
    using run_cleanup [OF ord assms(2)] by blast
  have "session_key sid \<notin> ?swept" "current_refresh_key sid \<notin> ?swept"
    using assms by (auto simp: swept_keys_scan [OF ord assms(2)] removal_keys_eq sessions_wf_def renewable_def)
  moreover have "refresh_key sha token \<notin> ?swept"
    using assms(4) by (simp add: swept_keys_scan [OF ord assms(2)] removal_keys_eq) metis
  ultimately have "renewable sha sid token s w1" using w1(2,3) assms(1) by (simp add: renewable_def)
  then show ?thesis using stableD [OF renewable_cleanup_indexes] w1(1) by (simp add: world_after_def)
qed

definition example_renewable_session :: session where
  "example_renewable_session =
     example_session\<lparr>refresh_token := Some ''tok'', refresh_expires_at := Some 2000\<rparr>"

definition example_renewable_world :: "(session_row, string) world" where
  "example_renewable_world = example_session_world
     \<lparr>w_ks := [(current_refresh_key ''did:key:z1'', RText (refresh_token_hash example_sha ''tok'')),
               (refresh_key example_sha ''tok'', RText ''did:key:z1''),
               (session_key ''did:key:z1'', RSession example_renewable_session)]\<rparr>"

theorem sweep_keeps_renewable_witness:
  "renewable example_sha ''did:key:z1'' ''tok'' example_renewable_session
     (world_after (cleanup_expired_sessions example_sha 300) example_renewable_world)"
proof -
  have live: "\<not> session_expired 300 (w_now example_renewable_world) example_renewable_session"
    by (simp add: example_renewable_session_def example_renewable_world_def example_session_world_def
        session_expired_def example_session_def intrinsic_session_def)
  have rows: "get_raw (w_ks example_renewable_world) (session_key i) = Some (RSession x) \<Longrightarrow>
      i = ''did:key:z1'' \<and> x = example_renewable_session" for i x
    by (auto simp: example_renewable_world_def get_raw_def split: if_splits)
  have "ks_ordered (w_ks example_renewable_world)"
    by (simp add: example_renewable_world_def ks_ordered_def key_defs)
  then have ren: "renewable example_sha ''did:key:z1'' ''tok'' example_renewable_session example_renewable_world"
    by (simp add: renewable_def example_renewable_world_def get_raw_def)
  have wf: "sessions_wf (w_ks example_renewable_world)"
    using rows by (fastforce simp: sessions_wf_def example_renewable_session_def example_session_def
        intrinsic_session_def)
  show ?thesis
    using rows live by (intro sweep_keeps_renewable [OF ren wf live]) blast
qed

end
