(* ===== verification/Auth_Flow.thy ===== *)
theory Auth_Flow
  imports Session_Writers
begin

text \<open>
  The sign-in protocol: challenge, authenticate and refresh (\<open>vti-common/src/auth/backend.rs\<close> and
  \<open>vti-common/src/auth/handlers\<close>) over the session store of \<open>Session\<close>.

  A service's \<open>AuthBackend\<close> is a record of the functions the handlers call: the ACL lookup at a given
  time, the DID-method gate, the attestation hook, the token minter, the timings and SHA-256.  Random
  challenges, identifiers and tokens are drawn from the world.  Store errors become
  \<open>AInternal\<close>, as the handlers map them.  Times in responses stay epoch seconds.  The
  in-process lock that serialises challenge requests of one subject is not modelled: a challenge
  request is run alone where its cap is concerned.
\<close>

unbundle bit_operations_syntax

section \<open>Backend\<close>

datatype auth_error =
    AForbidden
  | DidMethodRejected
  | PendingChallengeLimitReached
  | SessionNotFound
  | SessionStateMismatch
  | ChallengeMismatch
  | ChallengeExpired
  | SignerMismatch
  | MissingRecipient
  | WrongRecipient string string
  | StaleMessage
  | RefreshTokenInvalid
  | RefreshTokenExpired
  | SessionIdleTimeout
  | AttestationFailed
  | AInternal

datatype refresh_reuse_reason = GraceExpired | ChainAdvanced | SessionGone

datatype auth_audit_event =
    EvChallengeIssued string string
  | EvAuthenticated string string "string list" string
  | EvRefreshed string string string "string list" string
  | EvRefreshReuseDetected string string u64 refresh_reuse_reason
  | EvRefreshSuperseded string string u64

record 'r role_resolution =
  rr_role :: 'r
  rr_contexts :: "string list"

record attestation_outcome =
  att_report :: "string option"
  att_attested :: bool

record 'r mint_request =
  m_subject :: string
  m_session_id :: string
  m_role :: 'r
  m_contexts :: "string list"
  m_amr :: "string list"
  m_acr :: string
  m_tee_attested :: bool
  m_ttl_secs :: u64
  m_jti :: string

record 'r auth_backend =
  b_sha :: "string \<Rightarrow> bytes"
  b_check_acl :: "string \<Rightarrow> u64 \<Rightarrow> (auth_error, 'r role_resolution) result"
  b_validate_did :: "string \<Rightarrow> (auth_error, unit) result"
  b_attest_challenge :: "string \<Rightarrow> (auth_error, attestation_outcome) result"
  b_mint_access_token :: "'r mint_request \<Rightarrow> (auth_error, string) result"
  b_max_pending_challenges_per_did :: nat
  b_challenge_ttl :: u64
  b_access_token_ttl :: u64
  b_access_token_ttl_for_aal2 :: u64
  b_refresh_token_ttl :: u64
  b_refresh_reuse_grace :: u64
  b_didcomm_freshness_window :: u64
  b_idle_timeout :: "u64 option"

definition default_access_token_ttl_for_aal2 :: "u64 \<Rightarrow> u64" where
  "default_access_token_ttl_for_aal2 base = max 60 (base div 3)"

type_synonym 'a auth_prog = "(session_row, auth_audit_event, (auth_error, 'a) result) prog"

text \<open>A store call of a handler, with its error mapped.\<close>

definition store_call :: "(auth_audit_event, 'a) sess_prog \<Rightarrow> 'a auth_prog" where
  "store_call p = map_errP (\<lambda>_. AInternal) p"

definition check_acl_call :: "'r auth_backend \<Rightarrow> string \<Rightarrow> 'r role_resolution auth_prog" where
  "check_acl_call B did = Now (\<lambda>t. Ret (b_check_acl B did t))"

section \<open>Inputs and responses\<close>

record challenge_input =
  ci_did :: string
  ci_session_pubkey :: "string option"

datatype audience_binding = Transport | Recipient "string option" "string option"

definition audience_check :: "audience_binding \<Rightarrow> (auth_error, unit) result" where
  "audience_check a =
     (case a of
        Transport \<Rightarrow> Ok ()
      | Recipient recipient own_did \<Rightarrow>
          (case own_did of
             None \<Rightarrow> Err AInternal
           | Some own \<Rightarrow>
               (case recipient of
                  None \<Rightarrow> Err MissingRecipient
                | Some r \<Rightarrow> if r = own then Ok () else Err (WrongRecipient r own))))"

record authenticate_input =
  ai_session_id :: string
  ai_challenge :: string
  ai_signer_did :: string
  ai_created_time :: "u64 option"
  ai_session_pubkey :: "string option"
  ai_audience :: audience_binding

record refresh_input =
  ri_refresh_token :: string
  ri_signer_did :: "string option"

record challenge_response =
  cr_challenge :: string
  cr_session_id :: string
  cr_expires_at :: u64
  cr_tee_attestation :: "string option"

record authenticate_response =
  ar_id :: string
  ar_subject :: string
  ar_issued_at :: u64
  ar_expires_at :: u64
  ar_amr :: "string list"
  ar_acr :: string
  ar_access_token :: string
  ar_refresh_token :: "string option"
  ar_token_type :: string
  ar_expires_in :: u64
  ar_refresh_expires_in :: "u64 option"
  ar_scope :: "string list"

definition scope_of :: "string list \<Rightarrow> string list" where
  "scope_of contexts = map (\<lambda>c. ''ctx:'' @ c) contexts"

section \<open>Shared checks\<close>

definition refresh_amr_acr :: "session \<Rightarrow> string list \<times> string" where
  "refresh_amr_acr s = (if amr s = [] then ([''did''], ''aal1'') else (amr s, acr s))"

definition check_freshness :: "u64 option \<Rightarrow> u64 \<Rightarrow> u64 \<Rightarrow> u64 \<Rightarrow> (auth_error, unit) result" where
  "check_freshness created_time session_created_at now window =
     (case created_time of
        None \<Rightarrow> Ok ()
      | Some ct \<Rightarrow>
          if ct < session_created_at then Err StaleMessage
          else if sat_sub now ct > window then Err StaleMessage
          else Ok ())"

definition constant_time_challenge_eq :: "string \<Rightarrow> string \<Rightarrow> bool" where
  "constant_time_challenge_eq a b =
     (if length a \<noteq> length b then False
      else fold (\<lambda>i diff. diff OR (byte_of (a ! i) XOR byte_of (b ! i))) [0..<length a] 0 = 0)"

section \<open>Minting\<close>

record minted_tokens =
  mt_access_token :: string
  mt_refresh_token :: string
  mt_access_ttl :: u64
  mt_access_expires_at :: u64
  mt_refresh_expires_at :: u64
  mt_issued_at :: u64
  mt_token_id :: string

definition acr_ttl :: "'r auth_backend \<Rightarrow> string \<Rightarrow> u64" where
  "acr_ttl B a = (if a = ''aal2'' then b_access_token_ttl_for_aal2 B else b_access_token_ttl B)"

definition mint_session_tokens_until ::
    "'r auth_backend \<Rightarrow> string \<Rightarrow> string \<Rightarrow> 'r \<Rightarrow> string list \<Rightarrow> string list \<Rightarrow> string \<Rightarrow> bool \<Rightarrow>
     u64 option \<Rightarrow> minted_tokens auth_prog" where
  "mint_session_tokens_until B did sid role contexts am ac tee end_opt =
     Now (\<lambda>now.
       let access_ttl = (case end_opt of Some end' \<Rightarrow> min (acr_ttl B ac) (sat_sub end' now)
                                       | None \<Rightarrow> acr_ttl B ac) in
       Fresh (\<lambda>refresh. Fresh (\<lambda>jti.
       let refresh_expires = sat_add now (b_refresh_token_ttl B);
           refresh_expires = (case end_opt of None \<Rightarrow> refresh_expires | Some end' \<Rightarrow> min refresh_expires end')
       in bndE (Ret (b_mint_access_token B
                  \<lparr>m_subject = did, m_session_id = sid, m_role = role, m_contexts = contexts,
                   m_amr = am, m_acr = ac, m_tee_attested = tee, m_ttl_secs = access_ttl, m_jti = jti\<rparr>))
            (\<lambda>access. Emit (EvAuthenticated did sid am ac)
              (Ret (Ok \<lparr>mt_access_token = access, mt_refresh_token = refresh, mt_access_ttl = access_ttl,
                        mt_access_expires_at = sat_add now access_ttl,
                        mt_refresh_expires_at = refresh_expires, mt_issued_at = now,
                        mt_token_id = jti\<rparr>))))))"

definition mint_session_tokens ::
    "'r auth_backend \<Rightarrow> string \<Rightarrow> string \<Rightarrow> 'r \<Rightarrow> string list \<Rightarrow> string list \<Rightarrow> string \<Rightarrow> bool \<Rightarrow>
     minted_tokens auth_prog" where
  "mint_session_tokens B did sid role contexts am ac tee =
     mint_session_tokens_until B did sid role contexts am ac tee None"

section \<open>Challenge\<close>

definition make_room_for_challenge :: "'r auth_backend \<Rightarrow> string \<Rightarrow> nat \<Rightarrow> unit auth_prog" where
  "make_room_for_challenge B did limit =
     bndE (store_call (list_pending_challenges (b_sha B) did)) (\<lambda>pending.
     Now (\<lambda>now.
       let expired = filter (\<lambda>s. sat_sub now (created_at s) > b_challenge_ttl B) pending;
           live = filter (\<lambda>s. \<not> sat_sub now (created_at s) > b_challenge_ttl B) pending;
           excess = length live + 1 - limit
       in forE (\<lambda>s. store_call (delete_session (b_sha B) (session_id s))) (expired @ take excess live)))"

definition new_challenge_session :: "challenge_input \<Rightarrow> string \<Rightarrow> string \<Rightarrow> u64 \<Rightarrow> bool \<Rightarrow> session" where
  "new_challenge_session input sid chal now attested =
     \<lparr> session_id = sid, sess_did = ci_did input, challenge = chal, sess_state = ChallengeSent,
       created_at = now, last_seen = now, refresh_token = None, refresh_expires_at = None,
       tee_attested = attested, amr = [], acr = [], acr_expires_at = None, token_id = None,
       session_pubkey = ci_session_pubkey input, not_after = None \<rparr>"

definition handle_challenge :: "'r auth_backend \<Rightarrow> challenge_input \<Rightarrow> challenge_response auth_prog" where
  "handle_challenge B input =
     bndE (Ret (b_validate_did B (ci_did input))) (\<lambda>_.
     bnd (check_acl_call B (ci_did input)) (\<lambda>acl.
     Fresh (\<lambda>chal. Fresh (\<lambda>sid.
     bndE (Ret (b_attest_challenge B chal)) (\<lambda>attestation.
     Now (\<lambda>now.
       let s = new_challenge_session input sid chal now (att_attested attestation);
           response = \<lparr>cr_challenge = chal, cr_session_id = sid,
                       cr_expires_at = sat_add now (b_challenge_ttl B),
                       cr_tee_attestation = att_report attestation\<rparr>;
           limit = b_max_pending_challenges_per_did B
       in if is_ok acl then
            bndE (if limit > 0 then make_room_for_challenge B (sess_did s) limit else Ret (Ok ())) (\<lambda>_.
            bndE (store_call (store_session (b_sha B) s)) (\<lambda>_.
            Emit (EvChallengeIssued (sess_did s) sid) (Ret (Ok response))))
          else Ret (Ok response)))))))"

section \<open>Authenticate\<close>

definition authenticated_session ::
    "authenticate_input \<Rightarrow> session \<Rightarrow> minted_tokens \<Rightarrow> u64 \<Rightarrow> string list \<Rightarrow> string \<Rightarrow> session" where
  "authenticated_session input s minted now am ac =
     \<lparr> session_id = sess_did s, sess_did = sess_did s, challenge = [], sess_state = Authenticated,
       created_at = now, last_seen = now, refresh_token = Some (mt_refresh_token minted),
       refresh_expires_at = Some (mt_refresh_expires_at minted), tee_attested = tee_attested s,
       amr = am, acr = ac, acr_expires_at = None, token_id = Some (mt_token_id minted),
       session_pubkey = (case ai_session_pubkey input of Some k \<Rightarrow> Some k | None \<Rightarrow> session_pubkey s),
       not_after = None \<rparr>"

text \<open>Retiring the refresh token a login replaces: claim its index entry and, if the claim wins, leave
  a tombstone.  Store errors are logged, not returned.\<close>

definition retire_superseded ::
    "'r auth_backend \<Rightarrow> string \<Rightarrow> string option \<Rightarrow> minted_tokens \<Rightarrow> u64 \<Rightarrow> unit auth_prog" where
  "retire_superseded B did superseded minted now =
     (case superseded of
        None \<Rightarrow> Ret (Ok ())
      | Some token \<Rightarrow>
          bnd (take_session_id_by_refresh (b_sha B) token) (\<lambda>r.
            if (case r of Ok claimed \<Rightarrow> claimed \<noteq> None | Err _ \<Rightarrow> False) then
              bnd (store_refresh_tombstone (b_sha B) token
                     \<lparr>t_session_id = did, t_did = did, t_rotated_at = now,
                      t_expires_at = sat_add now (b_refresh_token_ttl B),
                      t_successor_hash = refresh_token_hash (b_sha B) (mt_refresh_token minted),
                      t_cause = Superseded\<rparr>)
                (\<lambda>_. Ret (Ok ()))
            else Ret (Ok ())))"

definition authenticate_checks ::
    "'r auth_backend \<Rightarrow> authenticate_input \<Rightarrow> session \<Rightarrow> u64 \<Rightarrow> (auth_error, unit) result" where
  "authenticate_checks B input s now =
     (if sess_state s \<noteq> ChallengeSent then Err SessionStateMismatch
      else if \<not> constant_time_challenge_eq (challenge s) (ai_challenge input) then Err ChallengeMismatch
      else if sess_did s \<noteq> ai_signer_did input then Err SignerMismatch
      else if sat_sub now (created_at s) > b_challenge_ttl B then Err ChallengeExpired
      else check_freshness (ai_created_time input) (created_at s) now (b_didcomm_freshness_window B))"

definition complete_authenticate ::
    "'r auth_backend \<Rightarrow> authenticate_input \<Rightarrow> string list \<Rightarrow> string \<Rightarrow> session \<Rightarrow> u64 \<Rightarrow>
     authenticate_response auth_prog" where
  "complete_authenticate B input am ac s now =
     bndE (check_acl_call B (sess_did s)) (\<lambda>rr.
     bndE (mint_session_tokens B (sess_did s) (sess_did s) (rr_role rr) (rr_contexts rr) am ac (tee_attested s)) (\<lambda>minted.
     bndE (store_call (get_session (sess_did s))) (\<lambda>prior.
     bndE (store_call (store_session (b_sha B) (authenticated_session input s minted now am ac))) (\<lambda>_.
     bndE (store_call (store_refresh_index (b_sha B) (mt_refresh_token minted) (sess_did s))) (\<lambda>_.
     bndE (retire_superseded B (sess_did s)
             (case prior of Some p \<Rightarrow> refresh_token p | None \<Rightarrow> None) minted now) (\<lambda>_.
     Ret (Ok \<lparr>ar_id = sess_did s, ar_subject = sess_did s, ar_issued_at = mt_issued_at minted,
              ar_expires_at = mt_access_expires_at minted, ar_amr = am, ar_acr = ac,
              ar_access_token = mt_access_token minted, ar_refresh_token = Some (mt_refresh_token minted),
              ar_token_type = ''Bearer'', ar_expires_in = mt_access_ttl minted,
              ar_refresh_expires_in = Some (b_refresh_token_ttl B),
              ar_scope = scope_of (rr_contexts rr)\<rparr>)))))))"

definition handle_authenticate_with_aal ::
    "'r auth_backend \<Rightarrow> authenticate_input \<Rightarrow> string list \<Rightarrow> string \<Rightarrow> authenticate_response auth_prog" where
  "handle_authenticate_with_aal B input am ac =
     bndE (Ret (audience_check (ai_audience input))) (\<lambda>_.
     bndE (store_call (get_session (ai_session_id input))) (\<lambda>found.
       case found of
         None \<Rightarrow> Ret (Err SessionNotFound)
       | Some s \<Rightarrow>
           Now (\<lambda>now.
           bndE (Ret (authenticate_checks B input s now)) (\<lambda>_.
           bndE (store_call (take_session (b_sha B) (ai_session_id input))) (\<lambda>taken.
             if taken = None then Ret (Err SessionStateMismatch)
             else complete_authenticate B input am ac s now)))))"

definition handle_authenticate :: "'r auth_backend \<Rightarrow> authenticate_input \<Rightarrow> authenticate_response auth_prog" where
  "handle_authenticate B input = handle_authenticate_with_aal B input [''did''] ''aal1''"

section \<open>Refresh\<close>

text \<open>A transport that asserts a signer binds the refresh to the session's subject.\<close>

definition signer_mismatch :: "refresh_input \<Rightarrow> session \<Rightarrow> bool" where
  "signer_mismatch input s =
     (case ri_signer_did input of Some signer \<Rightarrow> signer \<noteq> sess_did s | None \<Rightarrow> False)"

definition clamped_access_ttl :: "'r auth_backend \<Rightarrow> string \<Rightarrow> session \<Rightarrow> u64 \<Rightarrow> u64" where
  "clamped_access_ttl B ac s now =
     (case not_after s of None \<Rightarrow> acr_ttl B ac | Some end' \<Rightarrow> min (acr_ttl B ac) (sat_sub end' now))"

definition is_innocent_retry :: "(string \<Rightarrow> bytes) \<Rightarrow> session \<Rightarrow> refresh_tombstone \<Rightarrow> u64 \<Rightarrow> u64 \<Rightarrow> bool" where
  "is_innocent_retry sha s t now grace \<longleftrightarrow>
     t_cause t = Rotated \<and> sess_state s = Authenticated \<and> sat_sub now (t_rotated_at t) < grace \<and>
     (case refresh_token s of Some live \<Rightarrow> refresh_token_hash sha live = t_successor_hash t | None \<Rightarrow> False)"

definition refresh_response ::
    "'r auth_backend \<Rightarrow> session \<Rightarrow> u64 \<Rightarrow> u64 \<Rightarrow> string list \<Rightarrow> string \<Rightarrow> string \<Rightarrow> string \<Rightarrow> u64 option \<Rightarrow>
     'r role_resolution \<Rightarrow> authenticate_response" where
  "refresh_response B s now access_ttl am ac access refresh refresh_in rr =
     \<lparr>ar_id = session_id s, ar_subject = sess_did s, ar_issued_at = now,
      ar_expires_at = sat_add now access_ttl, ar_amr = am, ar_acr = ac, ar_access_token = access,
      ar_refresh_token = Some refresh, ar_token_type = ''Bearer'', ar_expires_in = access_ttl,
      ar_refresh_expires_in = refresh_in, ar_scope = scope_of (rr_contexts rr)\<rparr>"

definition refresh_mint ::
    "'r auth_backend \<Rightarrow> session \<Rightarrow> 'r role_resolution \<Rightarrow> u64 \<Rightarrow> string \<Rightarrow> (auth_error, string) result" where
  "refresh_mint B s rr now jti =
     (let (am, ac) = refresh_amr_acr s in
      b_mint_access_token B
        \<lparr>m_subject = sess_did s, m_session_id = session_id s, m_role = rr_role rr,
         m_contexts = rr_contexts rr, m_amr = am, m_acr = ac, m_tee_attested = tee_attested s,
         m_ttl_secs = clamped_access_ttl B ac s now, m_jti = jti\<rparr>)"

definition replay_rotation :: "'r auth_backend \<Rightarrow> session \<Rightarrow> u64 \<Rightarrow> authenticate_response auth_prog" where
  "replay_rotation B s now =
     (if past_end s now then Ret (Err RefreshTokenExpired)
      else let (am, ac) = refresh_amr_acr s in
        bndE (check_acl_call B (sess_did s)) (\<lambda>rr.
          case (refresh_token s, token_id s) of
            (Some refresh, Some jti) \<Rightarrow>
              bndE (Ret (refresh_mint B s rr now jti)) (\<lambda>access.
              Emit (EvRefreshed (sess_did s) (session_id s) (session_id s) am ac)
                (Ret (Ok (refresh_response B s now (clamped_access_ttl B ac s now) am ac access refresh
                   (map_option (\<lambda>e. sat_sub e now) (refresh_expires_at s)) rr))))
          | _ \<Rightarrow> Ret (Err RefreshTokenInvalid)))"

definition reuse_reason :: "session option \<Rightarrow> refresh_tombstone \<Rightarrow> u64 \<Rightarrow> u64 \<Rightarrow> refresh_reuse_reason" where
  "reuse_reason s t now grace =
     (if s = None then SessionGone
      else if sat_sub now (t_rotated_at t) \<ge> grace then GraceExpired
      else ChainAdvanced)"

definition report_reuse ::
    "'r auth_backend \<Rightarrow> session option \<Rightarrow> refresh_tombstone \<Rightarrow> u64 \<Rightarrow> authenticate_response auth_prog" where
  "report_reuse B s t now =
     bnd (if s \<noteq> None then delete_session (b_sha B) (t_session_id t) else Ret (Ok ())) (\<lambda>_.
       Emit (EvRefreshReuseDetected (t_did t) (t_session_id t) (t_rotated_at t)
               (reuse_reason s t now (b_refresh_reuse_grace B)))
         (Ret (Err RefreshTokenInvalid)))"

definition handle_unclaimed_refresh :: "'r auth_backend \<Rightarrow> refresh_input \<Rightarrow> authenticate_response auth_prog" where
  "handle_unclaimed_refresh B input =
     bndE (store_call (get_refresh_tombstone (b_sha B) (ri_refresh_token input))) (\<lambda>tomb.
       case tomb of
         None \<Rightarrow> Ret (Err RefreshTokenInvalid)
       | Some t \<Rightarrow>
           bndE (store_call (get_session (t_session_id t))) (\<lambda>found.
           Now (\<lambda>now.
             case found of
               Some s \<Rightarrow>
                 if is_innocent_retry (b_sha B) s t now (b_refresh_reuse_grace B) then
                   if signer_mismatch input s
                   then Ret (Err SignerMismatch)
                   else replay_rotation B s now
                 else if t_cause t = Superseded then
                   Emit (EvRefreshSuperseded (t_did t) (t_session_id t) (t_rotated_at t))
                     (Ret (Err RefreshTokenInvalid))
                 else report_reuse B (Some s) t now
             | None \<Rightarrow>
                 if t_cause t = Superseded then
                   Emit (EvRefreshSuperseded (t_did t) (t_session_id t) (t_rotated_at t))
                     (Ret (Err RefreshTokenInvalid))
                 else report_reuse B None t now)))"

definition refresh_checks :: "'r auth_backend \<Rightarrow> refresh_input \<Rightarrow> session \<Rightarrow> u64 \<Rightarrow> (auth_error, unit) result" where
  "refresh_checks B input s now =
     (if signer_mismatch input s
      then Err SignerMismatch
      else if sess_state s \<noteq> Authenticated then Err SessionStateMismatch
      else if (case refresh_expires_at s of Some e \<Rightarrow> now > e | None \<Rightarrow> False) then Err RefreshTokenExpired
      else if past_end s now then Err RefreshTokenExpired
      else case b_idle_timeout B of
             None \<Rightarrow> Ok ()
           | Some idle_ttl \<Rightarrow>
               if sat_sub now (if last_seen s = 0 then created_at s else last_seen s) > idle_ttl
               then Err SessionIdleTimeout else Ok ())"

definition rotated_session :: "'r auth_backend \<Rightarrow> session \<Rightarrow> u64 \<Rightarrow> string \<Rightarrow> string \<Rightarrow> session" where
  "rotated_session B s now refresh jti =
     (let (am, ac) = refresh_amr_acr s in
      \<lparr> session_id = session_id s, sess_did = sess_did s, challenge = [], sess_state = Authenticated,
        created_at = now, last_seen = last_seen s, refresh_token = Some refresh,
        refresh_expires_at = Some (clamp_to_end s (sat_add now (b_refresh_token_ttl B))),
        tee_attested = tee_attested s, amr = am, acr = ac, acr_expires_at = acr_expires_at s,
        token_id = Some jti, session_pubkey = session_pubkey s, not_after = not_after s \<rparr>)"

definition rotate_tokens :: "'r auth_backend \<Rightarrow> refresh_input \<Rightarrow> session \<Rightarrow> u64 \<Rightarrow> authenticate_response auth_prog" where
  "rotate_tokens B input s now =
     (let (am, ac) = refresh_amr_acr s in
      bndE (check_acl_call B (sess_did s)) (\<lambda>rr.
      Fresh (\<lambda>refresh. Fresh (\<lambda>jti.
      bndE (Ret (refresh_mint B s rr now jti)) (\<lambda>access.
      bndE (store_call (store_session (b_sha B) (rotated_session B s now refresh jti))) (\<lambda>_.
      bndE (store_call (store_refresh_index (b_sha B) refresh (session_id s))) (\<lambda>_.
      bnd (store_refresh_tombstone (b_sha B) (ri_refresh_token input)
             \<lparr>t_session_id = session_id s, t_did = sess_did s, t_rotated_at = now,
              t_expires_at = sat_add now (b_refresh_token_ttl B),
              t_successor_hash = refresh_token_hash (b_sha B) refresh, t_cause = Rotated\<rparr>) (\<lambda>_.
      Emit (EvRefreshed (sess_did s) (session_id s) (session_id s) am ac)
        (Ret (Ok (refresh_response B s now (clamped_access_ttl B ac s now) am ac access refresh
           (Some (sat_sub (clamp_to_end s (sat_add now (b_refresh_token_ttl B))) now)) rr)))))))))))"

definition refuse_superseded ::
    "'r auth_backend \<Rightarrow> refresh_input \<Rightarrow> session \<Rightarrow> string option \<Rightarrow> authenticate_response auth_prog" where
  "refuse_superseded B input s current_hash =
     Now (\<lambda>now.
       bnd (store_refresh_tombstone (b_sha B) (ri_refresh_token input)
              \<lparr>t_session_id = session_id s, t_did = sess_did s, t_rotated_at = now,
               t_expires_at = sat_add now (b_refresh_token_ttl B),
               t_successor_hash = (case current_hash of Some h \<Rightarrow> h | None \<Rightarrow> []),
               t_cause = Superseded\<rparr>) (\<lambda>_.
       Emit (EvRefreshSuperseded (sess_did s) (session_id s) now) (Ret (Err RefreshTokenInvalid))))"

definition handle_refresh :: "'r auth_backend \<Rightarrow> refresh_input \<Rightarrow> authenticate_response auth_prog" where
  "handle_refresh B input =
     bndE (store_call (take_session_id_by_refresh (b_sha B) (ri_refresh_token input))) (\<lambda>claimed.
       case claimed of
         None \<Rightarrow> handle_unclaimed_refresh B input
       | Some sid \<Rightarrow>
           bndE (store_call (get_session sid)) (\<lambda>found.
             case found of
               None \<Rightarrow> Ret (Err SessionNotFound)
             | Some s \<Rightarrow>
                 bndE (store_call (current_refresh_hash sid)) (\<lambda>recorded.
                   let current_hash = (case recorded of
                         Some hash \<Rightarrow> Some hash
                       | None \<Rightarrow> map_option (refresh_token_hash (b_sha B)) (refresh_token s)) in
                   if current_hash \<noteq> Some (refresh_token_hash (b_sha B) (ri_refresh_token input))
                   then refuse_superseded B input s current_hash
                   else Now (\<lambda>now.
                     bndE (Ret (refresh_checks B input s now)) (\<lambda>_. rotate_tokens B input s now)))))"

section \<open>Activity\<close>

definition touch_session :: "string \<Rightarrow> u64 \<Rightarrow> (auth_audit_event, unit) sess_prog" where
  "touch_session sid at =
     bndE (get_session sid) (\<lambda>found.
       case found of
         None \<Rightarrow> Ret (Ok ())
       | Some row \<Rightarrow> bndE (touch_last_seen row at) (\<lambda>_. Ret (Ok ())))"

end
