(* ===== verification/Auth_Refresh.thy ===== *)
theory Auth_Refresh
  imports Auth_Flow
begin

text \<open>
  Refresh-token rotation (\<open>vti-common/src/auth/handlers/refresh.rs\<close>): what a renewal does to the
  session, how a replay of a spent token is told apart from a retry, and what revocation leaves.
\<close>

section \<open>Store calls run alone\<close>

lemma run_store_call [run_simps]:
  "run (store_call p) w = (map_err (\<lambda>_. AInternal) (fst (run p w)), snd (run p w))"
  by (simp add: store_call_def run_simps)

lemma run_get_session [run_simps]:
  "run (get_session sid) w = (as_session (get_raw (w_ks w) (session_key sid)), w)"
  by (simp add: get_session_def)

lemma run_current_refresh_hash [run_simps]:
  "run (current_refresh_hash sid) w = (as_text (get_raw (w_ks w) (current_refresh_key sid)), w)"
  by (simp add: current_refresh_hash_def)

lemma run_get_refresh_tombstone [run_simps]:
  "run (get_refresh_tombstone sha token) w = (as_tombstone (get_raw (w_ks w) (rotated_key sha token)), w)"
  by (simp add: get_refresh_tombstone_def)

lemma run_take_session_id_by_refresh [run_simps]:
  "run (take_session_id_by_refresh sha token) w =
     (as_text (get_raw (w_ks w) (refresh_key sha token)),
      w\<lparr>w_ks := snd (take_raw (refresh_key sha token) (w_ks w))\<rparr>)"
  by (simp add: take_session_id_by_refresh_def take_raw_simps)

lemma run_store_refresh_tombstone [run_simps]:
  "run (store_refresh_tombstone sha token t) w =
     (Ok (), w\<lparr>w_ks := insert_raw (rotated_key sha token) (RTombstone t) (w_ks w)\<rparr>)"
  by (simp add: store_refresh_tombstone_def)

lemma run_store_session [run_simps]:
  "sess_state s = Authenticated \<Longrightarrow>
   run (store_session sha s) w =
     (Ok (), w\<lparr>w_ks := insert_raw (session_key (session_id s)) (RSession s) (w_ks w)\<rparr>)"
  by (simp add: store_session_def write_session_def apply_batchE_def apply_batch_def batch_validate_def)

lemma run_store_refresh_index [run_simps]:
  "run (store_refresh_index sha token sid) w =
     (Ok (), w\<lparr>w_ks := insert_raw (refresh_key sha token) (RText sid)
        (insert_raw (current_refresh_key sid) (RText (refresh_token_hash sha token)) (w_ks w))\<rparr>)"
  by (simp add: store_refresh_index_def apply_batchE_def apply_batch_def batch_validate_def)

lemma run_delete_session:
  assumes "get_raw (w_ks w) (session_key sid) = Some (RSession s)"
  shows "run (delete_session sha sid) w =
    (Ok (), w\<lparr>w_ks := fold apply_write (stage_session_removal sha s) (w_ks w)\<rparr>)"
proof -
  have "distinct (map write_key (stage_session_removal sha s))"
    by (auto simp: stage_session_removal_def split: option.splits)
  then have "batch_validate \<lparr>checks = [], writes = stage_session_removal sha s\<rparr> = Ok ()"
    by (simp add: batch_validate_iff)
  then show ?thesis using assms
    by (simp add: delete_session_def run_simps as_session_def apply_batchE_def apply_batch_def)
qed

lemma removal_get_raw:
  "get_raw (fold apply_write (stage_session_removal sha s) ks) k =
    (if k = session_key (session_id s) \<or> k = current_refresh_key (session_id s) \<or>
        k = pending_challenge_key sha (sess_did s) (session_id s) \<or>
        (\<exists>t. refresh_token s = Some t \<and> k = refresh_key sha t)
     then None else get_raw ks k)"
  by (auto simp: stage_session_removal_def split: option.splits)

lemma take_raw_get [simp]: "get_raw (snd (take_raw k ks)) k' = (if k' = k then None else get_raw ks k')"
  by (simp add: take_raw_simps)

section \<open>Rotation\<close>

text \<open>The store holds a session whose row, current-token record and index entry agree.\<close>

definition renewable_with :: "(string \<Rightarrow> bytes) \<Rightarrow> string \<Rightarrow> session \<Rightarrow> (string, session_row) keyspace \<Rightarrow> bool" where
  "renewable_with sha token s ks \<longleftrightarrow>
     get_raw ks (session_key (session_id s)) = Some (RSession s) \<and>
     get_raw ks (current_refresh_key (session_id s)) = Some (RText (refresh_token_hash sha token)) \<and>
     get_raw ks (refresh_key sha token) = Some (RText (session_id s)) \<and>
     refresh_token s = Some token"

lemma run_refresh_claimed:
  assumes "renewable_with (b_sha B) (ri_refresh_token input) s (w_ks w)"
  shows "run (handle_refresh B input) w =
    (case refresh_checks B input s (w_now w) of
       Err e \<Rightarrow> (Err e, w\<lparr>w_ks := snd (take_raw (refresh_key (b_sha B) (ri_refresh_token input)) (w_ks w))\<rparr>)
     | Ok _ \<Rightarrow> run (rotate_tokens B input s (w_now w))
         (w\<lparr>w_ks := snd (take_raw (refresh_key (b_sha B) (ri_refresh_token input)) (w_ks w))\<rparr>))"
  using assms
  by (simp add: handle_refresh_def run_simps renewable_with_def as_text_def as_session_def
      split: sum.splits)

lemma rotated_session_simps [simp]:
  "session_id (rotated_session B s now r j) = session_id s"
  "sess_did (rotated_session B s now r j) = sess_did s"
  "sess_state (rotated_session B s now r j) = Authenticated"
  "last_seen (rotated_session B s now r j) = last_seen s"
  "refresh_token (rotated_session B s now r j) = Some r"
  "refresh_expires_at (rotated_session B s now r j) =
     Some (clamp_to_end s (sat_add now (b_refresh_token_ttl B)))"
  "acr_expires_at (rotated_session B s now r j) = acr_expires_at s"
  "token_id (rotated_session B s now r j) = Some j"
  "not_after (rotated_session B s now r j) = not_after s"
  "tee_attested (rotated_session B s now r j) = tee_attested s"
  "session_pubkey (rotated_session B s now r j) = session_pubkey s"
  by (simp_all add: rotated_session_def split: prod.splits)

lemma run_rotate:
  assumes "b_check_acl B (sess_did s) (w_now w) = Ok rr"
    and "refresh_mint B s rr now (w_supply w (Suc (w_drawn w))) = Ok access"
  defines "r \<equiv> w_supply w (w_drawn w)" and "j \<equiv> w_supply w (Suc (w_drawn w))"
  shows "run (rotate_tokens B input s now) w =
    (Ok (refresh_response B s now (clamped_access_ttl B (snd (refresh_amr_acr s)) s now)
           (fst (refresh_amr_acr s)) (snd (refresh_amr_acr s)) access r
           (Some (sat_sub (clamp_to_end s (sat_add now (b_refresh_token_ttl B))) now)) rr),
     w\<lparr>w_ks := insert_raw (rotated_key (b_sha B) (ri_refresh_token input))
           (RTombstone \<lparr>t_session_id = session_id s, t_did = sess_did s, t_rotated_at = now,
              t_expires_at = sat_add now (b_refresh_token_ttl B),
              t_successor_hash = refresh_token_hash (b_sha B) r, t_cause = Rotated\<rparr>)
          (insert_raw (refresh_key (b_sha B) r) (RText (session_id s))
          (insert_raw (current_refresh_key (session_id s)) (RText (refresh_token_hash (b_sha B) r))
          (insert_raw (session_key (session_id s)) (RSession (rotated_session B s now r j)) (w_ks w)))),
       w_drawn := Suc (Suc (w_drawn w)),
       w_log := w_log w @ [EvRefreshed (sess_did s) (session_id s) (session_id s)
          (fst (refresh_amr_acr s)) (snd (refresh_amr_acr s))]\<rparr>)"
  using assms
  by (simp add: rotate_tokens_def check_acl_call_def run_simps split: prod.splits)




text \<open>The world a successful rotation leaves.\<close>

lemma rotation_world:
  assumes "renewable_with (b_sha B) (ri_refresh_token input) s (w_ks w)"
    and "refresh_checks B input s (w_now w) = Ok ()"
    and "b_check_acl B (sess_did s) (w_now w) = Ok rr"
    and "refresh_mint B s rr (w_now w) (w_supply w (Suc (w_drawn w))) = Ok access"
    and "b_sha B (w_supply w (w_drawn w)) \<noteq> b_sha B (ri_refresh_token input)"
  defines "r \<equiv> w_supply w (w_drawn w)" and "w' \<equiv> world_after (handle_refresh B input) w"
  shows "result_of (handle_refresh B input) w = Ok (refresh_response B s (w_now w)
           (clamped_access_ttl B (snd (refresh_amr_acr s)) s (w_now w))
           (fst (refresh_amr_acr s)) (snd (refresh_amr_acr s)) access r
           (Some (sat_sub (clamp_to_end s (sat_add (w_now w) (b_refresh_token_ttl B))) (w_now w))) rr)"
    and "renewable_with (b_sha B) r
           (rotated_session B s (w_now w) r (w_supply w (Suc (w_drawn w)))) (w_ks w')"
    and "get_raw (w_ks w') (refresh_key (b_sha B) (ri_refresh_token input)) = None"
    and "get_raw (w_ks w') (rotated_key (b_sha B) (ri_refresh_token input)) =
      Some (RTombstone \<lparr>t_session_id = session_id s, t_did = sess_did s, t_rotated_at = w_now w,
              t_expires_at = sat_add (w_now w) (b_refresh_token_ttl B),
              t_successor_hash = refresh_token_hash (b_sha B) r, t_cause = Rotated\<rparr>)"
  using assms(1-5)
  by (simp_all add: r_def w'_def result_of_def world_after_def run_refresh_claimed [OF assms(1)]
      run_rotate renewable_with_def)


section \<open>Replays\<close>

lemma signer_mismatch_rotated: "signer_mismatch input (rotated_session B s now r j) = signer_mismatch input s"
  unfolding signer_mismatch_def rotated_session_simps ..

lemma refresh_checks_signer: "refresh_checks B input s now = Ok () \<Longrightarrow> \<not> signer_mismatch input s"
  by (auto simp: refresh_checks_def split: if_splits)

lemma run_refresh_unclaimed:
  assumes "get_raw (w_ks w) (refresh_key (b_sha B) (ri_refresh_token input)) = None"
    and "get_raw (w_ks w) (rotated_key (b_sha B) (ri_refresh_token input)) = Some (RTombstone t)"
    and "get_raw (w_ks w) (session_key (t_session_id t)) = Some (RSession s)"
  shows "run (handle_refresh B input) w =
    (if is_innocent_retry (b_sha B) s t (w_now w) (b_refresh_reuse_grace B) then
       if signer_mismatch input s
       then (Err SignerMismatch, w) else run (replay_rotation B s (w_now w)) w
     else if t_cause t = Superseded then
       (Err RefreshTokenInvalid,
        w\<lparr>w_log := w_log w @ [EvRefreshSuperseded (t_did t) (t_session_id t) (t_rotated_at t)]\<rparr>)
     else run (report_reuse B (Some s) t (w_now w)) w)"
proof -
  have "snd (take_raw (refresh_key (b_sha B) (ri_refresh_token input)) (w_ks w)) = w_ks w"
    using assms(1) by (simp add: take_raw_def)
  then show ?thesis using assms
    by (simp add: handle_refresh_def run_simps as_text_def handle_unclaimed_refresh_def as_tombstone_def
        as_session_def)
qed

lemma run_report_reuse:
  assumes "get_raw (w_ks w) (session_key (t_session_id t)) = Some (RSession s)"
  shows "run (report_reuse B (Some s) t now) w =
    (Err RefreshTokenInvalid,
     w\<lparr>w_ks := fold apply_write (stage_session_removal (b_sha B) s) (w_ks w),
       w_log := w_log w @ [EvRefreshReuseDetected (t_did t) (t_session_id t) (t_rotated_at t)
         (reuse_reason (Some s) t now (b_refresh_reuse_grace B))]\<rparr>)"
  using assms by (simp add: report_reuse_def run_simps run_delete_session)

text \<open>A retry never changes the store, and hands out the session's own refresh token.\<close>

lemma run_replay_rotation:
  "w_ks (snd (run (replay_rotation B s now) w)) = w_ks w \<and>
   (\<forall>resp. fst (run (replay_rotation B s now) w) = Ok resp \<longrightarrow> ar_refresh_token resp = refresh_token s)"
  by (auto simp: replay_rotation_def check_acl_call_def run_simps refresh_response_def
      split: prod.splits sum.splits option.splits)

lemma run_replay_rotation_ok:
  assumes "\<not> past_end s now" and "b_check_acl B (sess_did s) (w_now w) = Ok rr"
    and "refresh_token s = Some r" and "token_id s = Some j" and "refresh_mint B s rr now j = Ok access"
  shows "\<exists>resp. fst (run (replay_rotation B s now) w) = Ok resp \<and> ar_access_token resp = access"
  using assms
  by (auto simp: replay_rotation_def check_acl_call_def run_simps refresh_response_def split: prod.splits)

text \<open>C30: what presenting a spent token again does.  Within the grace period, while its successor is
  unused, it is a retry of a lost response: the same successor is handed out again and nothing in the
  store changes, and the retry succeeds while the session has not ended and its subject is still
  enrolled.  After the grace period it is taken for theft: the request is refused, the session, its
  current-token record and the successor's index entry are removed, and the reuse is reported with
  the account it concerns.\<close>

theorem replay_after_rotation:
  assumes "renewable_with (b_sha B) (ri_refresh_token input) s (w_ks w)"
    and "refresh_checks B input s (w_now w) = Ok ()"
    and "b_check_acl B (sess_did s) (w_now w) = Ok rr"
    and "refresh_mint B s rr (w_now w) (w_supply w (Suc (w_drawn w))) = Ok access"
    and "b_sha B (w_supply w (w_drawn w)) \<noteq> b_sha B (ri_refresh_token input)"
    and w1: "w1 = (world_after (handle_refresh B input) w)\<lparr>w_now := t\<rparr>"
  shows "if sat_sub t (w_now w) < b_refresh_reuse_grace B
    then w_ks (world_after (handle_refresh B input) w1) = w_ks w1 \<and>
      (\<forall>resp. result_of (handle_refresh B input) w1 = Ok resp \<longrightarrow>
         ar_refresh_token resp = Some (w_supply w (w_drawn w))) \<and>
      (\<forall>rr' access'. \<not> past_end s t \<and> b_check_acl B (sess_did s) t = Ok rr' \<and>
         refresh_mint B (rotated_session B s (w_now w) (w_supply w (w_drawn w)) (w_supply w (Suc (w_drawn w))))
           rr' t (w_supply w (Suc (w_drawn w))) = Ok access' \<longrightarrow>
         (\<exists>resp. result_of (handle_refresh B input) w1 = Ok resp \<and> ar_access_token resp = access'))
    else result_of (handle_refresh B input) w1 = Err RefreshTokenInvalid \<and>
      get_raw (w_ks (world_after (handle_refresh B input) w1)) (session_key (session_id s)) = None \<and>
      get_raw (w_ks (world_after (handle_refresh B input) w1)) (current_refresh_key (session_id s)) = None \<and>
      get_raw (w_ks (world_after (handle_refresh B input) w1))
        (refresh_key (b_sha B) (w_supply w (w_drawn w))) = None \<and>
      last (w_log (world_after (handle_refresh B input) w1)) =
        EvRefreshReuseDetected (sess_did s) (session_id s) (w_now w) GraceExpired"
proof -
  note facts = rotation_world(2-4) [OF assms(1-5)]
  let ?r = "w_supply w (w_drawn w)"
  let ?s' = "rotated_session B s (w_now w) ?r (w_supply w (Suc (w_drawn w)))"
  let ?t = "\<lparr>t_session_id = session_id s, t_did = sess_did s, t_rotated_at = w_now w,
    t_expires_at = sat_add (w_now w) (b_refresh_token_ttl B),
    t_successor_hash = refresh_token_hash (b_sha B) ?r, t_cause = Rotated\<rparr>"
  have row: "get_raw (w_ks w1) (session_key (t_session_id ?t)) = Some (RSession ?s')"
    using facts(1) w1 by (simp add: renewable_with_def)
  have spent: "get_raw (w_ks w1) (refresh_key (b_sha B) (ri_refresh_token input)) = None"
    and tomb: "get_raw (w_ks w1) (rotated_key (b_sha B) (ri_refresh_token input)) = Some (RTombstone ?t)"
    and now: "w_now w1 = t"
    using facts(2,3) w1 by simp_all
  have "\<not> signer_mismatch input ?s'"
    using refresh_checks_signer [OF assms(2)] by (simp add: signer_mismatch_rotated)
  moreover have "is_innocent_retry (b_sha B) ?s' ?t t (b_refresh_reuse_grace B) \<longleftrightarrow>
      sat_sub t (w_now w) < b_refresh_reuse_grace B"
    by (simp add: is_innocent_retry_def)
  ultimately have run: "run (handle_refresh B input) w1 =
      (if sat_sub t (w_now w) < b_refresh_reuse_grace B then run (replay_rotation B ?s' t) w1
       else run (report_reuse B (Some ?s') ?t t) w1)"
    using run_refresh_unclaimed [OF spent tomb row] now
    by (cases "sat_sub t (w_now w) < b_refresh_reuse_grace B") simp_all
  have pe: "past_end ?s' t = past_end s t" by (simp add: past_end_def)
  show ?thesis
  proof (cases "sat_sub t (w_now w) < b_refresh_reuse_grace B")
    case True
    then show ?thesis
      using run run_replay_rotation [of B ?s' t w1] pe w1
        run_replay_rotation_ok [of ?s' t B w1]
      by (simp add: result_of_def world_after_def)
  next
    case False
    then show ?thesis using run run_report_reuse [OF row, of B t]
      by (simp add: result_of_def world_after_def removal_get_raw reuse_reason_def)
  qed
qed

text \<open>C29: a spent token presented after its successor was spent too is theft even within the grace
  period, whichever token of the session is current by then: the request is refused, the session is
  revoked together with its current token, so no descendant of the stolen token renews it, and the
  reuse is reported.\<close>

theorem reuse_revokes_session:
  assumes "get_raw (w_ks w) (refresh_key (b_sha B) (ri_refresh_token input)) = None"
    and "get_raw (w_ks w) (rotated_key (b_sha B) (ri_refresh_token input)) = Some (RTombstone t)"
    and "t_cause t = Rotated"
    and "renewable_with (b_sha B) live s (w_ks w)" and "session_id s = t_session_id t"
    and "refresh_token_hash (b_sha B) live \<noteq> t_successor_hash t"
  shows "result_of (handle_refresh B input) w = Err RefreshTokenInvalid \<and>
    get_raw (w_ks (world_after (handle_refresh B input) w)) (session_key (session_id s)) = None \<and>
    get_raw (w_ks (world_after (handle_refresh B input) w)) (current_refresh_key (session_id s)) = None \<and>
    get_raw (w_ks (world_after (handle_refresh B input) w)) (refresh_key (b_sha B) live) = None \<and>
    (\<exists>reason. w_log (world_after (handle_refresh B input) w) =
       w_log w @ [EvRefreshReuseDetected (t_did t) (t_session_id t) (t_rotated_at t) reason])"
proof -
  have row: "get_raw (w_ks w) (session_key (t_session_id t)) = Some (RSession s)"
    using assms(4,5) by (simp add: renewable_with_def)
  have "\<not> is_innocent_retry (b_sha B) s t (w_now w) (b_refresh_reuse_grace B)"
    using assms(4,6) by (simp add: is_innocent_retry_def renewable_with_def)
  then have "run (handle_refresh B input) w = run (report_reuse B (Some s) t (w_now w)) w"
    using run_refresh_unclaimed [OF assms(1,2) row] assms(3) by simp
  then show ?thesis using run_report_reuse [OF row, of B "w_now w"] assms(4)
    by (simp add: result_of_def world_after_def removal_get_raw renewable_with_def)
qed

section \<open>Examples\<close>

definition example_backend :: "string auth_backend" where
  "example_backend =
     \<lparr> b_sha = example_sha,
       b_check_acl = (\<lambda>did t. if did = ''did:key:z1'' then Ok \<lparr>rr_role = ''admin'', rr_contexts = [''c'']\<rparr>
                              else Err AForbidden),
       b_validate_did = (\<lambda>_. Ok ()),
       b_attest_challenge = (\<lambda>_. Ok \<lparr>att_report = None, att_attested = False\<rparr>),
       b_mint_access_token = (\<lambda>m. Ok (''jwt.'' @ m_jti m)),
       b_max_pending_challenges_per_did = 2, b_challenge_ttl = 60, b_access_token_ttl = 900,
       b_access_token_ttl_for_aal2 = default_access_token_ttl_for_aal2 900,
       b_refresh_token_ttl = 86400, b_refresh_reuse_grace = 30, b_didcomm_freshness_window = 60,
       b_idle_timeout = Some 3600 \<rparr>"

definition example_refresh_session :: session where
  "example_refresh_session = example_session
     \<lparr>refresh_token := Some ''old'', refresh_expires_at := Some 2000, token_id := Some ''jti'',
      not_after := Some 1500\<rparr>"

definition example_refresh_input :: refresh_input where
  "example_refresh_input = \<lparr>ri_refresh_token = ''old'', ri_signer_did = None\<rparr>"

definition example_refresh_world :: "(session_row, auth_audit_event) world" where
  "example_refresh_world =
     \<lparr> w_ks = [(current_refresh_key ''did:key:z1'', RText (refresh_token_hash example_sha ''old'')),
               (refresh_key example_sha ''old'', RText ''did:key:z1''),
               (session_key ''did:key:z1'', RSession example_refresh_session)],
       w_now = 1000, w_supply = (\<lambda>n. ''tok'' @ replicate n CHR ''x''), w_drawn = 0, w_seq = 0,
       w_log = [] \<rparr>"

lemmas example_refresh_defs = example_backend_def example_refresh_session_def example_refresh_input_def
  example_refresh_world_def example_session_def intrinsic_session_def

lemma example_sha_inj [simp]: "example_sha a = example_sha b \<longleftrightarrow> a = b"
  by (simp add: example_sha_def as_bytes_def [symmetric] byte_of_def [symmetric])

lemma example_rotation:
  "renewable_with (b_sha example_backend) (ri_refresh_token example_refresh_input) example_refresh_session
     (w_ks example_refresh_world)"
  "refresh_checks example_backend example_refresh_input example_refresh_session (w_now example_refresh_world) = Ok ()"
  "b_check_acl example_backend (sess_did example_refresh_session) (w_now example_refresh_world) =
     Ok \<lparr>rr_role = ''admin'', rr_contexts = [''c'']\<rparr>"
  "refresh_mint example_backend example_refresh_session \<lparr>rr_role = ''admin'', rr_contexts = [''c'']\<rparr>
     (w_now example_refresh_world) (w_supply example_refresh_world (Suc (w_drawn example_refresh_world))) =
     Ok ''jwt.tokx''"
  "b_sha example_backend (w_supply example_refresh_world (w_drawn example_refresh_world)) \<noteq>
     b_sha example_backend (ri_refresh_token example_refresh_input)"
  by (simp_all add: example_refresh_defs renewable_with_def get_raw_def refresh_checks_def
      signer_mismatch_def past_end_def sat_sub_def refresh_mint_def refresh_amr_acr_def)


theorem replay_after_rotation_witness:
  "result_of (handle_refresh example_backend example_refresh_input)
     ((world_after (handle_refresh example_backend example_refresh_input) example_refresh_world)\<lparr>w_now := 1030\<rparr>) =
     Err RefreshTokenInvalid"
  using replay_after_rotation [OF example_rotation refl, of 1030]
  by (simp add: example_backend_def example_refresh_world_def sat_sub_def)

definition example_theft_world :: "(session_row, auth_audit_event) world" where
  "example_theft_world = example_refresh_world\<lparr>w_ks :=
     (rotated_key example_sha ''older'', RTombstone
        \<lparr>t_session_id = ''did:key:z1'', t_did = ''did:key:z1'', t_rotated_at = 999, t_expires_at = 5000,
         t_successor_hash = refresh_token_hash example_sha ''middle'', t_cause = Rotated\<rparr>)
     # w_ks example_refresh_world\<rparr>"

theorem reuse_revokes_session_witness:
  "result_of (handle_refresh example_backend \<lparr>ri_refresh_token = ''older'', ri_signer_did = None\<rparr>)
     example_theft_world = Err RefreshTokenInvalid \<and>
   get_raw (w_ks (world_after (handle_refresh example_backend \<lparr>ri_refresh_token = ''older'', ri_signer_did = None\<rparr>)
     example_theft_world)) (session_key ''did:key:z1'') = None"
proof -
  let ?input = "\<lparr>ri_refresh_token = ''older'', ri_signer_did = None\<rparr>"
  have live: "renewable_with (b_sha example_backend) ''old'' example_refresh_session (w_ks example_theft_world)"
    by (simp add: example_theft_world_def example_refresh_defs renewable_with_def get_raw_def)
  have spent: "get_raw (w_ks example_theft_world) (refresh_key (b_sha example_backend) (ri_refresh_token ?input)) = None"
    by (simp add: example_theft_world_def example_refresh_defs get_raw_def)
  have tomb: "get_raw (w_ks example_theft_world) (rotated_key (b_sha example_backend) (ri_refresh_token ?input)) =
      Some (RTombstone \<lparr>t_session_id = ''did:key:z1'', t_did = ''did:key:z1'', t_rotated_at = 999,
        t_expires_at = 5000, t_successor_hash = refresh_token_hash example_sha ''middle'', t_cause = Rotated\<rparr>)"
    by (simp add: example_theft_world_def example_refresh_defs get_raw_def)
  have sid: "session_id example_refresh_session = ''did:key:z1''" by (simp add: example_refresh_defs)
  show ?thesis using reuse_revokes_session [OF spent tomb _ live] sid
    by (simp add: example_backend_def refresh_token_hash_def)
qed

end
