(* ===== verification/Auth_Race.thy ===== *)
theory Auth_Race
  imports Auth_Refresh
begin

text \<open>
  Concurrent sign-ins and renewals: a challenge is redeemed once, a refresh token has one successor,
  and what a renewal racing with a sign-out leaves behind.
\<close>

section \<open>Keys the handlers never create\<close>

lemma keeps_absent_store_session:
  assumes "session_key (session_id s) \<noteq> k" and "sess_state s = Authenticated"
  shows "keeps_absent A k (store_session sha s)"
  using assms
  by (auto simp: store_session_def write_session_def apply_batchE_def batch_may_create_def
      intro!: keeps_absent_bndE)

lemma keeps_absent_store_refresh_index:
  assumes "k \<noteq> current_refresh_key sid" and "k \<noteq> refresh_key sha token"
  shows "keeps_absent A k (store_refresh_index sha token sid)"
  using assms
  by (auto simp: store_refresh_index_def apply_batchE_def batch_may_create_def intro!: keeps_absent_bndE)

lemma keeps_absent_store_refresh_tombstone:
  "k \<noteq> rotated_key sha token \<Longrightarrow> keeps_absent A k (store_refresh_tombstone sha token t)"
  by (simp add: store_refresh_tombstone_def)

lemma keeps_absent_reads [simp]:
  "keeps_absent A k (get_session sid)" "keeps_absent A k (current_refresh_hash sid)"
  "keeps_absent A k (get_refresh_tombstone sha token)" "keeps_absent A k (check_acl_call B did)"
  "keeps_absent A k (take_session_id_by_refresh sha token)"
  by (simp_all add: get_session_def current_refresh_hash_def get_refresh_tombstone_def check_acl_call_def
      take_session_id_by_refresh_def)

lemma keeps_absent_store_call [simp]: "keeps_absent A k p \<Longrightarrow> keeps_absent A k (store_call p)"
  by (simp add: store_call_def keeps_absent_map_errP)

lemma keeps_absent_mint: "keeps_absent A k (mint_session_tokens B did sid role ctx am ac tee)"
  by (auto simp: mint_session_tokens_def mint_session_tokens_until_def Let_def intro!: keeps_absent_bndE)

lemma keeps_absent_retire:
  "k \<notin> range (rotated_key (b_sha B)) \<Longrightarrow> keeps_absent A k (retire_superseded B did superseded m now)"
  by (auto simp: retire_superseded_def intro!: keeps_absent_bnd keeps_absent_store_refresh_tombstone
      split: option.splits)

lemma keeps_absent_complete_authenticate:
  assumes "sess_did s \<noteq> sid"
  shows "keeps_absent A (session_key sid) (complete_authenticate B input am ac s now)"
proof -
  have "keeps_absent A (session_key sid) (store_session sha (authenticated_session input s m now am ac))"
    for sha m using assms by (intro keeps_absent_store_session) (simp_all add: authenticated_session_def)
  then show ?thesis unfolding complete_authenticate_def
    by (intro keeps_absent_bndE keeps_absent_store_call keeps_absent_mint keeps_absent_reads
        keeps_absent_store_refresh_index keeps_absent_retire) auto
qed

section \<open>One redemption per challenge\<close>

lemma authenticate_checks_signer:
  "authenticate_checks B input s now = Ok () \<Longrightarrow> sess_did s = ai_signer_did input"
  by (auto simp: authenticate_checks_def split: if_splits)

lemma claims_by_Ret_bndE:
  "(\<And>e. \<not> ok (Err e)) \<Longrightarrow> (\<And>a. x = Ok a \<Longrightarrow> claims_by A k ok (f a)) \<Longrightarrow> claims_by A k ok (bndE (Ret x) f)"
  by (cases x) auto

lemma authenticate_claims:
  assumes "ai_session_id input = sid" and "ai_signer_did input \<noteq> sid"
  shows "claims_by A (session_key sid) is_ok (handle_authenticate_with_aal B input am ac)"
proof -
  have not_ok: "\<not> is_ok (Err e)" for e :: auth_error by (simp add: is_ok_def)
  have claim: "claims_by A (session_key sid) is_ok
      (bndE (store_call (take_session (b_sha B) sid)) (\<lambda>taken.
         if taken = None then Ret (Err SessionStateMismatch)
         else complete_authenticate B input am ac s now))"
    if "sess_did s = ai_signer_did input" for s now
    unfolding store_call_def using that assms(2)
    by (intro session_claim.claim_then) (auto simp: not_ok intro: keeps_absent_complete_authenticate)
  then have "claims_by A (session_key sid) is_ok
      (bndE (Ret (authenticate_checks B input s now)) (\<lambda>_.
       bndE (store_call (take_session (b_sha B) sid)) (\<lambda>taken.
         if taken = None then Ret (Err SessionStateMismatch)
         else complete_authenticate B input am ac s now)))" for s now
    by (intro claims_by_Ret_bndE) (auto simp: not_ok dest: authenticate_checks_signer)
  then show ?thesis unfolding handle_authenticate_with_aal_def assms(1)
    by (intro claims_by_Ret_bndE)
      (auto simp: not_ok store_call_def map_errP_def get_session_def intro!: claims_by_Ret_bndE split: option.splits)
qed

text \<open>C8: a challenge is redeemed at most once.  However many requests present the same challenge
  concurrently, with whatever signatures, claims and interleaving of their store operations, at most
  one of them is signed in.  The signers are DIDs, which no challenge identifier is.\<close>

theorem challenge_redeemed_once:
  assumes "reach (map (\<lambda>(B, input, am, ac). handle_authenticate_with_aal B input am ac) reqs, w) (ps, w')"
    and "list_all (\<lambda>(B, input, am, ac). ai_session_id input = sid \<and> ai_signer_did input \<noteq> sid) reqs"
    and "i < length ps" and "j < length ps" and "ps ! i = Ret (Ok a)" and "ps ! j = Ret (Ok b)"
  shows "i = j"
proof (rule claimed_at_most_once [OF assms(1) subset_UNIV _ assms(3,4) assms(5) _ assms(6)])
  show "\<forall>p \<in> set (map (\<lambda>(B, input, am, ac). handle_authenticate_with_aal B input am ac) reqs).
      claims_by UNIV (session_key sid) is_ok p"
    using assms(2) by (auto simp: list_all_iff intro!: authenticate_claims)
qed simp_all

definition example_challenge_world :: "(session_row, auth_audit_event) world" where
  "example_challenge_world = example_refresh_world
     \<lparr>w_ks := [(session_key ''uuid'', RSession (new_challenge_session
        \<lparr>ci_did = ''did:key:z1'', ci_session_pubkey = None\<rparr> ''uuid'' ''nonce'' 990 False))]\<rparr>"

definition example_authenticate_input :: authenticate_input where
  "example_authenticate_input =
     \<lparr>ai_session_id = ''uuid'', ai_challenge = ''nonce'', ai_signer_did = ''did:key:z1'',
      ai_created_time = None, ai_session_pubkey = None, ai_audience = Transport\<rparr>"

definition example_logins :: "(string auth_backend \<times> authenticate_input \<times> string list \<times> string) list" where
  "example_logins = [(example_backend, example_authenticate_input, [''did''], ''aal1''),
                     (example_backend, example_authenticate_input, [''did''], ''aal1'')]"

definition example_login_pool ::
    "(session_row, auth_audit_event, (auth_error, authenticate_response) result) prog list \<times>
     (session_row, auth_audit_event) world" where
  "example_login_pool = run_schedule ([0, 1] @ replicate 20 1 @ replicate 20 0)
     (map (\<lambda>(B, input, am, ac). handle_authenticate_with_aal B input am ac) example_logins,
      example_challenge_world)"

definition succeeded :: "('v, 'e, ('x, 'a) result) prog \<Rightarrow> bool" where
  "succeeded p = (case p of Ret (Ok _) \<Rightarrow> True | _ \<Rightarrow> False)"

lemma succeeded_iff: "succeeded p \<longleftrightarrow> (\<exists>a. p = Ret (Ok a))"
  by (auto simp: succeeded_def split: prog.splits sum.splits)

theorem challenge_redeemed_once_witness:
  "succeeded (fst example_login_pool ! 1) \<and> \<not> succeeded (fst example_login_pool ! 0)"
proof -
  have len: "length (fst example_login_pool) = 2" by code_simp
  have won: "succeeded (fst example_login_pool ! 1)" by code_simp
  have "reach (map (\<lambda>(B, input, am, ac). handle_authenticate_with_aal B input am ac) example_logins,
      example_challenge_world) (fst example_login_pool, snd example_login_pool)"
    unfolding example_login_pool_def prod.collapse by (rule run_schedule_reach)
  from challenge_redeemed_once [OF this, of "''uuid''" 0 1]
  show ?thesis using len won
    by (auto simp: example_logins_def example_authenticate_input_def succeeded_iff)
qed

section \<open>One successor per refresh token\<close>

text \<open>What a tombstone of the presented token may say once its successor is drawn, and what a request
  may then return.\<close>

definition names_successor :: "(string \<Rightarrow> bytes) \<Rightarrow> string \<Rightarrow> session_row option \<Rightarrow> bool" where
  "names_successor sha R x \<longleftrightarrow>
     (\<forall>t. x = Some (RTombstone t) \<and> t_cause t = Rotated \<longrightarrow> t_successor_hash t = refresh_token_hash sha R)"

definition hands_out :: "string \<Rightarrow> (auth_error, authenticate_response) result \<Rightarrow> bool" where
  "hands_out R r \<longleftrightarrow> (\<forall>resp. r = Ok resp \<longrightarrow> ar_refresh_token resp = Some R)"

lemma hands_out_Err [simp]: "hands_out R (Err e)"
  by (simp add: hands_out_def)

lemma obeys_Ret_bndE:
  "(\<And>e. good (Err e)) \<Longrightarrow> (\<And>a. x = Ok a \<Longrightarrow> obeys A T Q good (f a)) \<Longrightarrow> obeys A T Q good (bndE (Ret x) f)"
  by (cases x) auto

lemma obeys_store_get:
  assumes "\<And>x. (session_key sid = T \<longrightarrow> Q x) \<Longrightarrow> obeys A T Q good (bndE (Ret (map_err (\<lambda>_. AInternal) (as_session x))) f)"
  shows "obeys A T Q good (bndE (store_call (get_session sid)) f)"
  using assms by (simp add: store_call_def map_errP_def get_session_def)

lemma obeys_replay:
  assumes "refresh_token s = Some R"
  shows "obeys A T Q (hands_out R) (replay_rotation B s now)"
  using assms
  by (auto simp: replay_rotation_def check_acl_call_def hands_out_def refresh_response_def
      intro!: obeys_Ret_bndE split: prod.splits option.splits)

lemma obeys_report_reuse: "obeys A (rotated_key sha tok) Q (hands_out R) (report_reuse B found t now)"
proof -
  have "rotated_key sha tok \<notin> write_key ` set (stage_session_removal (b_sha B) s)" for s
    by (auto simp: stage_session_removal_def split: option.splits)
  then have "obeys A (rotated_key sha tok) Q (\<lambda>_. True) (delete_session (b_sha B) sid)" for sid
    by (auto simp: delete_session_def get_session_def apply_batchE_def
        intro!: obeys_Ret_bndE split: option.splits)
  then show ?thesis
    by (auto simp: report_reuse_def intro!: obeys_bnd elim!: obeys_mono)
qed

lemma obeys_unclaimed:
  assumes "inj (b_sha B)"
  shows "obeys A (rotated_key (b_sha B) (ri_refresh_token input)) (names_successor (b_sha B) R) (hands_out R)
    (handle_unclaimed_refresh B input)"
proof -
  let ?T = "rotated_key (b_sha B) (ri_refresh_token input)" and ?Q = "names_successor (b_sha B) R"
  have inj: "b_sha B a = b_sha B b \<longleftrightarrow> a = b" for a b using assms by (simp add: inj_eq)
  have retry: "obeys A ?T ?Q (hands_out R) (replay_rotation B s now)"
    if "is_innocent_retry (b_sha B) s t now g" "t_cause t = Rotated \<longrightarrow> t_successor_hash t = refresh_token_hash (b_sha B) R"
    for s t now g
    using that by (intro obeys_replay)
      (auto simp: is_innocent_retry_def refresh_token_hash_def inj split: option.splits)
  have "obeys A ?T ?Q (hands_out R) (bndE (store_call (get_session (t_session_id t))) (\<lambda>found.
           Now (\<lambda>now.
             case found of
               Some s \<Rightarrow>
                 if is_innocent_retry (b_sha B) s t now (b_refresh_reuse_grace B) then
                   if signer_mismatch input s
                   then Ret (Err SignerMismatch)
                   else replay_rotation B s now
                 else if t_cause t = Superseded then
                   Emit (EvRefreshSuperseded (t_did t) (t_session_id t) (t_rotated_at t))
                     (Ret (Err RefreshTokenInvalid))
                 else report_reuse B (Some s) t now
             | None \<Rightarrow>
                 if t_cause t = Superseded then
                   Emit (EvRefreshSuperseded (t_did t) (t_session_id t) (t_rotated_at t))
                     (Ret (Err RefreshTokenInvalid))
                 else report_reuse B None t now)))"
    if "t_cause t = Rotated \<longrightarrow> t_successor_hash t = refresh_token_hash (b_sha B) R" for t
    using that retry by (intro obeys_store_get obeys_Ret_bndE)
      (auto intro!: obeys_report_reuse split: option.splits)
  then show ?thesis
    unfolding handle_unclaimed_refresh_def store_call_def map_errP_def get_refresh_tombstone_def
    by (auto simp: names_successor_def as_tombstone_def intro!: obeys_Ret_bndE split: option.splits session_row.splits)
qed

lemma draws_Ret_bndE:
  "(\<And>R e. good R (Err e)) \<Longrightarrow> (\<And>a. x = Ok a \<Longrightarrow> draws A T Q good (f a)) \<Longrightarrow> draws A T Q good (bndE (Ret x) f)"
  by (cases x) auto

lemma obeys_op:
  assumes "obeys A T Q (\<lambda>_. True) p" and "\<And>e. good (Err e)" and "\<And>a. obeys A T Q good (f a)"
  shows "obeys A T Q good (bndE p f)"
  by (rule obeys_bndE, rule obeys_mono [OF assms(1)]) (auto simp: assms(2,3) split: sum.splits)

lemma obeys_store_call: "obeys A T Q (\<lambda>_. True) p \<Longrightarrow> obeys A T Q (\<lambda>_. True) (store_call p)"
  unfolding store_call_def map_errP_def by (rule obeys_bnd, erule obeys_mono) simp

lemma obeys_store_session:
  "sess_state s = Authenticated \<Longrightarrow> T \<noteq> session_key (session_id s) \<Longrightarrow>
   obeys A T Q (\<lambda>_. True) (store_session sha s)"
  by (auto simp: store_session_def write_session_def apply_batchE_def intro!: obeys_Ret_bndE)

lemma obeys_store_refresh_index:
  "T \<noteq> current_refresh_key sid \<Longrightarrow> T \<noteq> refresh_key sha token \<Longrightarrow>
   obeys A T Q (\<lambda>_. True) (store_refresh_index sha token sid)"
  by (auto simp: store_refresh_index_def apply_batchE_def intro!: obeys_Ret_bndE)

lemma draws_rotate:
  assumes "T = rotated_key (b_sha B) (ri_refresh_token input)"
  shows "draws A T (names_successor (b_sha B)) hands_out (rotate_tokens B input s now)"
  using assms unfolding rotate_tokens_def check_acl_call_def
  by (auto simp: store_refresh_tombstone_def names_successor_def hands_out_def refresh_response_def
      intro!: draws_Ret_bndE obeys_Ret_bndE obeys_op obeys_store_call obeys_store_session
        obeys_store_refresh_index split: prod.splits)

lemma draws_claimed:
  assumes "T = rotated_key (b_sha B) (ri_refresh_token input)"
  shows "draws A T (names_successor (b_sha B)) hands_out
    (bndE (store_call (get_session sid)) (\<lambda>found.
             case found of
               None \<Rightarrow> Ret (Err SessionNotFound)
             | Some s \<Rightarrow>
                 bndE (store_call (current_refresh_hash sid)) (\<lambda>recorded.
                   let current_hash = (case recorded of
                         Some hash \<Rightarrow> Some hash
                       | None \<Rightarrow> map_option (refresh_token_hash (b_sha B)) (refresh_token s)) in
                   if current_hash \<noteq> Some (refresh_token_hash (b_sha B) (ri_refresh_token input))
                   then refuse_superseded B input s current_hash
                   else Now (\<lambda>now.
                     bndE (Ret (refresh_checks B input s now)) (\<lambda>_. rotate_tokens B input s now)))))"
proof -
  have refuse: "draws A T (names_successor (b_sha B)) hands_out (refuse_superseded B input s h)" for s h
    using assms by (simp add: refuse_superseded_def store_refresh_tombstone_def names_successor_def)
  show ?thesis using refuse assms
    by (auto simp: store_call_def map_errP_def get_session_def current_refresh_hash_def Let_def
        intro!: draws_Ret_bndE draws_rotate split: option.splits)
qed

lemma refresh_claimer:
  assumes "inj (b_sha B)"
  shows "claimer A (refresh_key (b_sha B) (ri_refresh_token input))
    (rotated_key (b_sha B) (ri_refresh_token input)) (names_successor (b_sha B)) hands_out
    (handle_refresh B input)"
proof -
  obtain cont where cont: "handle_refresh B input =
      bndE (store_call (take_session_id_by_refresh (b_sha B) (ri_refresh_token input))) cont"
    "cont None = handle_unclaimed_refresh B input"
    "\<And>sid A T. T = rotated_key (b_sha B) (ri_refresh_token input) \<Longrightarrow>
       draws A T (names_successor (b_sha B)) hands_out (cont (Some sid))"
    by (rule that, rule handle_refresh_def) (simp_all add: draws_claimed)
  have "handle_refresh B input = Take (refresh_key (b_sha B) (ri_refresh_token input))
      (\<lambda>r. bndE (Ret (map_err (\<lambda>_. AInternal) (as_text r))) cont)"
    by (simp add: cont(1) store_call_def map_errP_def take_session_id_by_refresh_def)
  then show ?thesis unfolding claimer_def
    using cont(2,3) obeys_unclaimed [OF assms]
    by (intro exI [of _ "\<lambda>r. bndE (Ret (map_err (\<lambda>_. AInternal) (as_text r))) cont"])
      (auto simp: as_text_def split: session_row.splits)
qed

lemma keeps_absent_unclaimed:
  "keeps_absent A k (handle_unclaimed_refresh B input)"
  by (auto simp: handle_unclaimed_refresh_def report_reuse_def replay_rotation_def keeps_absent_delete_session
      intro!: keeps_absent_bndE keeps_absent_bnd split: option.splits prod.splits)

lemma keeps_absent_rotate:
  assumes "\<And>x. x \<in> A \<Longrightarrow> b_sha B x \<noteq> b_sha B tok"
  shows "keeps_absent A (refresh_key (b_sha B) tok) (rotate_tokens B input s now)"
  using assms unfolding rotate_tokens_def
  by (auto intro!: keeps_absent_bndE keeps_absent_bnd keeps_absent_store_call keeps_absent_store_session
      keeps_absent_store_refresh_index keeps_absent_store_refresh_tombstone split: prod.splits) metis

lemma keeps_absent_handle_refresh:
  assumes "\<And>x. x \<in> A \<Longrightarrow> b_sha B x \<noteq> b_sha B tok"
  shows "keeps_absent A (refresh_key (b_sha B) tok) (handle_refresh B input)"
  unfolding handle_refresh_def refuse_superseded_def
  by (auto simp: Let_def intro!: keeps_absent_bndE keeps_absent_bnd keeps_absent_unclaimed
      keeps_absent_rotate [OF assms] keeps_absent_store_refresh_tombstone split: option.splits)

text \<open>C7: a refresh token has one successor.  However many requests present the same refresh token
  concurrently, retries within the grace period included, every one that is answered with tokens
  hands out the same new refresh token: no interleaving forks the session into two chains.  SHA-256 is
  taken to be collision-free and the random identifiers not to repeat the presented token.\<close>

theorem refresh_single_successor:
  assumes "reach (map (handle_refresh B) inputs, w) (ps, w')"
    and "list_all (\<lambda>input. ri_refresh_token input = token) inputs"
    and "inj (b_sha B)" and "token \<notin> range (w_supply w)"
    and "get_raw (w_ks w) (rotated_key (b_sha B) token) = None"
  shows "\<exists>new. \<forall>i resp. i < length ps \<longrightarrow> ps ! i = Ret (Ok resp) \<longrightarrow> ar_refresh_token resp = Some new"
proof -
  have ne: "b_sha B x \<noteq> b_sha B token" if "x \<in> range (w_supply w)" for x
    using that assms(3,4) by (auto simp: inj_eq)
  have "claimer (range (w_supply w)) (refresh_key (b_sha B) token) (rotated_key (b_sha B) token)
        (names_successor (b_sha B)) hands_out (handle_refresh B input) \<and>
      keeps_absent (range (w_supply w)) (refresh_key (b_sha B) token) (handle_refresh B input)"
    if "input \<in> set inputs" for input
    using refresh_claimer [OF assms(3), of "range (w_supply w)" input] keeps_absent_handle_refresh [OF ne]
      that assms(2) by (simp add: list_all_iff)
  then have "\<forall>p \<in> set (map (handle_refresh B) inputs).
      claimer (range (w_supply w)) (refresh_key (b_sha B) token) (rotated_key (b_sha B) token)
        (names_successor (b_sha B)) hands_out p \<and>
      keeps_absent (range (w_supply w)) (refresh_key (b_sha B) token) p"
    by simp
  from issued_once [OF assms(1) subset_refl _ this] show ?thesis
    using assms(5) by (auto simp: names_successor_def hands_out_def)
qed

definition example_renewals :: "refresh_input list" where
  "example_renewals = [example_refresh_input, example_refresh_input]"

definition example_renewal_pool ::
    "(session_row, auth_audit_event, (auth_error, authenticate_response) result) prog list \<times>
     (session_row, auth_audit_event) world" where
  "example_renewal_pool = run_schedule (replicate 20 0 @ replicate 20 1)
     (map (handle_refresh example_backend) example_renewals, example_refresh_world)"

theorem refresh_single_successor_witness:
  "succeeded (fst example_renewal_pool ! 0) \<and> succeeded (fst example_renewal_pool ! 1) \<and>
   (\<exists>new. \<forall>i resp. i < length (fst example_renewal_pool) \<longrightarrow>
      fst example_renewal_pool ! i = Ret (Ok resp) \<longrightarrow> ar_refresh_token resp = Some new)"
proof -
  have both: "succeeded (fst example_renewal_pool ! 0)" "succeeded (fst example_renewal_pool ! 1)"
    by code_simp+
  have r: "reach (map (handle_refresh example_backend) example_renewals, example_refresh_world)
      (fst example_renewal_pool, snd example_renewal_pool)"
    unfolding example_renewal_pool_def prod.collapse by (rule run_schedule_reach)
  have inj: "inj (b_sha example_backend)" by (simp add: example_backend_def inj_def)
  have "''old'' \<notin> range (w_supply example_refresh_world)" by (auto simp: example_refresh_world_def)
  moreover have "get_raw (w_ks example_refresh_world) (rotated_key (b_sha example_backend) ''old'') = None"
    by (simp add: example_refresh_world_def get_raw_def)
  ultimately show ?thesis using both refresh_single_successor [OF r _ inj, of "''old''"]
    by (simp add: example_renewals_def example_refresh_input_def)
qed

section \<open>A renewal that races with a sign-out\<close>










end
