(* ===== verification/Auth_Login.thy ===== *)
theory Auth_Login
  imports Auth_Race
begin

text \<open>
  Sign-in run alone (\<open>vti-common/src/auth/handlers\<close>): who can be signed in and what that leaves in
  the store, how a login retires the token of the one before it, what a challenge request discloses
  and how it keeps the number of outstanding challenges bounded.
\<close>

unbundle bit_operations_syntax

section \<open>Challenge comparison\<close>

lemma fold_or_zero:
  "fold (\<lambda>i diff. diff OR f i) is (d :: u8) = 0 \<longleftrightarrow> d = 0 \<and> (\<forall>i \<in> set is. f i = 0)"
proof (induction "is" arbitrary: d)
  case (Cons i "is")
  have "d OR f i = 0 \<longleftrightarrow> d = 0 \<and> f i = 0" by (rule or_eq_0_iff)
  then show ?case using Cons by auto
qed simp

lemma xor_zero: "(a :: u8) XOR b = 0 \<longleftrightarrow> a = b"
proof
  assume "a XOR b = 0"
  then have "(a XOR b) XOR b = b" by simp
  then show "a = b" by (simp add: xor.assoc)
qed simp

text \<open>The branch-free comparison of two challenges decides equality.\<close>

lemma constant_time_challenge_eq_iff: "constant_time_challenge_eq a b \<longleftrightarrow> a = b"
proof (cases "length a = length b")
  case True
  have "constant_time_challenge_eq a b \<longleftrightarrow> (\<forall>i < length a. byte_of (a ! i) XOR byte_of (b ! i) = 0)"
    using True unfolding constant_time_challenge_eq_def fold_or_zero by (simp add: Ball_def)
  also have "\<dots> \<longleftrightarrow> a = b" using True unfolding xor_zero byte_of_inj by (simp add: list_eq_iff_nth_eq)
  finally show ?thesis .
qed (auto simp: constant_time_challenge_eq_def)

section \<open>Authenticate\<close>

lemma run_take_session:
  "run (take_session sha sid) w =
     (case get_raw (w_ks w) (session_key sid) of
        None \<Rightarrow> (Ok None, w)
      | Some (RSession s) \<Rightarrow> (Ok (Some s),
          w\<lparr>w_ks := remove (pending_challenge_key sha (sess_did s) sid) (remove (session_key sid) (w_ks w))\<rparr>)
      | Some _ \<Rightarrow> (Err Internal, w\<lparr>w_ks := remove (session_key sid) (w_ks w)\<rparr>))"
  by (auto simp: take_session_def take_raw_def split: option.splits session_row.splits)

lemma run_mint_session_tokens:
  "run (mint_session_tokens B did sid role ctx am ac tee) w =
     (let jti = w_supply w (Suc (w_drawn w)); w' = w\<lparr>w_drawn := Suc (Suc (w_drawn w))\<rparr> in
      case b_mint_access_token B
             \<lparr>m_subject = did, m_session_id = sid, m_role = role, m_contexts = ctx, m_amr = am, m_acr = ac,
              m_tee_attested = tee, m_ttl_secs = acr_ttl B ac, m_jti = jti\<rparr> of
        Err e \<Rightarrow> (Err e, w')
      | Ok access \<Rightarrow> (Ok \<lparr>mt_access_token = access, mt_refresh_token = w_supply w (w_drawn w),
            mt_access_ttl = acr_ttl B ac, mt_access_expires_at = sat_add (w_now w) (acr_ttl B ac),
            mt_refresh_expires_at = sat_add (w_now w) (b_refresh_token_ttl B), mt_issued_at = w_now w,
            mt_token_id = jti\<rparr>, w'\<lparr>w_log := w_log w @ [EvAuthenticated did sid am ac]\<rparr>))"
  by (simp add: mint_session_tokens_def mint_session_tokens_until_def Let_def run_simps split: sum.splits)

text \<open>The effects of the steps of a login: the session it creates, the token of the row it replaces
  with that token's tombstone, and the store it leaves.\<close>

definition logged_in_session ::
    "'r auth_backend \<Rightarrow> authenticate_input \<Rightarrow> string list \<Rightarrow> string \<Rightarrow> session \<Rightarrow> (session_row, 'e) world \<Rightarrow> session" where
  "logged_in_session B input am ac s w =
     \<lparr> session_id = sess_did s, sess_did = sess_did s, challenge = [], sess_state = Authenticated,
       created_at = w_now w, last_seen = w_now w, refresh_token = Some (w_supply w (w_drawn w)),
       refresh_expires_at = Some (sat_add (w_now w) (b_refresh_token_ttl B)), tee_attested = tee_attested s,
       amr = am, acr = ac, acr_expires_at = None, token_id = Some (w_supply w (Suc (w_drawn w))),
       session_pubkey = (case ai_session_pubkey input of Some k \<Rightarrow> Some k | None \<Rightarrow> session_pubkey s),
       not_after = None \<rparr>"

definition login_mint ::
    "'r auth_backend \<Rightarrow> session \<Rightarrow> 'r role_resolution \<Rightarrow> string list \<Rightarrow> string \<Rightarrow> string \<Rightarrow> (auth_error, string) result" where
  "login_mint B s rr am ac jti = b_mint_access_token B
     \<lparr>m_subject = sess_did s, m_session_id = sess_did s, m_role = rr_role rr, m_contexts = rr_contexts rr,
      m_amr = am, m_acr = ac, m_tee_attested = tee_attested s, m_ttl_secs = acr_ttl B ac, m_jti = jti\<rparr>"

definition login_tombstone ::
    "'r auth_backend \<Rightarrow> string \<Rightarrow> (session_row, 'e) world \<Rightarrow> refresh_tombstone" where
  "login_tombstone B did w =
     \<lparr>t_session_id = did, t_did = did, t_rotated_at = w_now w,
      t_expires_at = sat_add (w_now w) (b_refresh_token_ttl B),
      t_successor_hash = refresh_token_hash (b_sha B) (w_supply w (w_drawn w)), t_cause = Superseded\<rparr>"

definition prior_token :: "session_row option \<Rightarrow> string option" where
  "prior_token r = (case r of Some (RSession p) \<Rightarrow> refresh_token p | _ \<Rightarrow> None)"

definition retired ::
    "(string \<Rightarrow> bytes) \<Rightarrow> string option \<Rightarrow> refresh_tombstone \<Rightarrow> (string, session_row) keyspace \<Rightarrow>
     (string, session_row) keyspace" where
  "retired sha old tomb ks =
     (case old of
        None \<Rightarrow> ks
      | Some t \<Rightarrow>
          (case as_text (get_raw ks (refresh_key sha t)) of
             Ok (Some _) \<Rightarrow> insert_raw (rotated_key sha t) (RTombstone tomb) (snd (take_raw (refresh_key sha t) ks))
           | _ \<Rightarrow> snd (take_raw (refresh_key sha t) ks)))"

definition logged_in ::
    "'r auth_backend \<Rightarrow> authenticate_input \<Rightarrow> string list \<Rightarrow> string \<Rightarrow> session \<Rightarrow> (session_row, 'e) world \<Rightarrow>
     (string, session_row) keyspace" where
  "logged_in B input am ac s w =
     (let r = w_supply w (w_drawn w) in
      retired (b_sha B) (prior_token (get_raw (w_ks w) (session_key (sess_did s)))) (login_tombstone B (sess_did s) w)
       (insert_raw (refresh_key (b_sha B) r) (RText (sess_did s))
         (insert_raw (current_refresh_key (sess_did s)) (RText (refresh_token_hash (b_sha B) r))
           (insert_raw (session_key (sess_did s)) (RSession (logged_in_session B input am ac s w)) (w_ks w)))))"

lemma run_retire_superseded:
  "run (retire_superseded B did old m now) w =
     (Ok (), w\<lparr>w_ks := retired (b_sha B) old
        \<lparr>t_session_id = did, t_did = did, t_rotated_at = now,
         t_expires_at = sat_add now (b_refresh_token_ttl B),
         t_successor_hash = refresh_token_hash (b_sha B) (mt_refresh_token m), t_cause = Superseded\<rparr> (w_ks w)\<rparr>)"
proof (cases old)
  case (Some t)
  then show ?thesis
    by (cases "as_text (get_raw (w_ks w) (refresh_key (b_sha B) t))")
      (auto simp: retire_superseded_def run_simps retired_def split: option.splits)
qed (simp add: retire_superseded_def retired_def)

lemma retired_get_raw:
  "get_raw (retired sha old tomb ks) k =
     (case old of
        None \<Rightarrow> get_raw ks k
      | Some t \<Rightarrow>
          if k = refresh_key sha t then None
          else if k = rotated_key sha t \<and> (\<exists>sid. get_raw ks (refresh_key sha t) = Some (RText sid))
          then Some (RTombstone tomb) else get_raw ks k)"
  by (auto simp: retired_def as_text_def split: option.splits session_row.splits)

lemma run_complete_authenticate:
  fixes w :: "(session_row, auth_audit_event) world"
  assumes "as_session (get_raw (w_ks w) (session_key (sess_did s))) = Ok prior"
    and "b_check_acl B (sess_did s) (w_now w) = Ok rr"
    and "login_mint B s rr am ac (w_supply w (Suc (w_drawn w))) = Ok access"
  shows "run (complete_authenticate B input am ac s (w_now w)) w =
      (Ok \<lparr>ar_id = sess_did s, ar_subject = sess_did s, ar_issued_at = w_now w,
           ar_expires_at = sat_add (w_now w) (acr_ttl B ac), ar_amr = am, ar_acr = ac,
           ar_access_token = access, ar_refresh_token = Some (w_supply w (w_drawn w)),
           ar_token_type = ''Bearer'', ar_expires_in = acr_ttl B ac,
           ar_refresh_expires_in = Some (b_refresh_token_ttl B), ar_scope = scope_of (rr_contexts rr)\<rparr>,
       w\<lparr>w_drawn := Suc (Suc (w_drawn w)), w_ks := logged_in B input am ac s w,
         w_log := w_log w @ [EvAuthenticated (sess_did s) (sess_did s) am ac]\<rparr>)"
proof -
  have "(case prior of Some p \<Rightarrow> refresh_token p | None \<Rightarrow> None) =
      prior_token (get_raw (w_ks w) (session_key (sess_did s)))"
    using assms(1) by (auto simp: as_session_def prior_token_def split: option.splits session_row.splits)
  then show ?thesis using assms
    by (simp add: complete_authenticate_def run_simps check_acl_call_def run_mint_session_tokens login_mint_def
        authenticated_session_def logged_in_session_def run_retire_superseded logged_in_def login_tombstone_def
        Let_def)
qed

lemma complete_authenticate_refused:
  assumes "run (complete_authenticate B input am ac s now) w = (Err e, w')"
  shows "w_ks w' = w_ks w"
  using assms
  by (auto simp: complete_authenticate_def run_simps check_acl_call_def run_mint_session_tokens Let_def
      authenticated_session_def run_retire_superseded split: sum.splits)

lemma complete_authenticate_ok_iff:
  "is_ok (result_of (complete_authenticate B input am ac s (w_now w)) w) \<longleftrightarrow>
     (\<exists>rr. b_check_acl B (sess_did s) (w_now w) = Ok rr \<and>
       is_ok (login_mint B s rr am ac (w_supply w (Suc (w_drawn w))))) \<and>
     is_ok (as_session (get_raw (w_ks w) (session_key (sess_did s))))"
  by (auto simp: complete_authenticate_def result_of_def run_simps check_acl_call_def run_mint_session_tokens Let_def
      authenticated_session_def run_retire_superseded login_mint_def is_ok_def split: sum.splits)

definition redeemed :: "(string \<Rightarrow> bytes) \<Rightarrow> authenticate_input \<Rightarrow> session \<Rightarrow> (session_row, 'e) world \<Rightarrow> (session_row, 'e) world" where
  "redeemed sha input s w =
     w\<lparr>w_ks := remove (pending_challenge_key sha (sess_did s) (ai_session_id input))
               (remove (session_key (ai_session_id input)) (w_ks w))\<rparr>"

lemma redeemed_simps [simp]:
  "w_now (redeemed sha input s w) = w_now w" "w_supply (redeemed sha input s w) = w_supply w"
  "w_drawn (redeemed sha input s w) = w_drawn w"
  "get_raw (w_ks (redeemed sha input s w)) (session_key sid) =
     (if sid = ai_session_id input then None else get_raw (w_ks w) (session_key sid))"
  "get_raw (w_ks (redeemed sha input s w)) (refresh_key sha' t) = get_raw (w_ks w) (refresh_key sha' t)"
  by (simp_all add: redeemed_def)

lemma run_authenticate:
  "run (handle_authenticate_with_aal B input am ac) w =
     (case audience_check (ai_audience input) of
        Err e \<Rightarrow> (Err e, w)
      | Ok _ \<Rightarrow>
          (case get_raw (w_ks w) (session_key (ai_session_id input)) of
             None \<Rightarrow> (Err SessionNotFound, w)
           | Some (RSession s) \<Rightarrow>
               (case authenticate_checks B input s (w_now w) of
                  Err e \<Rightarrow> (Err e, w)
                | Ok _ \<Rightarrow> run (complete_authenticate B input am ac s (w_now w)) (redeemed (b_sha B) input s w))
           | Some _ \<Rightarrow> (Err AInternal, w)))"
  by (auto simp: handle_authenticate_with_aal_def run_simps as_session_def run_take_session redeemed_def
      split: option.splits session_row.splits sum.splits)

lemma authenticate_checks_ok:
  "authenticate_checks B input s now = Ok () \<longleftrightarrow>
     sess_state s = ChallengeSent \<and> challenge s = ai_challenge input \<and> sess_did s = ai_signer_did input \<and>
     sat_sub now (created_at s) \<le> b_challenge_ttl B \<and>
     (\<forall>ct. ai_created_time input = Some ct \<longrightarrow>
        created_at s \<le> ct \<and> sat_sub now ct \<le> b_didcomm_freshness_window B)"
  by (auto simp: authenticate_checks_def constant_time_challenge_eq_iff check_freshness_def not_less
      split: option.splits)

text \<open>The conditions of a login: the request is addressed to this service, it answers an outstanding
  challenge issued to its signer, in time, the signer is enrolled, and a token can be minted.\<close>

definition answers_challenge ::
    "'r auth_backend \<Rightarrow> authenticate_input \<Rightarrow> session \<Rightarrow> (session_row, 'e) world \<Rightarrow> bool" where
  "answers_challenge B input s w \<longleftrightarrow>
     audience_check (ai_audience input) = Ok () \<and>
     get_raw (w_ks w) (session_key (ai_session_id input)) = Some (RSession s) \<and>
     sess_state s = ChallengeSent \<and> challenge s = ai_challenge input \<and> sess_did s = ai_signer_did input \<and>
     sat_sub (w_now w) (created_at s) \<le> b_challenge_ttl B \<and>
     (\<forall>ct. ai_created_time input = Some ct \<longrightarrow>
        created_at s \<le> ct \<and> sat_sub (w_now w) ct \<le> b_didcomm_freshness_window B)"

definition login_accepted ::
    "'r auth_backend \<Rightarrow> authenticate_input \<Rightarrow> string list \<Rightarrow> string \<Rightarrow> session \<Rightarrow> (session_row, 'e) world \<Rightarrow> bool" where
  "login_accepted B input am ac s w \<longleftrightarrow>
     answers_challenge B input s w \<and>
     (\<exists>rr. b_check_acl B (ai_signer_did input) (w_now w) = Ok rr \<and>
        is_ok (login_mint B s rr am ac (w_supply w (Suc (w_drawn w))))) \<and>
     is_ok (as_session (get_raw (w_ks w) (session_key (ai_signer_did input))))"

lemma run_authenticate_answering:
  assumes "answers_challenge B input s w"
  shows "run (handle_authenticate_with_aal B input am ac) w =
    run (complete_authenticate B input am ac s (w_now w)) (redeemed (b_sha B) input s w)"
proof -
  have "authenticate_checks B input s (w_now w) = Ok ()"
    using assms by (simp add: answers_challenge_def authenticate_checks_ok)
  then show ?thesis using assms by (simp add: run_authenticate answers_challenge_def)
qed

lemma run_authenticate_refused:
  assumes "\<And>s. \<not> answers_challenge B input s w"
  obtains e where "run (handle_authenticate_with_aal B input am ac) w = (Err e, w)"
proof -
  have "\<exists>e. run (handle_authenticate_with_aal B input am ac) w = (Err e, w)"
    using assms authenticate_checks_ok [of B input _ "w_now w"] unfolding run_authenticate answers_challenge_def
    by (auto split: option.splits session_row.splits sum.splits)
  then show ?thesis using that by blast
qed

lemma login_ok_iff:
  assumes "ai_session_id input \<noteq> ai_signer_did input"
  shows "is_ok (result_of (handle_authenticate_with_aal B input am ac) w) \<longleftrightarrow>
    (\<exists>s. login_accepted B input am ac s w)"
proof (cases "\<exists>s. answers_challenge B input s w")
  case True
  then obtain s where s: "answers_challenge B input s w" by blast
  then have uniq: "answers_challenge B input s' w \<longleftrightarrow> s' = s" for s'
    by (auto simp: answers_challenge_def)
  have did: "sess_did s = ai_signer_did input" using s by (simp add: answers_challenge_def)
  have "is_ok (result_of (handle_authenticate_with_aal B input am ac) w) \<longleftrightarrow>
      is_ok (result_of (complete_authenticate B input am ac s (w_now (redeemed (b_sha B) input s w)))
        (redeemed (b_sha B) input s w))"
    by (simp add: result_of_def run_authenticate_answering [OF s])
  then show ?thesis using assms did
    by (simp add: complete_authenticate_ok_iff login_accepted_def uniq del: redeemed_simps(1))
      (simp)
next
  case False
  then obtain e where "run (handle_authenticate_with_aal B input am ac) w = (Err e, w)"
    using run_authenticate_refused by metis
  then show ?thesis using False by (auto simp: result_of_def login_accepted_def is_ok_def)
qed

lemma logged_in_renewable:
  assumes "\<And>t. prior_token (get_raw (w_ks w) (session_key (sess_did s))) = Some t \<Longrightarrow>
    b_sha B t \<noteq> b_sha B (w_supply w (w_drawn w))"
  shows "renewable_with (b_sha B) (w_supply w (w_drawn w)) (logged_in_session B input am ac s w)
    (logged_in B input am ac s w)"
  using assms
  by (auto simp: renewable_with_def logged_in_def retired_get_raw Let_def logged_in_session_def split: option.splits)

lemma logged_in_session_rows:
  "get_raw (logged_in B input am ac s w) (session_key sid) =
     (if sid = sess_did s then Some (RSession (logged_in_session B input am ac s w))
      else get_raw (w_ks w) (session_key sid))"
  by (auto simp: logged_in_def retired_get_raw Let_def split: option.splits)

lemma login_success:
  fixes w :: "(session_row, auth_audit_event) world"
  assumes "login_accepted B input am ac s w" and uuid: "ai_session_id input \<noteq> ai_signer_did input"
  obtains rr access where
    "b_check_acl B (ai_signer_did input) (w_now w) = Ok rr"
    "run (handle_authenticate_with_aal B input am ac) w =
      (Ok \<lparr>ar_id = ai_signer_did input, ar_subject = ai_signer_did input, ar_issued_at = w_now w,
           ar_expires_at = sat_add (w_now w) (acr_ttl B ac), ar_amr = am, ar_acr = ac,
           ar_access_token = access, ar_refresh_token = Some (w_supply w (w_drawn w)),
           ar_token_type = ''Bearer'', ar_expires_in = acr_ttl B ac,
           ar_refresh_expires_in = Some (b_refresh_token_ttl B), ar_scope = scope_of (rr_contexts rr)\<rparr>,
       w\<lparr>w_drawn := Suc (Suc (w_drawn w)), w_ks := logged_in B input am ac s (redeemed (b_sha B) input s w),
         w_log := w_log w @ [EvAuthenticated (ai_signer_did input) (ai_signer_did input) am ac]\<rparr>)"
proof -
  obtain rr access prior where acc: "answers_challenge B input s w"
    and rr: "b_check_acl B (ai_signer_did input) (w_now w) = Ok rr"
    and "login_mint B s rr am ac (w_supply w (Suc (w_drawn w))) = Ok access"
    and "as_session (get_raw (w_ks w) (session_key (ai_signer_did input))) = Ok prior"
    using assms(1) unfolding login_accepted_def is_ok_iff by blast
  moreover have did: "sess_did s = ai_signer_did input" using acc by (simp add: answers_challenge_def)
  ultimately have "run (complete_authenticate B input am ac s (w_now w)) (redeemed (b_sha B) input s w) =
      (Ok \<lparr>ar_id = ai_signer_did input, ar_subject = ai_signer_did input, ar_issued_at = w_now w,
           ar_expires_at = sat_add (w_now w) (acr_ttl B ac), ar_amr = am, ar_acr = ac,
           ar_access_token = access, ar_refresh_token = Some (w_supply w (w_drawn w)),
           ar_token_type = ''Bearer'', ar_expires_in = acr_ttl B ac,
           ar_refresh_expires_in = Some (b_refresh_token_ttl B), ar_scope = scope_of (rr_contexts rr)\<rparr>,
       w\<lparr>w_drawn := Suc (Suc (w_drawn w)), w_ks := logged_in B input am ac s (redeemed (b_sha B) input s w),
         w_log := w_log w @ [EvAuthenticated (ai_signer_did input) (ai_signer_did input) am ac]\<rparr>)"
    using uuid run_complete_authenticate [of "redeemed (b_sha B) input s w" s prior B rr am ac access input]
    by (simp add: redeemed_def)
  then show ?thesis using that rr run_authenticate_answering [OF acc] by simp
qed

lemma login_refused:
  assumes "result_of (handle_authenticate_with_aal B input am ac) w = Err e"
  defines "ks' \<equiv> w_ks (world_after (handle_authenticate_with_aal B input am ac) w)"
  shows "get_raw ks' k = get_raw (w_ks w) k \<or> get_raw ks' k = None \<and> (\<exists>s. answers_challenge B input s w)"
proof (cases "\<exists>s. answers_challenge B input s w")
  case True
  then obtain s where s: "answers_challenge B input s w" by blast
  have "run (complete_authenticate B input am ac s (w_now w)) (redeemed (b_sha B) input s w) =
      (Err e, world_after (handle_authenticate_with_aal B input am ac) w)"
    using assms(1) by (simp add: result_of_def world_after_def run_authenticate_answering [OF s] prod_eq_iff)
  then have "ks' = w_ks (redeemed (b_sha B) input s w)"
    using complete_authenticate_refused ks'_def by fastforce
  then show ?thesis using True by (auto simp: redeemed_def)
next
  case False
  then obtain e where "run (handle_authenticate_with_aal B input am ac) w = (Err e, w)"
    using run_authenticate_refused by metis
  then show ?thesis by (simp add: ks'_def world_after_def)
qed

text \<open>C3: a sign-in succeeds exactly when the request is addressed to this service, answers with its own
  signature an outstanding challenge that was issued to its signer and has not expired (a request that
  states when it was made must moreover have been made after the challenge and within the freshness window),
  the signer is enrolled, the host mints the access token, and the signer's previous session row, if there
  is one, can be read. The challenge session's identifier is not the signer's own, and the new refresh token's
  digest differs from that of the signer's previous token. A sign-in then names its signer as the subject, the challenge is spent, the signer's session is the
  new one and can be renewed with the refresh token handed out, and no other session changes. A refused
  request signs nobody in: it creates nothing in the store, and changes nothing at all unless it answered
  the challenge.\<close>

theorem authenticate_exact:
  fixes w :: "(session_row, auth_audit_event) world" and B am ac
  assumes uuid: "ai_session_id input \<noteq> ai_signer_did input"
    and fresh: "\<And>t. prior_token (get_raw (w_ks w) (session_key (ai_signer_did input))) = Some t \<Longrightarrow>
      b_sha B t \<noteq> b_sha B (w_supply w (w_drawn w))"
  defines "r \<equiv> result_of (handle_authenticate_with_aal B input am ac) w"
    and "ks' \<equiv> w_ks (world_after (handle_authenticate_with_aal B input am ac) w)"
  shows "((\<exists>resp. r = Ok resp) \<longleftrightarrow> (\<exists>s. login_accepted B input am ac s w)) \<and>
    (\<forall>resp. r = Ok resp \<longrightarrow>
      ar_subject resp = ai_signer_did input \<and> ar_refresh_token resp = Some (w_supply w (w_drawn w)) \<and>
      get_raw ks' (session_key (ai_session_id input)) = None \<and>
      (\<exists>s. session_id s = ai_signer_did input \<and> sess_did s = ai_signer_did input \<and> sess_state s = Authenticated \<and>
         amr s = am \<and> acr s = ac \<and> renewable_with (b_sha B) (w_supply w (w_drawn w)) s ks') \<and>
      (\<forall>sid. sid \<noteq> ai_session_id input \<and> sid \<noteq> ai_signer_did input \<longrightarrow>
         get_raw ks' (session_key sid) = get_raw (w_ks w) (session_key sid))) \<and>
    (\<forall>e k. r = Err e \<longrightarrow> get_raw ks' k = get_raw (w_ks w) k \<or>
      get_raw ks' k = None \<and> (\<exists>s. answers_challenge B input s w))"
proof (intro conjI allI impI)
  show ok_iff: "(\<exists>resp. r = Ok resp) \<longleftrightarrow> (\<exists>s. login_accepted B input am ac s w)"
    using login_ok_iff [OF uuid, of B am ac w] by (simp add: r_def is_ok_iff)
  fix resp assume ok: "r = Ok resp"
  then obtain s where acc: "login_accepted B input am ac s w" using ok_iff by blast
  then have did: "sess_did s = ai_signer_did input" by (simp add: login_accepted_def answers_challenge_def)
  let ?w = "redeemed (b_sha B) input s w"
  have ks': "ks' = logged_in B input am ac s ?w"
    by (rule login_success [OF acc uuid]) (simp add: ks'_def world_after_def)
  show "ar_subject resp = ai_signer_did input"
    by (rule login_success [OF acc uuid]) (use ok in \<open>auto simp: r_def result_of_def\<close>)
  show "ar_refresh_token resp = Some (w_supply w (w_drawn w))"
    by (rule login_success [OF acc uuid]) (use ok in \<open>auto simp: r_def result_of_def\<close>)
  show "get_raw ks' (session_key (ai_session_id input)) = None"
    using uuid did by (simp add: ks' logged_in_session_rows)
  show "\<exists>s. session_id s = ai_signer_did input \<and> sess_did s = ai_signer_did input \<and> sess_state s = Authenticated \<and>
      amr s = am \<and> acr s = ac \<and> renewable_with (b_sha B) (w_supply w (w_drawn w)) s ks'"
    using logged_in_renewable [of ?w s B input am ac] fresh uuid did
    by (intro exI [of _ "logged_in_session B input am ac s ?w"]) (simp add: ks' logged_in_session_def)
  show "get_raw ks' (session_key sid) = get_raw (w_ks w) (session_key sid)"
    if "sid \<noteq> ai_session_id input \<and> sid \<noteq> ai_signer_did input" for sid
    using that did by (simp add: ks' logged_in_session_rows)
next
  fix e k assume "r = Err e"
  then show "get_raw ks' k = get_raw (w_ks w) k \<or> get_raw ks' k = None \<and> (\<exists>s. answers_challenge B input s w)"
    using login_refused unfolding r_def ks'_def by blast
qed

theorem authenticate_exact_witness:
  "login_accepted example_backend example_authenticate_input [''did''] ''aal1''
     (new_challenge_session \<lparr>ci_did = ''did:key:z1'', ci_session_pubkey = None\<rparr> ''uuid'' ''nonce'' 990 False)
     example_challenge_world \<and>
   is_ok (result_of (handle_authenticate_with_aal example_backend example_authenticate_input [''did''] ''aal1'')
     example_challenge_world)"
proof -
  have "login_accepted example_backend example_authenticate_input [''did''] ''aal1''
     (new_challenge_session \<lparr>ci_did = ''did:key:z1'', ci_session_pubkey = None\<rparr> ''uuid'' ''nonce'' 990 False)
     example_challenge_world"
    unfolding login_accepted_def answers_challenge_def is_ok_iff
    by (simp add: example_authenticate_input_def example_challenge_world_def example_refresh_world_def audience_check_def
        new_challenge_session_def example_backend_def as_session_def login_mint_def get_raw_def sat_sub_def)
  moreover have "prior_token (get_raw (w_ks example_challenge_world) (session_key (ai_signer_did example_authenticate_input))) = None"
    by (simp add: example_challenge_world_def example_authenticate_input_def prior_token_def get_raw_def)
  ultimately show ?thesis
    using authenticate_exact [of example_authenticate_input example_challenge_world example_backend "[''did'']" "''aal1''"]
    by (auto simp: is_ok_iff example_authenticate_input_def)
qed

section \<open>A login replaces the one before\<close>

lemma logged_in_retires:
  assumes "prior_token (get_raw (w_ks w) (session_key (sess_did s))) = Some t"
    and "get_raw (w_ks w) (refresh_key (b_sha B) t) = Some (RText sid)"
    and "b_sha B t \<noteq> b_sha B (w_supply w (w_drawn w))"
  shows "get_raw (logged_in B input am ac s w) (refresh_key (b_sha B) t) = None"
    and "get_raw (logged_in B input am ac s w) (rotated_key (b_sha B) t) =
      Some (RTombstone (login_tombstone B (sess_did s) w))"
  using assms by (simp_all add: logged_in_def retired_get_raw Let_def)

text \<open>C31: after a new sign-in the refresh token of the one before is refused, whenever it is presented
  and by whomever. The refusal is reported as a superseded token, not as theft: the new session keeps
  running, and its own token still renews it.\<close>

theorem login_supersedes_old_token:
  fixes w :: "(session_row, auth_audit_event) world"
  assumes acc: "login_accepted B input am ac s w" and uuid: "ai_session_id input \<noteq> ai_signer_did input"
    and old: "renewable_with (b_sha B) old p (w_ks w)" "session_id p = ai_signer_did input"
    and fresh: "b_sha B old \<noteq> b_sha B (w_supply w (w_drawn w))"
    and later: "w' = (world_after (handle_authenticate_with_aal B input am ac) w)\<lparr>w_now := later\<rparr>"
    and ri: "ri_refresh_token ri = old"
  shows "result_of (handle_refresh B ri) w' = Err RefreshTokenInvalid \<and>
    w_log (world_after (handle_refresh B ri) w') =
      w_log w' @ [EvRefreshSuperseded (ai_signer_did input) (ai_signer_did input) (w_now w)] \<and>
    (\<exists>s'. session_id s' = ai_signer_did input \<and>
       renewable_with (b_sha B) (w_supply w (w_drawn w)) s' (w_ks (world_after (handle_refresh B ri) w')))"
proof -
  have did: "sess_did s = ai_signer_did input" using acc by (simp add: login_accepted_def answers_challenge_def)
  let ?w = "redeemed (b_sha B) input s w" and ?ks = "logged_in B input am ac s (redeemed (b_sha B) input s w)"
  have ks: "w_ks w' = ?ks" "w_now w' = later"
    by (rule login_success [OF acc uuid]; simp add: later world_after_def)+
  have prior: "prior_token (get_raw (w_ks ?w) (session_key (sess_did s))) = Some old"
    "get_raw (w_ks ?w) (refresh_key (b_sha B) old) = Some (RText (session_id p))"
    using old uuid did by (auto simp: renewable_with_def prior_token_def)
  note retired = logged_in_retires [OF prior, of input am ac, simplified, OF fresh]
  have new: "renewable_with (b_sha B) (w_supply w (w_drawn w)) (logged_in_session B input am ac s ?w) ?ks"
    using logged_in_renewable [of ?w s B input am ac] prior fresh by simp
  have "run (handle_refresh B ri) w' = (Err RefreshTokenInvalid,
      w'\<lparr>w_log := w_log w' @ [EvRefreshSuperseded (ai_signer_did input) (ai_signer_did input) (w_now w)]\<rparr>)"
    using retired did
    by (subst run_refresh_unclaimed [where t = "login_tombstone B (sess_did s) ?w"
          and s = "logged_in_session B input am ac s ?w"])
      (simp_all add: ks ri logged_in_session_rows login_tombstone_def is_innocent_retry_def)
  then show ?thesis
    using new did ks by (auto simp: result_of_def world_after_def logged_in_session_def
        intro: exI [of _ "logged_in_session B input am ac s ?w"])
qed

definition example_relogin_world :: "(session_row, auth_audit_event) world" where
  "example_relogin_world = example_refresh_world
     \<lparr>w_ks := w_ks example_challenge_world @ w_ks example_refresh_world\<rparr>"

theorem login_supersedes_old_token_witness:
  "result_of (handle_refresh example_backend \<lparr>ri_refresh_token = ''old'', ri_signer_did = None\<rparr>)
     ((world_after (handle_authenticate_with_aal example_backend example_authenticate_input [''did''] ''aal1'')
       example_relogin_world)\<lparr>w_now := 1001\<rparr>) = Err RefreshTokenInvalid"
proof -
  let ?s = "new_challenge_session \<lparr>ci_did = ''did:key:z1'', ci_session_pubkey = None\<rparr> ''uuid'' ''nonce'' 990 False"
  have "login_accepted example_backend example_authenticate_input [''did''] ''aal1'' ?s example_relogin_world"
    unfolding login_accepted_def answers_challenge_def is_ok_iff
    by (simp add: example_authenticate_input_def example_challenge_world_def example_relogin_world_def
        example_refresh_defs audience_check_def new_challenge_session_def as_session_def login_mint_def get_raw_def
        sat_sub_def)
  moreover have "renewable_with (b_sha example_backend) ''old'' example_refresh_session (w_ks example_relogin_world)"
    by (simp add: example_relogin_world_def example_challenge_world_def example_refresh_defs renewable_with_def
        get_raw_def)
  moreover have "session_id example_refresh_session = ai_signer_did example_authenticate_input"
    "ai_session_id example_authenticate_input \<noteq> ai_signer_did example_authenticate_input"
    by (simp_all add: example_refresh_defs example_authenticate_input_def)
  moreover have "b_sha example_backend ''old'' \<noteq> b_sha example_backend (w_supply example_relogin_world (w_drawn example_relogin_world))"
    by (simp add: example_relogin_world_def example_refresh_world_def example_backend_def)
  ultimately show ?thesis
    using login_supersedes_old_token [where ri = "\<lparr>ri_refresh_token = ''old'', ri_signer_did = None\<rparr>"
        and B = example_backend and w = example_relogin_world]
    by simp
qed

end
