(* ===== verification/Auth_Challenge.thy ===== *)
theory Auth_Challenge
  imports Auth_Login
begin

text \<open>
  The challenge handler (\<open>vti-common/src/auth/handlers/challenge.rs\<close>): its answer discloses nothing
  about who is enrolled, and a subject's outstanding challenges stay within the cap by eviction of the
  oldest. The handler holds a lock per subject while it lists, evicts and stores, so one execution of
  those steps is not interleaved with another for the same subject.
\<close>

section \<open>Outstanding challenges\<close>

definition rows_decode :: "(string, session_row) keyspace \<Rightarrow> bool" where
  "rows_decode ks \<longleftrightarrow>
     (\<forall>sid r. get_raw ks (session_key sid) = Some r \<longrightarrow> (\<exists>s. r = RSession s \<and> session_id s = sid))"

definition outstanding :: "string \<Rightarrow> (string, session_row) keyspace \<Rightarrow> string set" where
  "outstanding did ks =
     {sid. \<exists>s. get_raw ks (session_key sid) = Some (RSession s) \<and> sess_did s = did \<and> sess_state s = ChallengeSent}"

definition challenges_indexed :: "(string \<Rightarrow> bytes) \<Rightarrow> (string, session_row) keyspace \<Rightarrow> bool" where
  "challenges_indexed sha ks \<longleftrightarrow>
     (\<forall>did. \<forall>sid\<in>outstanding did ks. get_raw ks (pending_challenge_key sha did sid) \<noteq> None)"

definition pending_pick ::
    "string \<Rightarrow> string \<Rightarrow> (string, session_row) keyspace \<Rightarrow> string \<times> session_row \<Rightarrow> (u64 \<times> session) option" where
  "pending_pick did pfx ks e =
     (case strip_prefix pfx (fst e) of
        None \<Rightarrow> None
      | Some sid \<Rightarrow>
          (case get_raw ks (session_key sid) of
             Some (RSession s) \<Rightarrow>
               if sess_did s = did \<and> sess_state s = ChallengeSent
               then Some (case snd e of RPending p \<Rightarrow> p_seq p | _ \<Rightarrow> 0, s) else None
           | _ \<Rightarrow> None))"

lemma map_filter_mem: "y \<in> set (List.map_filter f xs) \<longleftrightarrow> (\<exists>x\<in>set xs. f x = Some y)"
  by (induction xs) (auto simp: List.map_filter_simps split: option.splits)

lemma run_pending_loop:
  assumes "rows_decode (w_ks w)"
  shows "run (pending_loop did pfx es acc) w =
    (Ok (acc @ List.map_filter (pending_pick did pfx (w_ks w)) es), w)"
proof (induction es arbitrary: acc)
  case (Cons e es)
  show ?case
  proof (cases "strip_prefix pfx (fst e)")
    case (Some sid)
    then show ?thesis using Cons assms
      by (cases "get_raw (w_ks w) (session_key sid)")
        (auto simp: run_simps as_session_def pending_pick_def rows_decode_def List.map_filter_simps
          split: session_row.splits)
  qed (simp add: Cons pending_pick_def List.map_filter_simps)
qed (simp add: List.map_filter_simps)

definition pending_listed ::
    "(string \<Rightarrow> bytes) \<Rightarrow> string \<Rightarrow> (string, session_row) keyspace \<Rightarrow> session list" where
  "pending_listed sha did ks =
     map snd (sort_pending (List.map_filter (pending_pick did (pending_challenge_prefix sha did) ks)
       (prefix_iter_raw (pending_challenge_prefix sha did) ks)))"

lemma run_list_pending_challenges:
  "rows_decode (w_ks w) \<Longrightarrow>
   run (list_pending_challenges sha did) w = (Ok (pending_listed sha did (w_ks w)), w)"
  by (simp add: list_pending_challenges_def run_simps run_pending_loop pending_listed_def)

lemma pending_pick_Some:
  assumes "rows_decode ks" and "pending_pick did pfx ks e = Some (n, s)"
  shows "fst e = pfx @ session_id s" and "get_raw ks (session_key (session_id s)) = Some (RSession s)"
    and "sess_did s = did" and "sess_state s = ChallengeSent"
  using assms
  by (auto simp: pending_pick_def rows_decode_def strip_prefix_Some_iff
      split: option.splits session_row.splits if_splits)

lemma pending_ids_distinct:
  assumes "rows_decode ks" and "distinct (map fst es)"
  shows "distinct (map (session_id \<circ> snd) (List.map_filter (pending_pick did pfx ks) es))"
  using assms(2)
proof (induction es)
  case (Cons e es)
  show ?case
  proof (cases "pending_pick did pfx ks e")
    case (Some x)
    have "session_id (snd x) \<noteq> session_id (snd y)"
      if y: "y \<in> set (List.map_filter (pending_pick did pfx ks) es)" for y
    proof -
      obtain e' where "e' \<in> set es" "pending_pick did pfx ks e' = Some y"
        using y by (auto simp: map_filter_mem)
      then show ?thesis
        using pending_pick_Some(1) [OF assms(1), of did pfx e "fst x" "snd x"]
          pending_pick_Some(1) [OF assms(1), of did pfx e' "fst y" "snd y"] Some Cons.prems
        by (force simp: image_iff)
    qed
    then show ?thesis using Cons Some by (auto simp: List.map_filter_simps)
  qed (use Cons in \<open>simp add: List.map_filter_simps\<close>)
qed (simp add: List.map_filter_simps)

lemma pending_listed_ids:
  assumes "ks_ordered ks" and "rows_decode ks"
  shows "distinct (map session_id (pending_listed sha did ks))"
    and "s \<in> set (pending_listed sha did ks) \<longleftrightarrow>
      get_raw ks (session_key (session_id s)) = Some (RSession s) \<and> sess_did s = did \<and> sess_state s = ChallengeSent \<and>
      get_raw ks (pending_challenge_key sha did (session_id s)) \<noteq> None"
proof -
  let ?pfx = "pending_challenge_prefix sha did"
  let ?xs = "List.map_filter (pending_pick did ?pfx ks) (prefix_iter_raw ?pfx ks)"
  have "distinct (map fst (prefix_iter_raw ?pfx ks))"
    using ordered_distinct [OF assms(1)] by (simp add: prefix_iter_raw_def distinct_map_filter)
  then have "distinct (map (session_id \<circ> snd) ?xs)" by (rule pending_ids_distinct [OF assms(2)])
  then show "distinct (map session_id (pending_listed sha did ks))"
    by (simp add: pending_listed_def sort_pending_def distinct_map)
  show "s \<in> set (pending_listed sha did ks) \<longleftrightarrow>
      get_raw ks (session_key (session_id s)) = Some (RSession s) \<and> sess_did s = did \<and> sess_state s = ChallengeSent \<and>
      get_raw ks (pending_challenge_key sha did (session_id s)) \<noteq> None" (is "_ \<longleftrightarrow> ?rhs")
  proof
    assume "s \<in> set (pending_listed sha did ks)"
    then obtain e n where e: "e \<in> set (prefix_iter_raw ?pfx ks)" "pending_pick did ?pfx ks e = Some (n, s)"
      by (auto simp: pending_listed_def sort_pending_def map_filter_mem)
    moreover have "get_raw ks (fst e) \<noteq> None"
      using e(1) prefix_iter_raw_mem [OF assms(1), of "fst e" "snd e"] by simp
    ultimately show ?rhs
      using pending_pick_Some [OF assms(2) e(2)] by (simp add: pending_challenge_key_def)
  next
    assume rhs: ?rhs
    then obtain v where "get_raw ks (?pfx @ session_id s) = Some v" by (auto simp: pending_challenge_key_def)
    then have "(?pfx @ session_id s, v) \<in> set (prefix_iter_raw ?pfx ks)"
      by (simp add: prefix_iter_raw_mem [OF assms(1)])
    moreover have "\<exists>n. pending_pick did ?pfx ks (?pfx @ session_id s, v) = Some (n, s)"
      using rhs by (simp add: pending_pick_def strip_prefix_Some_iff [THEN iffD2])
    ultimately show "s \<in> set (pending_listed sha did ks)"
      by (force simp: pending_listed_def sort_pending_def map_filter_mem image_iff)
  qed
qed

section \<open>Eviction\<close>

lemma pending_key_inj [simp]:
  "pending_challenge_key sha d sid = pending_challenge_key sha d' sid' \<longleftrightarrow> sha d = sha d' \<and> sid = sid'"
proof -
  have "hex_lower a @ CHR '':'' # x = hex_lower b @ CHR '':'' # y \<Longrightarrow> a = b \<and> x = y" for a b x y
    using prefix_until_sep [of "CHR '':''" "hex_lower a" "hex_lower b" y]
    by (metis append.assoc append_Cons append_Nil hex_lower_inj hex_lower_no_colon list.inject prefixI same_append_eq)
  then show ?thesis by (auto simp: pending_challenge_key_def pending_challenge_prefix_def)
qed

lemma run_evict:
  assumes "rows_decode (w_ks w)"
  shows "\<exists>ks'. run (forE (\<lambda>s. store_call (delete_session sha (session_id s))) L) w = (Ok (), w\<lparr>w_ks := ks'\<rparr>) \<and>
    (ks_ordered (w_ks w) \<longrightarrow> ks_ordered ks') \<and>
    (\<forall>sid. get_raw ks' (session_key sid) =
       (if sid \<in> session_id ` set L then None else get_raw (w_ks w) (session_key sid))) \<and>
    (\<forall>did sid. sid \<notin> session_id ` set L \<longrightarrow>
       get_raw ks' (pending_challenge_key sha did sid) = get_raw (w_ks w) (pending_challenge_key sha did sid))"
  using assms
proof (induction L arbitrary: w)
  case Nil
  then show ?case by (intro exI [of _ "w_ks w"]) (simp add: run_simps)
next
  case (Cons s L)
  show ?case
  proof (cases "get_raw (w_ks w) (session_key (session_id s))")
    case None
    then have "run (delete_session sha (session_id s)) w = (Ok (), w)"
      by (simp add: delete_session_def run_simps as_session_def)
    then show ?thesis using Cons.IH [OF Cons.prems] None by (auto simp: run_simps)
  next
    case (Some r)
    then obtain s' where r: "r = RSession s'" "session_id s' = session_id s"
      using Cons.prems by (auto simp: rows_decode_def)
    let ?ks = "fold apply_write (stage_session_removal sha s') (w_ks w)"
    have del: "run (delete_session sha (session_id s)) w = (Ok (), w\<lparr>w_ks := ?ks\<rparr>)"
      using run_delete_session Some r by simp
    have "rows_decode ?ks"
      using Cons.prems by (auto simp: rows_decode_def removal_get_raw)
    from Cons.IH [of "w\<lparr>w_ks := ?ks\<rparr>"] this obtain ks' where
      "run (forE (\<lambda>s. store_call (delete_session sha (session_id s))) L) (w\<lparr>w_ks := ?ks\<rparr>) = (Ok (), w\<lparr>w_ks := ks'\<rparr>)"
      "ks_ordered ?ks \<longrightarrow> ks_ordered ks'"
      "\<forall>sid. get_raw ks' (session_key sid) =
         (if sid \<in> session_id ` set L then None else get_raw ?ks (session_key sid))"
      "\<forall>did sid. sid \<notin> session_id ` set L \<longrightarrow>
         get_raw ks' (pending_challenge_key sha did sid) = get_raw ?ks (pending_challenge_key sha did sid)"
      by auto
    then show ?thesis using del r
      by (intro exI [of _ ks']) (auto simp: run_simps removal_get_raw ordered_fold_write)
  qed
qed

definition evicted :: "'r auth_backend \<Rightarrow> string \<Rightarrow> u64 \<Rightarrow> (string, session_row) keyspace \<Rightarrow> session list" where
  "evicted B did now ks =
     (let stale = (\<lambda>s. sat_sub now (created_at s) > b_challenge_ttl B);
          live = filter (\<lambda>s. \<not> stale s) (pending_listed (b_sha B) did ks)
      in filter stale (pending_listed (b_sha B) did ks) @
         take (length live + 1 - b_max_pending_challenges_per_did B) live)"

lemma run_make_room:
  assumes "rows_decode (w_ks w)"
  shows "run (make_room_for_challenge B did (b_max_pending_challenges_per_did B)) w =
    run (forE (\<lambda>s. store_call (delete_session (b_sha B) (session_id s))) (evicted B did (w_now w) (w_ks w))) w"
  using assms
  by (simp add: make_room_for_challenge_def run_simps run_list_pending_challenges evicted_def Let_def)

lemma evicted_listed: "set (evicted B did now ks) \<subseteq> set (pending_listed (b_sha B) did ks)"
  by (auto simp: evicted_def Let_def dest: in_set_takeD)

definition live_challenges :: "u64 \<Rightarrow> u64 \<Rightarrow> string \<Rightarrow> (string, session_row) keyspace \<Rightarrow> string set" where
  "live_challenges ttl now did ks =
     {sid \<in> outstanding did ks. \<exists>s. get_raw ks (session_key sid) = Some (RSession s) \<and> sat_sub now (created_at s) \<le> ttl}"

text \<open>What eviction keeps: live challenges only, and as many of them as the cap leaves room for.\<close>

lemma kept_count:
  fixes did now
  assumes "ks_ordered ks" "rows_decode ks" "b_max_pending_challenges_per_did B > 0"
  defines "live \<equiv> filter (\<lambda>s. \<not> sat_sub now (created_at s) > b_challenge_ttl B) (pending_listed (b_sha B) did ks)"
  defines "kept \<equiv> set (pending_listed (b_sha B) did ks) - set (evicted B did now ks)"
  shows "kept \<subseteq> set live"
    "card (session_id ` kept) = min (card (session_id ` set live)) (b_max_pending_challenges_per_did B - 1)"
proof -
  let ?n = "length live + 1 - b_max_pending_challenges_per_did B"
  have ids: "distinct (map session_id live)"
    using pending_listed_ids(1) [OF assms(1,2)] unfolding live_def by (rule distinct_map_filter)
  then have d: "distinct (take ?n live @ drop ?n live)" by (simp add: distinct_map)
  have kept: "kept = set (drop ?n live)"
  proof -
    have "kept = set live - set (take ?n live)" by (auto simp: kept_def evicted_def live_def Let_def)
    also have "set live = set (take ?n live) \<union> set (drop ?n live)" by (metis append_take_drop_id set_append)
    finally show ?thesis using d unfolding distinct_append by blast
  qed
  then show "kept \<subseteq> set live" using set_drop_subset by fast
  have "card (session_id ` kept) = length (drop ?n live)"
    using ids unfolding kept by (metis distinct_card distinct_drop drop_map length_map list.set_map)
  moreover have "card (session_id ` set live) = length live" using distinct_card [OF ids] by simp
  ultimately show "card (session_id ` kept) = min (card (session_id ` set live)) (b_max_pending_challenges_per_did B - 1)"
    using assms(3) by simp
qed

lemma evicted_oldest:
  assumes "s \<in> set (evicted B did now ks)" "sat_sub now (created_at s) \<le> b_challenge_ttl B"
    and "s' \<in> set (pending_listed (b_sha B) did ks)" "s' \<notin> set (evicted B did now ks)"
  shows "created_at s \<le> created_at s'"
proof -
  let ?live = "filter (\<lambda>s. \<not> sat_sub now (created_at s) > b_challenge_ttl B) (pending_listed (b_sha B) did ks)"
  let ?n = "length ?live + 1 - b_max_pending_challenges_per_did B"
  have "sorted (map (\<lambda>x. created_at (snd x)) (sort_pending xs))" for xs
    using sorted_sort_key [of "\<lambda>x. created_at (snd x)"] by (simp add: sort_pending_def case_prod_unfold)
  then have "sorted (map created_at (pending_listed (b_sha B) did ks))"
    by (simp add: pending_listed_def comp_def)
  then have "sorted (map created_at ?live)" by (rule sorted_filter)
  then have "sorted (map created_at (take ?n ?live @ drop ?n ?live))" by simp
  moreover have "s \<in> set (take ?n ?live)" using assms(1,2) by (auto simp: evicted_def Let_def)
  moreover have "s' \<in> set (drop ?n ?live)"
  proof -
    have "s' \<in> set ?live" "s' \<notin> set (take ?n ?live)" using assms(3,4) by (auto simp: evicted_def Let_def)
    then show ?thesis by (metis Un_iff append_take_drop_id set_append)
  qed
  ultimately show ?thesis unfolding map_append sorted_append by auto
qed

section \<open>The handler\<close>

definition challenge_answer ::
    "'r auth_backend \<Rightarrow> attestation_outcome \<Rightarrow> (session_row, 'e) world \<Rightarrow> challenge_response" where
  "challenge_answer B attestation w =
     \<lparr>cr_challenge = w_supply w (w_drawn w), cr_session_id = w_supply w (Suc (w_drawn w)),
      cr_expires_at = sat_add (w_now w) (b_challenge_ttl B), cr_tee_attestation = att_report attestation\<rparr>"

lemma run_store_challenge:
  assumes "sess_state s = ChallengeSent"
  shows "run (store_session sha s) w =
    (Ok (), w\<lparr>w_seq := w_seq w + 1, w_ks := insert_raw (session_key (session_id s)) (RSession s)
       (insert_raw (pending_challenge_key sha (sess_did s) (session_id s))
         (RPending \<lparr>p_created_at = created_at s, p_seq = w_seq w\<rparr>) (w_ks w))\<rparr>)"
  using assms
  by (simp add: store_session_def write_session_def stage_pending_challenge_index_def apply_batchE_def
      apply_batch_def batch_validate_def)

text \<open>The challenges a request of an enrolled subject removes before it stores its own.\<close>

definition made_room :: "'r auth_backend \<Rightarrow> string \<Rightarrow> u64 \<Rightarrow> (string, session_row) keyspace \<Rightarrow> session list" where
  "made_room B did now ks = (if b_max_pending_challenges_per_did B > 0 then evicted B did now ks else [])"

lemma run_challenge_enrolled:
  fixes w :: "(session_row, auth_audit_event) world"
  assumes rows: "rows_decode (w_ks w)"
    and ok: "b_validate_did B (ci_did input) = Ok ()"
      "b_attest_challenge B (w_supply w (w_drawn w)) = Ok attestation"
      "is_ok (b_check_acl B (ci_did input) (w_now w))"
  defines "s \<equiv> new_challenge_session input (w_supply w (Suc (w_drawn w))) (w_supply w (w_drawn w)) (w_now w)
      (att_attested attestation)"
    and "L \<equiv> made_room B (ci_did input) (w_now w) (w_ks w)"
  shows "\<exists>ks'. run (handle_challenge B input) w = (Ok (challenge_answer B attestation w),
      w\<lparr>w_drawn := Suc (Suc (w_drawn w)), w_seq := w_seq w + 1,
        w_log := w_log w @ [EvChallengeIssued (ci_did input) (session_id s)],
        w_ks := insert_raw (session_key (session_id s)) (RSession s)
          (insert_raw (pending_challenge_key (b_sha B) (ci_did input) (session_id s))
            (RPending \<lparr>p_created_at = w_now w, p_seq = w_seq w\<rparr>) ks')\<rparr>) \<and>
    (ks_ordered (w_ks w) \<longrightarrow> ks_ordered ks') \<and>
    (\<forall>sid. get_raw ks' (session_key sid) =
       (if sid \<in> session_id ` set L then None else get_raw (w_ks w) (session_key sid))) \<and>
    (\<forall>did sid. sid \<notin> session_id ` set L \<longrightarrow>
       get_raw ks' (pending_challenge_key (b_sha B) did sid) = get_raw (w_ks w) (pending_challenge_key (b_sha B) did sid))"
proof -
  let ?w = "w\<lparr>w_drawn := Suc (Suc (w_drawn w))\<rparr>"
  obtain ks' where ks': "run (forE (\<lambda>s. store_call (delete_session (b_sha B) (session_id s))) L) ?w = (Ok (), ?w\<lparr>w_ks := ks'\<rparr>)"
      "ks_ordered (w_ks w) \<longrightarrow> ks_ordered ks'"
      "\<forall>sid. get_raw ks' (session_key sid) =
         (if sid \<in> session_id ` set L then None else get_raw (w_ks w) (session_key sid))"
      "\<forall>did sid. sid \<notin> session_id ` set L \<longrightarrow>
         get_raw ks' (pending_challenge_key (b_sha B) did sid) = get_raw (w_ks w) (pending_challenge_key (b_sha B) did sid)"
    using run_evict [of ?w "b_sha B" L] rows by auto
  have room: "run (if b_max_pending_challenges_per_did B > 0
       then make_room_for_challenge B (ci_did input) (b_max_pending_challenges_per_did B) else Ret (Ok ())) ?w =
      (Ok (), ?w\<lparr>w_ks := ks'\<rparr>)"
    unfolding ks'(1) [symmetric] using run_make_room [of ?w B "ci_did input"] rows by (simp add: L_def made_room_def)
  have none: "ks' = w_ks w" if "b_max_pending_challenges_per_did B = 0"
  proof -
    have "?w = ?w\<lparr>w_ks := ks'\<rparr>" using ks'(1) that by (simp add: L_def made_room_def run_simps)
    then have "w_ks ?w = w_ks (?w\<lparr>w_ks := ks'\<rparr>)" by (rule arg_cong)
    then show ?thesis by simp
  qed
  have "run (handle_challenge B input) w = (Ok (challenge_answer B attestation w),
      w\<lparr>w_drawn := Suc (Suc (w_drawn w)), w_seq := w_seq w + 1,
        w_log := w_log w @ [EvChallengeIssued (ci_did input) (session_id s)],
        w_ks := insert_raw (session_key (session_id s)) (RSession s)
          (insert_raw (pending_challenge_key (b_sha B) (ci_did input) (session_id s))
            (RPending \<lparr>p_created_at = w_now w, p_seq = w_seq w\<rparr>) ks')\<rparr>)"
    using ok room none
    by (cases "b_max_pending_challenges_per_did B > 0")
      (simp_all add: handle_challenge_def run_simps check_acl_call_def run_store_challenge new_challenge_session_def
        challenge_answer_def s_def Let_def)
  then show ?thesis using ks'(2-4) by blast
qed

lemma run_challenge_unenrolled:
  assumes "b_validate_did B (ci_did input) = Ok ()"
    and "b_attest_challenge B (w_supply w (w_drawn w)) = Ok attestation"
    and "\<not> is_ok (b_check_acl B (ci_did input) (w_now w))"
  shows "run (handle_challenge B input) w =
    (Ok (challenge_answer B attestation w), w\<lparr>w_drawn := Suc (Suc (w_drawn w))\<rparr>)"
  using assms by (simp add: handle_challenge_def run_simps check_acl_call_def challenge_answer_def Let_def)

lemma run_challenge_failed:
  "b_validate_did B (ci_did input) = Err e \<Longrightarrow> run (handle_challenge B input) w = (Err e, w)"
  "b_validate_did B (ci_did input) = Ok () \<Longrightarrow> b_attest_challenge B (w_supply w (w_drawn w)) = Err e \<Longrightarrow>
   run (handle_challenge B input) w = (Err e, w\<lparr>w_drawn := Suc (Suc (w_drawn w))\<rparr>)"
  by (simp_all add: handle_challenge_def run_simps check_acl_call_def)

text \<open>C33: asking for a challenge does not reveal who is enrolled. On a store whose session rows decode,
  the answer is the same whatever the access list says of the subject, the cap on outstanding challenges
  included; and a subject without an effective entry has nothing written on its behalf and nothing
  audited.\<close>

theorem challenge_discloses_nothing:
  fixes w :: "(session_row, auth_audit_event) world"
  assumes "rows_decode (w_ks w)"
  shows "result_of (handle_challenge B input) w = result_of (handle_challenge (B\<lparr>b_check_acl := acl\<rparr>) input) w \<and>
    (\<forall>e. acl (ci_did input) (w_now w) = Err e \<longrightarrow>
       w_ks (world_after (handle_challenge (B\<lparr>b_check_acl := acl\<rparr>) input) w) = w_ks w \<and>
       w_log (world_after (handle_challenge (B\<lparr>b_check_acl := acl\<rparr>) input) w) = w_log w)"
proof -
  have answer: "result_of (handle_challenge B' input) w = Ok (challenge_answer B' attestation w)"
    if "b_validate_did B' (ci_did input) = Ok ()" "b_attest_challenge B' (w_supply w (w_drawn w)) = Ok attestation"
    for B' :: "'a auth_backend" and attestation
    using run_challenge_enrolled [OF assms that] run_challenge_unenrolled [OF that]
    by (cases "is_ok (b_check_acl B' (ci_did input) (w_now w))") (auto simp: result_of_def)
  let ?B = "B\<lparr>b_check_acl := acl\<rparr>"
  show ?thesis
  proof (cases "b_validate_did B (ci_did input)")
    case (Inl e)
    then show ?thesis
      by (simp add: result_of_def world_after_def run_challenge_failed(1))
  next
    case (Inr u)
    then show ?thesis
    proof (cases "b_attest_challenge B (w_supply w (w_drawn w))")
      case err: (Inl e)
      then show ?thesis using Inr by (simp add: result_of_def world_after_def run_challenge_failed(2))
    next
      case att: (Inr attestation)
      then have "result_of (handle_challenge B input) w = result_of (handle_challenge ?B input) w"
        using Inr answer [of B attestation] answer [of ?B attestation] by (simp add: challenge_answer_def)
      moreover have "run (handle_challenge ?B input) w =
          (Ok (challenge_answer ?B attestation w), w\<lparr>w_drawn := Suc (Suc (w_drawn w))\<rparr>)"
        if "acl (ci_did input) (w_now w) = Err e" for e
        using that att Inr by (intro run_challenge_unenrolled) simp_all
      ultimately show ?thesis by (auto simp: world_after_def)
    qed
  qed
qed

theorem challenge_discloses_nothing_witness:
  "result_of (handle_challenge example_backend \<lparr>ci_did = ''did:key:z1'', ci_session_pubkey = None\<rparr>) example_challenge_world =
   result_of (handle_challenge (example_backend\<lparr>b_check_acl := \<lambda>_ _. Err AForbidden\<rparr>)
     \<lparr>ci_did = ''did:key:z1'', ci_session_pubkey = None\<rparr>) example_challenge_world"
proof -
  have "rows_decode (w_ks example_challenge_world)"
    by (simp add: rows_decode_def example_challenge_world_def get_raw_def new_challenge_session_def)
  from challenge_discloses_nothing [OF this, of example_backend] show ?thesis by blast
qed

lemma challenge_outcome:
  fixes w :: "(session_row, auth_audit_event) world" and pk :: "string option"
  assumes ord: "ks_ordered (w_ks w)" and rows: "rows_decode (w_ks w)" and idx: "challenges_indexed (b_sha B) (w_ks w)"
    and ok: "b_validate_did B did = Ok ()" "b_attest_challenge B (w_supply w (w_drawn w)) = Ok attestation"
      "is_ok (b_check_acl B did (w_now w))"
  defines "ks' \<equiv> w_ks (world_after (handle_challenge B \<lparr>ci_did = did, ci_session_pubkey = pk\<rparr>) w)"
    and "sid \<equiv> w_supply w (Suc (w_drawn w))"
  shows "ks_ordered ks'" and "rows_decode ks'" and "challenges_indexed (b_sha B) ks'"
    and "\<And>d. outstanding d ks' =
      (outstanding d (w_ks w) - session_id ` set (made_room B did (w_now w) (w_ks w)) - {sid}) \<union> (if d = did then {sid} else {})"
proof -
  let ?gone = "session_id ` set (made_room B did (w_now w) (w_ks w))"
  let ?s = "new_challenge_session \<lparr>ci_did = did, ci_session_pubkey = pk\<rparr> sid (w_supply w (w_drawn w)) (w_now w)
      (att_attested attestation)"
  obtain ks0 where ks0: "ks' = insert_raw (session_key sid) (RSession ?s)
        (insert_raw (pending_challenge_key (b_sha B) did sid) (RPending \<lparr>p_created_at = w_now w, p_seq = w_seq w\<rparr>) ks0)"
      "ks_ordered ks0"
      "\<forall>x. get_raw ks0 (session_key x) = (if x \<in> ?gone then None else get_raw (w_ks w) (session_key x))"
    and pend0: "\<forall>d x. x \<notin> ?gone \<longrightarrow>
       get_raw ks0 (pending_challenge_key (b_sha B) d x) = get_raw (w_ks w) (pending_challenge_key (b_sha B) d x)"
    using run_challenge_enrolled [of w B "\<lparr>ci_did = did, ci_session_pubkey = pk\<rparr>" attestation] rows ok ord
    by (auto simp: ks'_def world_after_def sid_def new_challenge_session_def)
  have row: "get_raw ks' (session_key x) =
      (if x = sid then Some (RSession ?s) else if x \<in> ?gone then None else get_raw (w_ks w) (session_key x))" for x
    using ks0 by simp
  show "ks_ordered ks'" using ks0 by (simp add: ordered_insert)
  show "rows_decode ks'" using rows by (auto simp: rows_decode_def row new_challenge_session_def)
  show out: "outstanding d ks' =
      (outstanding d (w_ks w) - ?gone - {sid}) \<union> (if d = did then {sid} else {})" for d
    by (auto simp: outstanding_def row new_challenge_session_def)
  show "challenges_indexed (b_sha B) ks'"
    unfolding challenges_indexed_def
  proof (intro allI ballI)
    fix d x assume "x \<in> outstanding d ks'"
    then have "x = sid \<and> d = did \<or> x \<in> outstanding d (w_ks w) \<and> x \<notin> ?gone"
      unfolding out by (auto split: if_splits)
    moreover have "get_raw ks' (pending_challenge_key (b_sha B) d x) = (if b_sha B d = b_sha B did \<and> x = sid
        then Some (RPending \<lparr>p_created_at = w_now w, p_seq = w_seq w\<rparr>) else get_raw ks0 (pending_challenge_key (b_sha B) d x))"
      using ks0(1) by simp
    ultimately show "get_raw ks' (pending_challenge_key (b_sha B) d x) \<noteq> None"
      using idx pend0 by (auto simp: challenges_indexed_def)
  qed
qed

lemma listed_outstanding:
  assumes rows: "rows_decode ks"
    and listed: "\<And>s. s \<in> set L \<longleftrightarrow> get_raw ks (session_key (session_id s)) = Some (RSession s) \<and> session_id s \<in> outstanding did ks"
  shows "outstanding did ks = session_id ` set L"
    "live_challenges ttl now did ks = session_id ` set (filter (\<lambda>s. \<not> sat_sub now (created_at s) > ttl) L)"
proof -
  have ex: "\<exists>s\<in>set L. session_id s = x \<and> get_raw ks (session_key x) = Some (RSession s)" if "x \<in> outstanding did ks" for x
  proof -
    obtain s where s: "get_raw ks (session_key x) = Some (RSession s)" using \<open>x \<in> outstanding did ks\<close> by (auto simp: outstanding_def)
    then have "session_id s = x" using rows unfolding rows_decode_def by blast
    then show ?thesis using listed [of s] that s by blast
  qed
  then show "outstanding did ks = session_id ` set L" using listed by blast
  show "live_challenges ttl now did ks = session_id ` set (filter (\<lambda>s. \<not> sat_sub now (created_at s) > ttl) L)"
    using ex listed by (fastforce simp: live_challenges_def not_less image_iff)
qed

text \<open>C32: a subject never has more outstanding challenges than the cap allows, and an enrolled subject's
  request is never refused for it. The request is answered with a challenge for the new session; of the
  subject's outstanding challenges it discards every expired one and just so many live ones that one fewer
  than the cap remain, the oldest first, never a newer in place of an older; the new challenge is
  outstanding afterwards, other subjects' challenges are untouched, and the index by which the next request
  finds them stays complete. The store's session rows decode and the new session's identifier is unused.\<close>

theorem challenge_cap:
  fixes w :: "(session_row, auth_audit_event) world"
  assumes wf: "ks_ordered (w_ks w)" "rows_decode (w_ks w)" "challenges_indexed (b_sha B) (w_ks w)"
    and ok: "b_validate_did B did = Ok ()" "b_attest_challenge B (w_supply w (w_drawn w)) = Ok attestation"
      "is_ok (b_check_acl B did (w_now w))"
    and limit: "b_max_pending_challenges_per_did B > 0"
    and sid: "w_supply w (Suc (w_drawn w)) = sid" "get_raw (w_ks w) (session_key sid) = None"
    and ks': "w_ks (world_after (handle_challenge B \<lparr>ci_did = did, ci_session_pubkey = pk\<rparr>) w) = ks'"
  shows "result_of (handle_challenge B \<lparr>ci_did = did, ci_session_pubkey = pk\<rparr>) w =
      Ok \<lparr>cr_challenge = w_supply w (w_drawn w), cr_session_id = sid,
          cr_expires_at = sat_add (w_now w) (b_challenge_ttl B), cr_tee_attestation = att_report attestation\<rparr> \<and>
    ks_ordered ks' \<and> rows_decode ks' \<and> challenges_indexed (b_sha B) ks' \<and>
    card (outstanding did ks') \<le> b_max_pending_challenges_per_did B \<and>
    (\<exists>remaining. outstanding did ks' = insert sid remaining \<and>
       remaining \<subseteq> live_challenges (b_challenge_ttl B) (w_now w) did (w_ks w) \<and>
       card remaining = min (card (live_challenges (b_challenge_ttl B) (w_now w) did (w_ks w)))
         (b_max_pending_challenges_per_did B - 1)) \<and>
    (\<forall>d. d \<noteq> did \<longrightarrow> outstanding d ks' = outstanding d (w_ks w)) \<and>
    (\<forall>s s'. get_raw (w_ks w) (session_key (session_id s)) = Some (RSession s) \<and>
       get_raw (w_ks w) (session_key (session_id s')) = Some (RSession s') \<and>
       session_id s \<in> outstanding did (w_ks w) - outstanding did ks' \<and> session_id s' \<in> outstanding did (w_ks w) \<inter> outstanding did ks' \<and>
       sat_sub (w_now w) (created_at s) \<le> b_challenge_ttl B \<longrightarrow> created_at s \<le> created_at s')"
proof -
  let ?L = "pending_listed (b_sha B) did (w_ks w)" and ?E = "evicted B did (w_now w) (w_ks w)"
  note out = challenge_outcome [OF wf ok, where pk = pk, unfolded ks' sid(1)]
  have listed: "s \<in> set ?L \<longleftrightarrow> get_raw (w_ks w) (session_key (session_id s)) = Some (RSession s) \<and>
      session_id s \<in> outstanding did (w_ks w)" for s
    using pending_listed_ids(2) [OF wf(1,2), of s "b_sha B" did] wf(3)
    unfolding outstanding_def challenges_indexed_def by auto
  have inj: "inj_on session_id (set ?L)" using listed by (auto simp: inj_on_def)
  have ids: "outstanding did (w_ks w) = session_id ` set ?L"
    and live: "live_challenges (b_challenge_ttl B) (w_now w) did (w_ks w) =
      session_id ` set (filter (\<lambda>s. \<not> sat_sub (w_now w) (created_at s) > b_challenge_ttl B) ?L)"
    using listed_outstanding [OF wf(2) listed] by blast+
  note kept = kept_count [OF wf(1,2) limit, where now = "w_now w" and did = did]
  let ?K = "session_id ` (set ?L - set ?E)"
  have "outstanding did (w_ks w) - session_id ` set ?E = ?K"
    unfolding ids using inj evicted_listed by (metis Diff_subset inj_on_image_set_diff)
  then have new: "outstanding did ks' = insert sid ?K"
    using out(4) [of did] limit sid(2) by (auto simp: made_room_def outstanding_def)
  have K: "?K \<subseteq> live_challenges (b_challenge_ttl B) (w_now w) did (w_ks w)"
    "card ?K = min (card (live_challenges (b_challenge_ttl B) (w_now w) did (w_ks w))) (b_max_pending_challenges_per_did B - 1)"
    using kept unfolding live by (auto intro!: image_mono)
  then have "card (outstanding did ks') \<le> b_max_pending_challenges_per_did B"
    using limit unfolding new by (simp add: card_insert_le_m1)
  moreover have "outstanding d ks' = outstanding d (w_ks w)" if "d \<noteq> did" for d
    using out(4) [of d] that limit sid(2) listed evicted_listed [of B did "w_now w" "w_ks w"]
    by (force simp: made_room_def outstanding_def subset_iff)
  moreover have "created_at s \<le> created_at s'"
    if "get_raw (w_ks w) (session_key (session_id s)) = Some (RSession s)"
      "get_raw (w_ks w) (session_key (session_id s')) = Some (RSession s')"
      "session_id s \<in> outstanding did (w_ks w) - outstanding did ks'"
      "session_id s' \<in> outstanding did (w_ks w) \<inter> outstanding did ks'"
      "sat_sub (w_now w) (created_at s) \<le> b_challenge_ttl B" for s s'
  proof -
    have L: "s \<in> set ?L" "s' \<in> set ?L" using that listed by auto
    have "sid \<notin> outstanding did (w_ks w)" using sid(2) by (simp add: outstanding_def)
    then have "s \<in> set ?E" "s' \<notin> set ?E"
      using that(3,4) L inj unfolding new by (auto simp: inj_on_def)
    then show ?thesis using evicted_oldest that(5) L(2) by blast
  qed
  moreover have "result_of (handle_challenge B \<lparr>ci_did = did, ci_session_pubkey = pk\<rparr>) w = Ok (challenge_answer B attestation w)"
    using run_challenge_enrolled [OF wf(2), of B "\<lparr>ci_did = did, ci_session_pubkey = pk\<rparr>"] ok by (auto simp: result_of_def)
  ultimately show ?thesis using out(1-3) new K unfolding challenge_answer_def sid(1) by blast
qed

definition example_capped_world :: "(session_row, auth_audit_event) world" where
  "example_capped_world =
     (let c = (\<lambda>sid t. new_challenge_session \<lparr>ci_did = ''did:key:z1'', ci_session_pubkey = None\<rparr> sid ''n'' t False) in
      example_refresh_world\<lparr>w_ks :=
        insert_raw (session_key ''a'') (RSession (c ''a'' 980)) (insert_raw (session_key ''b'') (RSession (c ''b'' 970))
        (insert_raw (pending_challenge_key example_sha ''did:key:z1'' ''a'') (RPending \<lparr>p_created_at = 980, p_seq = 1\<rparr>)
        (insert_raw (pending_challenge_key example_sha ''did:key:z1'' ''b'') (RPending \<lparr>p_created_at = 970, p_seq = 0\<rparr>) [])))\<rparr>)"

lemma example_capped_rows:
  "get_raw (w_ks example_capped_world) (session_key sid) =
     (if sid = ''a'' then Some (RSession (new_challenge_session \<lparr>ci_did = ''did:key:z1'', ci_session_pubkey = None\<rparr> ''a'' ''n'' 980 False))
      else if sid = ''b'' then Some (RSession (new_challenge_session \<lparr>ci_did = ''did:key:z1'', ci_session_pubkey = None\<rparr> ''b'' ''n'' 970 False))
      else None)"
  by (simp add: example_capped_world_def Let_def get_raw_def [of "[]"] del: insert_raw.simps)

theorem challenge_cap_witness:
  "card (outstanding ''did:key:z1'' (w_ks (world_after (handle_challenge example_backend
     \<lparr>ci_did = ''did:key:z1'', ci_session_pubkey = None\<rparr>) example_capped_world))) \<le> 2"
proof -
  have "ks_ordered (w_ks example_capped_world)"
    by (simp add: example_capped_world_def Let_def ordered_insert ks_ordered_def [of "[]"] del: insert_raw.simps)
  moreover have "rows_decode (w_ks example_capped_world)"
    by (auto simp: rows_decode_def example_capped_rows new_challenge_session_def)
  moreover have "challenges_indexed (b_sha example_backend) (w_ks example_capped_world)"
    by (auto simp: challenges_indexed_def outstanding_def example_capped_rows new_challenge_session_def
        example_backend_def split: if_splits)
      (simp_all add: example_capped_world_def Let_def del: insert_raw.simps)
  ultimately show ?thesis
    using challenge_cap [of example_capped_world example_backend "''did:key:z1''" "\<lparr>att_report = None, att_attested = False\<rparr>"
        "''tokx''" None, OF _ _ _ _ _ _ _ _ _ refl]
    by (simp add: example_backend_def example_capped_rows)
      (simp add: example_capped_world_def example_refresh_world_def Let_def del: insert_raw.simps)
qed

end
