(* ===== verification/Auth_Extract.thy ===== *)
theory Auth_Extract
  imports Acl Session_Writers
begin

text \<open>
  Authenticating a request (\<open>vti-common/src/auth/extractor.rs\<close>, \<open>auth/jwt.rs\<close>): where the access
  token comes from, how it is matched against the session row, and the role and step-up gates in front
  of the routes. Signature and expiry of the token are the JWT library's; decoding is a parameter.
\<close>

section \<open>Tokens\<close>

record jwt_claims =
  jc_aud :: string
  jc_sub :: string
  jc_session_id :: string
  jc_role :: string
  jc_contexts :: "string list"
  jc_exp :: u64
  jc_iat :: u64
  jc_tee_attested :: bool
  jc_amr :: "string list"
  jc_acr :: string
  jc_jti :: string

definition new_claims ::
    "string \<Rightarrow> string \<Rightarrow> string \<Rightarrow> string \<Rightarrow> string list \<Rightarrow> u64 \<Rightarrow> bool \<Rightarrow> u64 \<Rightarrow> jwt_claims" where
  "new_claims audience sub sid role contexts expiry_secs tee now_secs =
     \<lparr> jc_aud = audience, jc_sub = sub, jc_session_id = sid, jc_role = role, jc_contexts = contexts,
       jc_exp = now_secs + expiry_secs, jc_iat = now_secs, jc_tee_attested = tee, jc_amr = [],
       jc_acr = [], jc_jti = [] \<rparr>"

definition with_jti :: "string \<Rightarrow> jwt_claims \<Rightarrow> jwt_claims" where
  "with_jti jti c = c\<lparr>jc_jti := jti\<rparr>"

definition with_aal :: "string list \<Rightarrow> string \<Rightarrow> jwt_claims \<Rightarrow> jwt_claims" where
  "with_aal am ac c = c\<lparr>jc_amr := am, jc_acr := ac\<rparr>"

text \<open>What the framework hands over of a request: the bearer token of a well-formed Authorization
  header, and the Cookie headers that are readable text.\<close>

record request_parts =
  rq_bearer :: "string option"
  rq_cookies :: "string list"

datatype token_source = Bearer | Cookie

definition ADMIN_SESSION_COOKIE :: string where
  "ADMIN_SESSION_COOKIE = ''vtc_admin_session''"

definition is_whitespace :: "char \<Rightarrow> bool" where
  "is_whitespace c \<longleftrightarrow> c \<in> {CHR '' '', CHR 0x09, CHR 0x0A, CHR 0x0B, CHR 0x0C, CHR 0x0D}"

definition trim :: "string \<Rightarrow> string" where
  "trim s = rev (dropWhile is_whitespace (rev (dropWhile is_whitespace s)))"

fun find_map :: "('a \<Rightarrow> 'b option) \<Rightarrow> 'a list \<Rightarrow> 'b option" where
  "find_map f [] = None"
| "find_map f (x # xs) = (case f x of Some y \<Rightarrow> Some y | None \<Rightarrow> find_map f xs)"

definition cookie_value :: "string list \<Rightarrow> string \<Rightarrow> string option" where
  "cookie_value headers name =
     find_map (\<lambda>kv. case split_once (CHR ''='') kv of
         Some (k, v) \<Rightarrow> if k = name then Some v else None
       | None \<Rightarrow> None)
       (map trim (concat (map (split_on (CHR '';'')) headers)))"

definition presented_token :: "request_parts \<Rightarrow> (string \<times> token_source) option" where
  "presented_token parts =
     (case rq_bearer parts of
        Some t \<Rightarrow> Some (t, Bearer)
      | None \<Rightarrow> map_option (\<lambda>t. (t, Cookie)) (cookie_value (rq_cookies parts) ADMIN_SESSION_COOKIE))"

definition presents_credential :: "request_parts \<Rightarrow> bool" where
  "presents_credential parts \<longleftrightarrow>
     rq_bearer parts \<noteq> None \<or> cookie_value (rq_cookies parts) ADMIN_SESSION_COOKIE \<noteq> None"

section \<open>Authentication\<close>

type_synonym jwt_decoder = "string \<Rightarrow> (app_error, jwt_claims) result"

definition authenticate_token ::
    "jwt_decoder option \<Rightarrow> string \<Rightarrow> ('e, auth_claims \<times> session) sess_prog" where
  "authenticate_token jwt_keys token =
     (case jwt_keys of
        None \<Rightarrow> Ret (Err Unauthorized)
      | Some decode \<Rightarrow>
          bndE (Ret (decode token)) (\<lambda>claims.
          bndE (get_session (jc_session_id claims)) (\<lambda>found.
            case found of
              None \<Rightarrow> Ret (Err Unauthorized)
            | Some s \<Rightarrow>
                if sess_state s \<noteq> Authenticated then Ret (Err Unauthorized)
                else if (case token_id s of Some pinned \<Rightarrow> jc_jti claims \<noteq> pinned | None \<Rightarrow> False)
                then Ret (Err Unauthorized)
                else bndE (Ret (role_parse (jc_role claims))) (\<lambda>role.
                  Ret (Ok (\<lparr> c_did = jc_sub claims, c_role = role, c_allowed_contexts = jc_contexts claims,
                             c_session_id = jc_session_id claims, c_access_expires_at = jc_exp claims,
                             c_issued_at = jc_iat claims, c_amr = jc_amr claims, c_acr = jc_acr claims \<rparr>, s))))))"

definition authenticate :: "jwt_decoder option \<Rightarrow> request_parts \<Rightarrow> ('e, auth_claims \<times> session) sess_prog" where
  "authenticate jwt_keys parts =
     (case presented_token parts of
        None \<Rightarrow> Ret (Err Unauthorized)
      | Some (token, source) \<Rightarrow>
          bndE (authenticate_token jwt_keys token) (\<lambda>(claims, s).
            if source = Cookie
            then Now (\<lambda>now. bnd (touch_last_seen s now) (\<lambda>_. Ret (Ok (claims, s))))
            else Ret (Ok (claims, s))))"

definition optional_claims :: "jwt_decoder option \<Rightarrow> request_parts \<Rightarrow> ('e, auth_claims option) sess_prog" where
  "optional_claims jwt_keys parts =
     (case presented_token parts of
        None \<Rightarrow> Ret (Ok None)
      | Some (token, _) \<Rightarrow> bndE (authenticate_token jwt_keys token) (\<lambda>(claims, _). Ret (Ok (Some claims))))"

definition touch_cookie_session_for :: "jwt_decoder option \<Rightarrow> request_parts \<Rightarrow> string \<Rightarrow> ('e, bool) sess_prog" where
  "touch_cookie_session_for jwt_keys parts did =
     (case cookie_value (rq_cookies parts) ADMIN_SESSION_COOKIE of
        None \<Rightarrow> Ret (Ok False)
      | Some token \<Rightarrow>
          bnd (authenticate_token jwt_keys token) (\<lambda>r.
            case r of
              Err _ \<Rightarrow> Ret (Ok False)
            | Ok (claims, s) \<Rightarrow>
                if c_did claims \<noteq> did then Ret (Ok False)
                else Now (\<lambda>now. bnd (touch_last_seen s now) (\<lambda>w.
                  Ret (Ok (case w of Ok written \<Rightarrow> written | Err _ \<Rightarrow> False))))))"

section \<open>Gates\<close>

definition check_fresh_step_up :: "session \<Rightarrow> u64 \<Rightarrow> (app_error, unit) result" where
  "check_fresh_step_up s now =
     (if acr s \<noteq> ''aal2'' then Err StepUpRequired
      else if \<not> elevation_active s now then Err StepUpRequired
      else Ok ())"

definition require_fresh_step_up :: "auth_claims \<Rightarrow> ('e, unit) sess_prog" where
  "require_fresh_step_up c =
     bndE (get_session (c_session_id c)) (\<lambda>found.
       case found of
         None \<Rightarrow> Ret (Err StepUpRequired)
       | Some s \<Rightarrow> Now (\<lambda>now. Ret (check_fresh_step_up s now)))"

definition StepUpAuth :: "jwt_decoder option \<Rightarrow> request_parts \<Rightarrow> ('e, auth_claims) sess_prog" where
  "StepUpAuth jwt_keys parts =
     bndE (authenticate jwt_keys parts) (\<lambda>(claims, s).
       Now (\<lambda>now. bndE (Ret (check_fresh_step_up s now)) (\<lambda>_. Ret (Ok claims))))"

definition role_gate ::
    "(auth_claims \<Rightarrow> bool) \<Rightarrow> jwt_decoder option \<Rightarrow> request_parts \<Rightarrow> ('e, auth_claims) sess_prog" where
  "role_gate admits jwt_keys parts =
     bndE (authenticate jwt_keys parts) (\<lambda>(claims, _).
       if admits claims then Ret (Ok claims) else Ret (Err Forbidden))"

definition ManageAuth :: "jwt_decoder option \<Rightarrow> request_parts \<Rightarrow> ('e, auth_claims) sess_prog" where
  "ManageAuth = role_gate (\<lambda>c. c_role c = Admin \<or> c_role c = Initiator)"

definition AdminAuth :: "jwt_decoder option \<Rightarrow> request_parts \<Rightarrow> ('e, auth_claims) sess_prog" where
  "AdminAuth = role_gate (\<lambda>c. c_role c = Admin)"

definition SuperAdminAuth :: "jwt_decoder option \<Rightarrow> request_parts \<Rightarrow> ('e, auth_claims) sess_prog" where
  "SuperAdminAuth = role_gate is_super_admin"

definition WriteAuth :: "jwt_decoder option \<Rightarrow> request_parts \<Rightarrow> ('e, auth_claims) sess_prog" where
  "WriteAuth = role_gate (\<lambda>c. c_role c = Admin \<or> c_role c = Initiator \<or> c_role c = Application)"

section \<open>What passing a gate means\<close>

lemma presents_credential_iff: "presents_credential parts \<longleftrightarrow> presented_token parts \<noteq> None"
  by (auto simp: presents_credential_def presented_token_def split: option.splits)

definition token_admitted ::
    "jwt_decoder \<Rightarrow> (string, session_row) keyspace \<Rightarrow> string \<Rightarrow> auth_claims \<Rightarrow> session \<Rightarrow> bool" where
  "token_admitted decode ks token c s \<longleftrightarrow>
     (\<exists>jc role. decode token = Ok jc \<and> role_parse (jc_role jc) = Ok role \<and>
        get_raw ks (session_key (jc_session_id jc)) = Some (RSession s) \<and> sess_state s = Authenticated \<and>
        (\<forall>pinned. token_id s = Some pinned \<longrightarrow> jc_jti jc = pinned) \<and>
        c = \<lparr> c_did = jc_sub jc, c_role = role, c_allowed_contexts = jc_contexts jc,
              c_session_id = jc_session_id jc, c_access_expires_at = jc_exp jc, c_issued_at = jc_iat jc,
              c_amr = jc_amr jc, c_acr = jc_acr jc \<rparr>)"

lemma run_authenticate_token:
  "snd (run (authenticate_token jwt_keys token) w) = w"
  "fst (run (authenticate_token jwt_keys token) w) = Ok (c, s) \<longleftrightarrow>
     (\<exists>decode. jwt_keys = Some decode \<and> token_admitted decode (w_ks w) token c s)"
  by (auto simp: authenticate_token_def run_simps get_session_def as_session_def token_admitted_def
      split: option.splits sum.splits session_row.splits)

lemma token_admitted_fun:
  "token_admitted decode ks token c s \<Longrightarrow> token_admitted decode ks token c' s' \<Longrightarrow> c = c' \<and> s = s'"
  by (auto simp: token_admitted_def)

lemma run_authenticate_parts:
  "fst (run (authenticate jwt_keys parts) w) =
     (case presented_token parts of
        None \<Rightarrow> Err Unauthorized
      | Some (token, _) \<Rightarrow> fst (run (authenticate_token jwt_keys token) w))"
  by (auto simp: authenticate_def run_simps split: option.splits prod.splits sum.splits)

lemma run_authenticate_request:
  "fst (run (authenticate jwt_keys parts) w) = Ok (c, s) \<longleftrightarrow>
     (\<exists>decode token source. presented_token parts = Some (token, source) \<and> jwt_keys = Some decode \<and>
        token_admitted decode (w_ks w) token c s)"
  unfolding run_authenticate_parts by (auto simp: run_authenticate_token(2) split: option.splits prod.splits)

text \<open>A gate admits a caller exactly when the token is admitted and the claims pass the gate's test; the
  activity touch of a browser session never decides.\<close>

lemma run_role_gate:
  "fst (run (role_gate admits jwt_keys parts) w) = Ok c \<longleftrightarrow>
     admits c \<and> (\<exists>s. fst (run (authenticate jwt_keys parts) w) = Ok (c, s))"
  by (auto simp: role_gate_def run_simps split: prod.splits sum.splits)

lemma role_gates_agree:
  "fst (run (ManageAuth jwt_keys parts) w) = Ok c \<longleftrightarrow>
     require_manage c = Ok () \<and> (\<exists>s. fst (run (authenticate jwt_keys parts) w) = Ok (c, s))"
  "fst (run (AdminAuth jwt_keys parts) w) = Ok c \<longleftrightarrow>
     require_admin c = Ok () \<and> (\<exists>s. fst (run (authenticate jwt_keys parts) w) = Ok (c, s))"
  "fst (run (SuperAdminAuth jwt_keys parts) w) = Ok c \<longleftrightarrow>
     require_super_admin c = Ok () \<and> (\<exists>s. fst (run (authenticate jwt_keys parts) w) = Ok (c, s))"
  "fst (run (WriteAuth jwt_keys parts) w) = Ok c \<longleftrightarrow>
     require_write c = Ok () \<and> (\<exists>s. fst (run (authenticate jwt_keys parts) w) = Ok (c, s))"
  by (auto simp: ManageAuth_def AdminAuth_def SuperAdminAuth_def WriteAuth_def run_role_gate require_manage_def
      require_admin_def require_super_admin_def require_write_def split: role.splits)

lemma check_fresh_step_up_iff:
  "check_fresh_step_up s now = Ok () \<longleftrightarrow> acr s = ''aal2'' \<and> (\<exists>deadline. acr_expires_at s = Some deadline \<and> now < deadline)"
  by (auto simp: check_fresh_step_up_def elevation_active_def split: option.splits)

end
