(* ===== verification/Step_Up.thy ===== *)
theory Step_Up
  imports Auth_Extract
begin

text \<open>
  Step-up (\<open>vti-common/src/auth/step_up.rs\<close>, \<open>vta-service/src/trust_tasks/step_up.rs\<close>): a pending
  step-up binds a fresh challenge to the session to be elevated; an approver answers it with a signed
  document or a passkey assertion, and the answer elevates the session for a bounded time or, when the
  step-up is bound to one operation, approves that operation. Verifying a proof or an assertion, looking
  up the access list and marking the preview are the environment's.
\<close>

section \<open>The store of pending step-ups\<close>

definition step_up_key :: "string \<Rightarrow> string" where
  "step_up_key chal = ''stepup:'' @ chal"

definition as_step_up :: "session_row option \<Rightarrow> (app_error, pending_step_up option) result" where
  "as_step_up r = (case r of None \<Rightarrow> Ok None | Some (RStepUp p) \<Rightarrow> Ok (Some p) | Some _ \<Rightarrow> Err Serialization)"

datatype consume_outcome = StepUpNotFound | StepUpExpired | StepUpFound pending_step_up

definition store_pending_step_up :: "pending_step_up \<Rightarrow> ('e, unit) sess_prog" where
  "store_pending_step_up p = Insert (step_up_key (su_challenge p)) (RStepUp p) (Ret (Ok ()))"

definition get_pending_step_up :: "string \<Rightarrow> ('e, pending_step_up option) sess_prog" where
  "get_pending_step_up chal = Get (step_up_key chal) (\<lambda>r. Ret (as_step_up r))"

definition consume_pending_step_up :: "string \<Rightarrow> u64 \<Rightarrow> ('e, consume_outcome) sess_prog" where
  "consume_pending_step_up chal now =
     bndE (get_pending_step_up chal) (\<lambda>found.
       case found of
         None \<Rightarrow> Ret (Ok StepUpNotFound)
       | Some p \<Rightarrow>
           Remove (step_up_key chal)
             (Ret (Ok (if now \<ge> su_expires_at p then StepUpExpired else StepUpFound p))))"

definition new_pending_step_up ::
    "string \<Rightarrow> string \<Rightarrow> string \<Rightarrow> string \<Rightarrow> bool \<Rightarrow> string \<Rightarrow> string list \<Rightarrow> u64 \<Rightarrow> u64 \<Rightarrow> pending_step_up" where
  "new_pending_step_up chal sid subject approver approver_any target evidence ttl now =
     \<lparr> su_challenge = chal, su_session_id = sid, su_subject = subject, su_approver = approver,
       su_approver_any = approver_any, su_target_acr = target, su_acceptable_evidence = evidence,
       su_created_at = now, su_expires_at = sat_add now ttl, su_bound_to = None \<rparr>"

section \<open>Asking for a step-up\<close>

definition STEP_UP_TARGET_ACR :: string where "STEP_UP_TARGET_ACR = ''aal2''"
definition STEP_UP_TTL_SECS :: u64 where "STEP_UP_TTL_SECS = 300"
definition STEP_UP_ELEVATION_TTL_SECS :: u64 where "STEP_UP_ELEVATION_TTL_SECS = 900"

record approve_request =
  aq_issuer :: string
  aq_recipient :: "string option"
  aq_subject :: string
  aq_session_id :: string
  aq_challenge :: string
  aq_reason :: string
  aq_target_acr :: string
  aq_accepts :: "string list"
  aq_ttl :: u64
  aq_context :: "string option"

definition mint_pending_step_up ::
    "(approve_request \<Rightarrow> bool) \<Rightarrow> (approve_request \<Rightarrow> 'p option) \<Rightarrow> string \<Rightarrow> string \<Rightarrow> string \<Rightarrow> bool \<Rightarrow> string \<Rightarrow>
     string \<Rightarrow> string option \<Rightarrow> string option \<Rightarrow> bool \<Rightarrow>
     (session_row, 'e, (unit, approve_request \<times> 'p) result) prog" where
  "mint_pending_step_up conforms sign vta_did subject recipient approver_any sid reason context bound_to has_passkey =
     (let acceptable = (if has_passkey then [''webauthn''] else [''did-signed'', ''webauthn'']);
          acceptable_wire = (if has_passkey then [''webauthn''] else [''didSigned'', ''webauthn''])
      in Fresh (\<lambda>chal. Now (\<lambda>now.
        bndE (map_errP (\<lambda>_. ()) (store_pending_step_up
          ((new_pending_step_up chal sid subject recipient approver_any STEP_UP_TARGET_ACR acceptable
              STEP_UP_TTL_SECS now)\<lparr>su_bound_to := bound_to\<rparr>))) (\<lambda>_.
        let doc = \<lparr> aq_issuer = vta_did,
                    aq_recipient = (if \<not> approver_any \<and> recipient \<noteq> [] then Some recipient else None),
                    aq_subject = subject, aq_session_id = sid, aq_challenge = chal, aq_reason = reason,
                    aq_target_acr = STEP_UP_TARGET_ACR, aq_accepts = acceptable_wire, aq_ttl = STEP_UP_TTL_SECS,
                    aq_context = context \<rparr>
        in if \<not> conforms doc then Ret (Err ())
           else case sign doc of None \<Rightarrow> Ret (Err ()) | Some proof \<Rightarrow> Ret (Ok (doc, proof))))))"

section \<open>Answering one\<close>

datatype evidence = DidSigned | Webauthn string | OtherEvidence
datatype decision = Approved | Denied

record approve_response =
  ap_subject :: string
  ap_challenge :: string
  ap_session_id :: "string option"
  ap_decision :: decision
  ap_evidence :: "evidence option"
  ap_granted_acr :: "string option"
  ap_denied_reason :: "string option"

record 'p approve_document =
  ad_issuer :: "string option"
  ad_proof :: "'p option"
  ad_payload :: "approve_response option"

datatype step_up_code =
    SubjectMismatch | ChallengeUnknown | StepUpChallengeExpired | ApproverUnauthorized | NoGate | AcrUnsatisfied

datatype reject_reason =
    MalformedRequest | TaskFailed step_up_code | PermissionDenied | ProofRequired | ProofInvalid | InternalError

datatype approve_outcome =
    Rejected reject_reason | DeniedAck string | Recorded string | Elevated session

datatype step_up_event =
    EvStepUpDenied string string | EvPreviewApproved string string bool | EvStepUpRecorded string string
  | EvStepUp string string

datatype gate_error = GateNoGate | GateSubjectMismatch | GateProofInvalid

record 'p step_up_env =
  se_proof_signer :: "'p approve_document \<Rightarrow> (gate_error, string) result"
  se_webauthn :: "string \<Rightarrow> string \<Rightarrow> string \<Rightarrow> (reject_reason, unit) result"
  se_acl :: "string \<Rightarrow> (app_error, acl_entry option) result"
  se_approve_preview :: "string \<Rightarrow> (app_error, bool) result"

definition verify_did_signed_gate ::
    "'p step_up_env \<Rightarrow> 'p approve_document \<Rightarrow> string \<Rightarrow> (gate_error, unit) result" where
  "verify_did_signed_gate E doc expected_signer =
     (case se_proof_signer E doc of
        Err e \<Rightarrow> Err e
      | Ok signer_did \<Rightarrow> if signer_did \<noteq> expected_signer then Err GateSubjectMismatch else Ok ())"

definition gate_err_to_reject :: "gate_error \<Rightarrow> reject_reason" where
  "gate_err_to_reject e =
     (case e of GateNoGate \<Rightarrow> ProofRequired | GateSubjectMismatch \<Rightarrow> TaskFailed SubjectMismatch
              | GateProofInvalid \<Rightarrow> ProofInvalid)"

definition acr_rank :: "string \<Rightarrow> nat" where
  "acr_rank a = (if a = ''aal3'' then 3 else if a = ''aal2'' then 2 else if a = ''aal1'' then 1 else 0)"

definition settle_proof :: "'p step_up_env \<Rightarrow> 'p approve_document \<Rightarrow> approve_response \<Rightarrow> string \<Rightarrow> (reject_reason, unit) result" where
  "settle_proof E doc payload issuer =
     (if ad_proof doc \<noteq> None then map_err gate_err_to_reject (verify_did_signed_gate E doc issuer)
      else if ap_decision payload = Approved \<and>
              (case ap_evidence payload of Some (Webauthn _) \<Rightarrow> True | _ \<Rightarrow> False) then Ok ()
      else Err ProofRequired)"

definition approver_authorized :: "'p step_up_env \<Rightarrow> pending_step_up \<Rightarrow> string \<Rightarrow> string \<Rightarrow> u64 \<Rightarrow> bool" where
  "approver_authorized E p issuer subject now =
     (if su_approver_any p then
        (case se_acl E issuer of
           Ok (Some issuer_entry) \<Rightarrow>
             \<not> entry_is_expired issuer_entry now \<and>
             (case se_acl E subject of
                Ok (Some subject_entry) \<Rightarrow> delegated_any_approver_covers issuer_entry subject_entry
              | _ \<Rightarrow> False)
         | _ \<Rightarrow> False)
      else issuer = (if su_approver p = [] then subject else su_approver p))"

definition evidence_kind :: "approve_response \<Rightarrow> string option" where
  "evidence_kind payload =
     (case ap_evidence payload of
        None \<Rightarrow> Some ''did-signed'' | Some DidSigned \<Rightarrow> Some ''did-signed''
      | Some (Webauthn _) \<Rightarrow> Some ''webauthn'' | Some OtherEvidence \<Rightarrow> None)"

definition verify_gate ::
    "'p step_up_env \<Rightarrow> pending_step_up \<Rightarrow> approve_response \<Rightarrow> string \<Rightarrow> (reject_reason, string) result" where
  "verify_gate E p payload issuer =
     (if \<not> (case evidence_kind payload of Some k \<Rightarrow> k \<in> set (su_acceptable_evidence p) | None \<Rightarrow> False)
      then Err (TaskFailed NoGate)
      else case ap_evidence payload of
        None \<Rightarrow> Ok ''did''
      | Some DidSigned \<Rightarrow> Ok ''did''
      | Some (Webauthn assertion) \<Rightarrow>
          (case se_webauthn E issuer (ap_challenge payload) assertion of Ok _ \<Rightarrow> Ok ''passkey'' | Err e \<Rightarrow> Err e)
      | Some OtherEvidence \<Rightarrow> Err (TaskFailed NoGate))"

definition elevate :: "string \<Rightarrow> string \<Rightarrow> u64 \<Rightarrow> session \<Rightarrow> bool \<times> session" where
  "elevate factor target deadline s =
     (True, s\<lparr>amr := (if factor \<in> set (amr s) then amr s else amr s @ [factor]), acr := target,
              acr_expires_at := Some deadline\<rparr>)"

definition complete_approval ::
    "(string \<Rightarrow> bytes) \<Rightarrow> 'p step_up_env \<Rightarrow> pending_step_up \<Rightarrow> string \<Rightarrow> string \<Rightarrow>
     (session_row, step_up_event, approve_outcome) prog" where
  "complete_approval sha E p subject factor =
     (case su_bound_to p of
        Some preview_id \<Rightarrow>
          (case se_approve_preview E preview_id of
             Err _ \<Rightarrow> Ret (Rejected InternalError)
           | Ok marked \<Rightarrow>
               Emit (EvPreviewApproved (su_subject p) preview_id marked)
               (Emit (EvStepUpRecorded (su_subject p) preview_id) (Ret (Recorded preview_id))))
      | None \<Rightarrow>
          Now (\<lambda>now.
          bnd (update_session_with sha (su_session_id p)
                 (elevate factor (su_target_acr p) (sat_add now STEP_UP_ELEVATION_TTL_SECS))) (\<lambda>r.
            case r of
              Ok (Some s) \<Rightarrow> Emit (EvStepUp subject (su_session_id p)) (Ret (Elevated s))
            | Ok None \<Rightarrow> Ret (Rejected (TaskFailed ChallengeUnknown))
            | Err _ \<Rightarrow> Ret (Rejected InternalError))))"

text \<open>The decision on a consumed pending step-up, in the order of the source: echoes, approver, refusal,
  gate, assurance level.\<close>

definition judge_response ::
    "(string \<Rightarrow> bytes) \<Rightarrow> 'p step_up_env \<Rightarrow> bool \<Rightarrow> approve_response \<Rightarrow> string \<Rightarrow> pending_step_up \<Rightarrow>
     (session_row, step_up_event, approve_outcome) prog" where
  "judge_response sha E proved payload issuer p =
     (if su_subject p \<noteq> ap_subject payload \<or>
         ap_session_id payload \<noteq> (if su_session_id p = [] then None else Some (su_session_id p))
      then Ret (Rejected (TaskFailed SubjectMismatch))
      else Now (\<lambda>now.
        if \<not> approver_authorized E p issuer (ap_subject payload) now
        then Ret (Rejected (TaskFailed ApproverUnauthorized))
        else if ap_decision payload = Denied then
          Emit (EvStepUpDenied (ap_subject payload) (su_session_id p))
            (Ret (DeniedAck (case ap_denied_reason payload of Some r \<Rightarrow> r | None \<Rightarrow> ''user declined'')))
        else case verify_gate E p payload issuer of
          Err e \<Rightarrow> Ret (Rejected e)
        | Ok factor \<Rightarrow>
            let granted = (if proved then (case ap_granted_acr payload of Some g \<Rightarrow> g | None \<Rightarrow> ''aal2'') else ''aal2'')
            in if acr_rank (su_target_acr p) > acr_rank granted
               then Ret (Rejected (TaskFailed AcrUnsatisfied))
               else complete_approval sha E p (ap_subject payload) factor))"

definition handle_approve_response ::
    "(string \<Rightarrow> bytes) \<Rightarrow> 'p step_up_env \<Rightarrow> auth_claims \<Rightarrow> 'p approve_document \<Rightarrow>
     (session_row, step_up_event, approve_outcome) prog" where
  "handle_approve_response sha E auth doc =
     (case ad_payload doc of
        None \<Rightarrow> Ret (Rejected MalformedRequest)
      | Some payload \<Rightarrow>
          (case ad_issuer doc of
             None \<Rightarrow> Ret (Rejected (TaskFailed SubjectMismatch))
           | Some issuer \<Rightarrow>
               if c_did auth \<noteq> issuer then Ret (Rejected PermissionDenied)
               else case settle_proof E doc payload issuer of
                 Err e \<Rightarrow> Ret (Rejected e)
               | Ok _ \<Rightarrow>
                   Now (\<lambda>now.
                   bnd (consume_pending_step_up (ap_challenge payload) now) (\<lambda>r.
                     case r of
                       Err _ \<Rightarrow> Ret (Rejected InternalError)
                     | Ok StepUpNotFound \<Rightarrow> Ret (Rejected (TaskFailed ChallengeUnknown))
                     | Ok StepUpExpired \<Rightarrow> Ret (Rejected (TaskFailed StepUpChallengeExpired))
                     | Ok (StepUpFound p) \<Rightarrow>
                         judge_response sha E (ad_proof doc \<noteq> None) payload issuer p))))"

section \<open>What an elevation rests on\<close>

lemma step_up_key_simps [simp]:
  "step_up_key a = step_up_key b \<longleftrightarrow> a = b"
  "step_up_key a \<noteq> session_key sid" "session_key sid \<noteq> step_up_key a"
  "step_up_key a \<noteq> pending_challenge_key sha did sid" "pending_challenge_key sha did sid \<noteq> step_up_key a"
  by (simp_all add: step_up_key_def key_defs)

lemma run_consume_pending_step_up:
  "run (consume_pending_step_up chal now) w =
     (case get_raw (w_ks w) (step_up_key chal) of
        None \<Rightarrow> (Ok StepUpNotFound, w)
      | Some (RStepUp p) \<Rightarrow> (Ok (if now \<ge> su_expires_at p then StepUpExpired else StepUpFound p),
          w\<lparr>w_ks := remove (step_up_key chal) (w_ks w)\<rparr>)
      | Some _ \<Rightarrow> (Err Serialization, w))"
  by (simp add: consume_pending_step_up_def get_pending_step_up_def run_simps as_step_up_def
      split: option.splits session_row.splits)

lemma update_attempts: "SESSION_WRITE_ATTEMPTS = Suc 63"
  by (simp add: SESSION_WRITE_ATTEMPTS_def)

lemma run_update_loop_present:
  assumes "get_raw (w_ks w) (session_key sid) = Some (RSession s)" and "modify s = (True, s')"
  shows "\<exists>w'. run (update_session_loop sha sid modify (Suc n)) w = (Ok (Some s'), w') \<and>
    get_raw (w_ks w') (session_key sid) = Some (RSession s') \<and>
    (\<forall>k. k \<noteq> session_key sid \<and> k \<noteq> pending_challenge_key sha (sess_did s') (session_id s') \<longrightarrow>
       get_raw (w_ks w') k = get_raw (w_ks w) k)"
  using assms
  by (cases "sess_state s'")
    (simp_all add: update_session_loop.simps(2) stage_pending_challenge_index_def run_simps
      apply_batchE_def apply_batch_def batch_validate_def is_applied_def)

lemma run_update_loop_other:
  assumes "\<And>s. get_raw (w_ks w) (session_key sid) \<noteq> Some (RSession s)"
  shows "\<exists>r. run (update_session_loop sha sid modify (Suc n)) w = (r, w) \<and> (\<forall>s. r \<noteq> Ok (Some s))"
  using assms by (auto simp: update_session_loop.simps(2) split: option.splits session_row.splits)

lemmas run_update_present = run_update_loop_present [of _ _ _ _ _ _ 63, folded update_attempts update_session_with_def]
lemmas run_update_other = run_update_loop_other [of _ _ _ _ 63, folded update_attempts update_session_with_def]

text \<open>The conditions of an elevation.\<close>

definition approval_holds ::
    "'p step_up_env \<Rightarrow> auth_claims \<Rightarrow> 'p approve_document \<Rightarrow> approve_response \<Rightarrow> pending_step_up \<Rightarrow> string \<Rightarrow>
     (session_row, 'e) world \<Rightarrow> bool" where
  "approval_holds E auth doc payload p factor w \<longleftrightarrow>
     ad_payload doc = Some payload \<and> ad_issuer doc = Some (c_did auth) \<and>
     get_raw (w_ks w) (step_up_key (ap_challenge payload)) = Some (RStepUp p) \<and> w_now w < su_expires_at p \<and>
     ap_subject payload = su_subject p \<and>
     ap_session_id payload = (if su_session_id p = [] then None else Some (su_session_id p)) \<and>
     approver_authorized E p (c_did auth) (su_subject p) (w_now w) \<and> ap_decision payload = Approved \<and>
     (case ap_evidence payload of
        Some (Webauthn a) \<Rightarrow>
          ''webauthn'' \<in> set (su_acceptable_evidence p) \<and> factor = ''passkey'' \<and>
          se_webauthn E (c_did auth) (ap_challenge payload) a = Ok () \<and>
          (ad_proof doc \<noteq> None \<longrightarrow> se_proof_signer E doc = Ok (c_did auth))
      | Some OtherEvidence \<Rightarrow> False
      | _ \<Rightarrow> ''did-signed'' \<in> set (su_acceptable_evidence p) \<and> factor = ''did'' \<and>
          ad_proof doc \<noteq> None \<and> se_proof_signer E doc = Ok (c_did auth)) \<and>
     acr_rank (su_target_acr p) \<le>
       acr_rank (if ad_proof doc \<noteq> None then (case ap_granted_acr payload of Some g \<Rightarrow> g | None \<Rightarrow> ''aal2'') else ''aal2'')"

lemma verify_did_signed_gate_ok:
  "verify_did_signed_gate E doc d = Ok () \<longleftrightarrow> se_proof_signer E doc = Ok d"
  by (auto simp: verify_did_signed_gate_def split: sum.splits)

lemma settle_proof_ok:
  "settle_proof E doc payload d = Ok () \<longleftrightarrow>
     (if ad_proof doc \<noteq> None then se_proof_signer E doc = Ok d
      else ap_decision payload = Approved \<and> (\<exists>a. ap_evidence payload = Some (Webauthn a)))"
  by (auto simp: settle_proof_def verify_did_signed_gate_ok split: option.splits evidence.splits)

lemma verify_gate_ok:
  "verify_gate E p payload d = Ok factor \<longleftrightarrow>
     (case ap_evidence payload of
        Some (Webauthn a) \<Rightarrow> ''webauthn'' \<in> set (su_acceptable_evidence p) \<and> factor = ''passkey'' \<and>
          se_webauthn E d (ap_challenge payload) a = Ok ()
      | Some OtherEvidence \<Rightarrow> False
      | _ \<Rightarrow> ''did-signed'' \<in> set (su_acceptable_evidence p) \<and> factor = ''did'')"
  by (auto simp: verify_gate_def evidence_kind_def split: option.splits evidence.splits sum.splits)

lemma run_complete_approval_Elevated:
  assumes "run (complete_approval sha E p subject factor) w = (Elevated s', w')"
  obtains s where "su_bound_to p = None" and "get_raw (w_ks w) (session_key (su_session_id p)) = Some (RSession s)"
    and "s' = snd (elevate factor (su_target_acr p) (sat_add (w_now w) STEP_UP_ELEVATION_TTL_SECS) s)"
    and "get_raw (w_ks w') (session_key (su_session_id p)) = Some (RSession s')"
    and "\<forall>k. k \<noteq> session_key (su_session_id p) \<and> k \<noteq> pending_challenge_key sha (sess_did s) (session_id s) \<longrightarrow>
      get_raw (w_ks w') k = get_raw (w_ks w) k"
proof -
  let ?m = "elevate factor (su_target_acr p) (sat_add (w_now w) STEP_UP_ELEVATION_TTL_SECS)"
  have bound: "su_bound_to p = None"
    using assms by (auto simp: complete_approval_def split: option.splits sum.splits)
  obtain r w1 where run1: "run (update_session_with sha (su_session_id p) ?m) w = (r, w1)" by fastforce
  then have w1: "run (update_session_with sha (su_session_id p) ?m) w = (Ok (Some s'), w1)" "w_ks w' = w_ks w1"
    using assms bound by (auto simp: complete_approval_def run_simps split: option.splits sum.splits)
  then obtain s where row: "get_raw (w_ks w) (session_key (su_session_id p)) = Some (RSession s)"
    using run_update_other [of w "su_session_id p" sha ?m] by fastforce
  from run_update_present [OF row, of ?m "snd (?m s)" sha] show ?thesis
    using that [OF bound row] w1 by (auto simp: elevate_def)
qed

lemma run_judge_Elevated:
  assumes "run (judge_response sha E proved payload issuer p) w = (Elevated s', w')"
  obtains factor where "su_subject p = ap_subject payload"
    and "ap_session_id payload = (if su_session_id p = [] then None else Some (su_session_id p))"
    and "approver_authorized E p issuer (su_subject p) (w_now w)" and "ap_decision payload = Approved"
    and "verify_gate E p payload issuer = Ok factor"
    and "acr_rank (su_target_acr p) \<le>
      acr_rank (if proved then (case ap_granted_acr payload of Some g \<Rightarrow> g | None \<Rightarrow> ''aal2'') else ''aal2'')"
    and "run (complete_approval sha E p (su_subject p) factor) w = (Elevated s', w')"
  using assms
  by (auto simp: judge_response_def Let_def not_less intro: decision.exhaust split: if_splits sum.splits)

lemma run_handle_Elevated:
  assumes "run (handle_approve_response sha E auth doc) w = (Elevated s', w')"
  obtains payload p where "ad_payload doc = Some payload" and "ad_issuer doc = Some (c_did auth)"
    and "settle_proof E doc payload (c_did auth) = Ok ()"
    and "get_raw (w_ks w) (step_up_key (ap_challenge payload)) = Some (RStepUp p)" and "w_now w < su_expires_at p"
    and "run (judge_response sha E (ad_proof doc \<noteq> None) payload (c_did auth) p)
      (w\<lparr>w_ks := remove (step_up_key (ap_challenge payload)) (w_ks w)\<rparr>) = (Elevated s', w')"
  using assms
  by (auto simp: handle_approve_response_def run_simps run_consume_pending_step_up not_le
      split: option.splits if_splits sum.splits session_row.splits)

lemma approval_gates:
  assumes "approval_holds E auth doc payload p factor w"
  shows "settle_proof E doc payload (c_did auth) = Ok ()" "verify_gate E p payload (c_did auth) = Ok factor"
  using assms unfolding settle_proof_ok verify_gate_ok approval_holds_def
  by (auto split: option.splits evidence.splits)


lemma approval_elevates:
  fixes w :: "(session_row, step_up_event) world"
  assumes ok: "approval_holds E auth doc payload p factor w" and bound: "su_bound_to p = None"
    and row: "get_raw (w_ks w) (session_key (su_session_id p)) = Some (RSession s)"
  shows "\<exists>s' w'. run (handle_approve_response sha E auth doc) w = (Elevated s', w')"
proof -
  let ?w = "w\<lparr>w_ks := remove (step_up_key (ap_challenge payload)) (w_ks w)\<rparr>"
  let ?m = "elevate factor (su_target_acr p) (sat_add (w_now w) STEP_UP_ELEVATION_TTL_SECS)"
  note settled = approval_gates(1) [OF ok] and gate = approval_gates(2) [OF ok]
  have "get_raw (w_ks ?w) (session_key (su_session_id p)) = Some (RSession s)" using row by simp
  then obtain w1 where "run (update_session_with sha (su_session_id p) ?m) ?w = (Ok (Some (snd (?m s))), w1)"
    using run_update_present [of ?w "su_session_id p" s ?m "snd (?m s)" sha] by (auto simp: elevate_def)
  then have "\<exists>s' w'. run (judge_response sha E (ad_proof doc \<noteq> None) payload (c_did auth) p) ?w = (Elevated s', w')"
    using ok gate bound by (auto simp: approval_holds_def judge_response_def complete_approval_def run_simps Let_def not_less)
  then show ?thesis using ok settled
    by (simp add: handle_approve_response_def approval_holds_def run_simps run_consume_pending_step_up not_le)
qed

lemma elevation_rests_on_approval:
  fixes w :: "(session_row, step_up_event) world"
  assumes run: "run (handle_approve_response sha E auth doc) w = (Elevated s', w')"
  obtains payload p factor s where "approval_holds E auth doc payload p factor w" and "su_bound_to p = None"
    and "get_raw (w_ks w) (session_key (su_session_id p)) = Some (RSession s)"
    and "s' = snd (elevate factor (su_target_acr p) (sat_add (w_now w) STEP_UP_ELEVATION_TTL_SECS) s)"
    and "get_raw (w_ks w') (session_key (su_session_id p)) = Some (RSession s')"
    and "get_raw (w_ks w') (step_up_key (ap_challenge payload)) = None"
    and "\<forall>sid. sid \<noteq> su_session_id p \<longrightarrow> get_raw (w_ks w') (session_key sid) = get_raw (w_ks w) (session_key sid)"
proof -
  obtain payload p where h: "ad_payload doc = Some payload" "ad_issuer doc = Some (c_did auth)"
    "settle_proof E doc payload (c_did auth) = Ok ()"
    "get_raw (w_ks w) (step_up_key (ap_challenge payload)) = Some (RStepUp p)" "w_now w < su_expires_at p"
    and j: "run (judge_response sha E (ad_proof doc \<noteq> None) payload (c_did auth) p)
      (w\<lparr>w_ks := remove (step_up_key (ap_challenge payload)) (w_ks w)\<rparr>) = (Elevated s', w')"
    using run by (rule run_handle_Elevated)
  let ?w = "w\<lparr>w_ks := remove (step_up_key (ap_challenge payload)) (w_ks w)\<rparr>"
  obtain factor where judged: "su_subject p = ap_subject payload"
    "ap_session_id payload = (if su_session_id p = [] then None else Some (su_session_id p))"
    "approver_authorized E p (c_did auth) (su_subject p) (w_now ?w)" "ap_decision payload = Approved"
    "verify_gate E p payload (c_did auth) = Ok factor"
    "acr_rank (su_target_acr p) \<le> acr_rank (if ad_proof doc \<noteq> None
       then (case ap_granted_acr payload of Some g \<Rightarrow> g | None \<Rightarrow> ''aal2'') else ''aal2'')"
    and c: "run (complete_approval sha E p (su_subject p) factor) ?w = (Elevated s', w')"
    using j by (rule run_judge_Elevated)
  have holds: "approval_holds E auth doc payload p factor w"
    using h(3) judged(5) unfolding approval_holds_def settle_proof_ok verify_gate_ok
    using h(1,2,4,5) judged(1-4,6) by (auto split: option.splits evidence.splits if_splits)
  obtain s where "su_bound_to p = None" "get_raw (w_ks ?w) (session_key (su_session_id p)) = Some (RSession s)"
    "s' = snd (elevate factor (su_target_acr p) (sat_add (w_now ?w) STEP_UP_ELEVATION_TTL_SECS) s)"
    "get_raw (w_ks w') (session_key (su_session_id p)) = Some (RSession s')"
    "\<forall>k. k \<noteq> session_key (su_session_id p) \<and> k \<noteq> pending_challenge_key sha (sess_did s) (session_id s) \<longrightarrow>
      get_raw (w_ks w') k = get_raw (w_ks ?w) k"
    using c by (rule run_complete_approval_Elevated)
  then show ?thesis using that [OF holds] by simp
qed


section \<open>An example, and a race\<close>

definition example_step_up_env :: "unit step_up_env" where
  "example_step_up_env =
     \<lparr> se_proof_signer = (\<lambda>doc. case ad_issuer doc of Some d \<Rightarrow> Ok d | None \<Rightarrow> Err GateProofInvalid),
       se_webauthn = (\<lambda>_ _ _. Err ProofInvalid), se_acl = (\<lambda>_. Ok None), se_approve_preview = (\<lambda>_. Ok False) \<rparr>"

definition example_caller :: auth_claims where
  "example_caller = \<lparr> c_did = ''did:key:z1'', c_role = Admin, c_allowed_contexts = [''c''], c_session_id = ''did:key:z1'',
     c_access_expires_at = 2000, c_issued_at = 900, c_amr = [''did''], c_acr = ''aal1'' \<rparr>"

definition example_pending :: pending_step_up where
  "example_pending = new_pending_step_up ''chal'' ''did:key:z1'' ''did:key:z1'' ''did:key:z1'' False ''aal2''
     [''did-signed'', ''webauthn''] 300 990"

definition example_response :: approve_response where
  "example_response = \<lparr> ap_subject = ''did:key:z1'', ap_challenge = ''chal'', ap_session_id = Some ''did:key:z1'',
     ap_decision = Approved, ap_evidence = None, ap_granted_acr = None, ap_denied_reason = None \<rparr>"

definition example_document :: "unit approve_document" where
  "example_document = \<lparr> ad_issuer = Some ''did:key:z1'', ad_proof = Some (), ad_payload = Some example_response \<rparr>"

definition example_step_up_world :: "(session_row, step_up_event) world" where
  "example_step_up_world = \<lparr> w_ks = [(session_key ''did:key:z1'', RSession example_session),
       (step_up_key ''chal'', RStepUp example_pending)],
     w_now = 1000, w_supply = (\<lambda>n. replicate n CHR ''x''), w_drawn = 0, w_seq = 0, w_log = [] \<rparr>"

lemmas example_step_up_defs = example_step_up_env_def example_caller_def example_pending_def example_response_def
  example_document_def example_step_up_world_def new_pending_step_up_def


text \<open>What is left of an answer once it has read the record it consumes: the removal and the judgement. It
  elevates the session whenever it runs, as long as the session is there.\<close>

abbreviation answer_rest ::
    "(string \<Rightarrow> bytes) \<Rightarrow> 'p step_up_env \<Rightarrow> auth_claims \<Rightarrow> 'p approve_document \<Rightarrow> approve_response \<Rightarrow> pending_step_up \<Rightarrow>
     (session_row, step_up_event, approve_outcome) prog" where
  "answer_rest sha E auth doc payload p \<equiv>
     Remove (step_up_key (ap_challenge payload)) (judge_response sha E (ad_proof doc \<noteq> None) payload (c_did auth) p)"

lemma rest_elevates:
  fixes w :: "(session_row, step_up_event) world"
  assumes ok: "approval_holds E auth doc payload p factor w\<^sub>0" "w_now w = w_now w\<^sub>0" and bound: "su_bound_to p = None"
    and row: "get_raw (w_ks w) (session_key (su_session_id p)) = Some (RSession s)"
  shows "\<exists>s' w'. run (answer_rest sha E auth doc payload p) w = (Elevated s', w') \<and>
    get_raw (w_ks w') (session_key (su_session_id p)) = Some (RSession s')"
proof -
  let ?w = "w\<lparr>w_ks := remove (step_up_key (ap_challenge payload)) (w_ks w)\<rparr>"
  let ?m = "elevate factor (su_target_acr p) (sat_add (w_now w) STEP_UP_ELEVATION_TTL_SECS)"
  note gate = approval_gates(2) [OF ok(1)]
  have "get_raw (w_ks ?w) (session_key (su_session_id p)) = Some (RSession s)" using row by simp
  then obtain w1 where "run (update_session_with sha (su_session_id p) ?m) ?w = (Ok (Some (snd (?m s))), w1)"
    "get_raw (w_ks w1) (session_key (su_session_id p)) = Some (RSession (snd (?m s)))"
    using run_update_present [of ?w "su_session_id p" s ?m "snd (?m s)" sha] by (auto simp: elevate_def)
  then show ?thesis
    using ok gate bound by (auto simp: approval_holds_def judge_response_def complete_approval_def run_simps Let_def not_less)
qed

lemma answer_reads:
  fixes w :: "(session_row, step_up_event) world"
  assumes ok: "approval_holds E auth doc payload p factor w" and i: "i < length ps"
  shows "reach (ps[i := handle_approve_response sha E auth doc], w) (ps[i := answer_rest sha E auth doc payload p], w)"
  by (rule pool_step [OF i], rule pool_step [OF i], use ok approval_gates(1) [OF ok] in
    \<open>auto simp: approval_holds_def handle_approve_response_def consume_pending_step_up_def get_pending_step_up_def
      as_step_up_def not_le reach_refl\<close>)

text \<open>C38: consuming a pending step-up is a read followed by a removal, two store operations. Two copies of
  one answer that arrive together, whatever the store, can both read the record before either removes it, and
  then both elevate the session, whenever one of them alone would: the approval holds, the step-up is not bound to
  one operation and the session exists. A copy that arrives after the first has finished is refused, the
  challenge being unknown by then.\<close>

theorem step_up_answered_twice:
  fixes w :: "(session_row, step_up_event) world" and E :: "'p step_up_env"
  assumes ok: "approval_holds E auth doc payload p factor w" and bound: "su_bound_to p = None"
    and row: "get_raw (w_ks w) (session_key (su_session_id p)) = Some (RSession s)"
  shows "(\<exists>s1 s2 w'. reach ([handle_approve_response sha E auth doc, handle_approve_response sha E auth doc], w)
        ([Ret (Elevated s1), Ret (Elevated s2)], w')) \<and>
    fst (run (handle_approve_response sha E auth doc) (snd (run (handle_approve_response sha E auth doc) w))) =
      Rejected (TaskFailed ChallengeUnknown)"
proof
  let ?h = "handle_approve_response sha E auth doc" and ?q = "answer_rest sha E auth doc payload p"
  obtain s1 w1 where one: "run ?q w = (Elevated s1, w1)"
    "get_raw (w_ks w1) (session_key (su_session_id p)) = Some (RSession s1)"
    using rest_elevates [OF ok refl bound row] by blast
  have "w_now w1 = w_now w" using run_now [of ?q w] one(1) by simp
  then obtain s2 w2 where two: "run ?q w1 = (Elevated s2, w2)" using rest_elevates [OF ok _ bound one(2)] by blast
  have "reach ([?h, ?h], w) ([?q, ?h], w)" using answer_reads [OF ok, of 0 "[?h, ?h]" sha] by simp
  moreover have "reach ([?q, ?h], w) ([?q, ?q], w)" using answer_reads [OF ok, of 1 "[?q, ?h]" sha] by simp
  moreover have "reach ([?q, ?q], w) ([Ret (Elevated s1), ?q], w1)"
    using run_in_pool [of 0 "[?q, ?q]" ?q w] one(1) by simp
  moreover have "reach ([Ret (Elevated s1), ?q], w1) ([Ret (Elevated s1), Ret (Elevated s2)], w2)"
    using run_in_pool [of 1 "[Ret (Elevated s1), ?q]" ?q w1] two by simp
  ultimately show "\<exists>s1 s2 w'. reach ([?h, ?h], w) ([Ret (Elevated s1), Ret (Elevated s2)], w')"
    by (blast intro: reach_trans)
  obtain s' w' where run1: "run ?h w = (Elevated s', w')" using approval_elevates [OF ok bound row] by blast
  then have "get_raw (w_ks w') (step_up_key (ap_challenge payload)) = None"
    using ok by (elim elevation_rests_on_approval) (simp add: approval_holds_def)
  then show "fst (run ?h (snd (run ?h w))) = Rejected (TaskFailed ChallengeUnknown)"
    using ok approval_gates(1) [OF ok] run1
    by (simp add: approval_holds_def handle_approve_response_def run_simps run_consume_pending_step_up)
qed

theorem step_up_answered_twice_witness:
  "\<exists>s1 s2 w'. reach (replicate 2 (handle_approve_response example_sha example_step_up_env example_caller example_document),
     example_step_up_world) ([Ret (Elevated s1), Ret (Elevated s2)], w')"
proof -
  have "approval_holds example_step_up_env example_caller example_document example_response example_pending ''did''
      example_step_up_world" "su_bound_to example_pending = None"
      "get_raw (w_ks example_step_up_world) (session_key (su_session_id example_pending)) = Some (RSession example_session)"
    by (simp_all add: approval_holds_def example_step_up_defs get_raw_def sat_add_def approver_authorized_def acr_rank_def)
  from step_up_answered_twice [OF this, THEN conjunct1] show ?thesis by (simp add: numeral_2_eq_2)
qed

end
