(* ===== verification/Store_Claims.thy ===== *)
theory Store_Claims
  imports Store_Logic
begin

text \<open>
  A logic for programs that race to bring one row of the store into a live state.  Where
  \<open>Store_Logic\<close> follows a key that is taken, here a row \<open>T\<close> is won: by inserting it where it is
  absent, or by replacing a row that is no longer live, both in one atomic operation.  A program that
  wins may perform an effect; if the effect fails it gives the row back.  The rule at the end says
  that in a pool of such programs at most one effect succeeds.
\<close>

section \<open>Racing for a row\<close>

text \<open>A program that has not won: it leaves a live row live, it emits no success, it returns only
  results satisfying \<open>ok\<close>, and the step by which it makes the row live leads to a program in \<open>S\<close>.
  The clock readings it sees are taken from \<open>N\<close>.\<close>

primrec races ::
    "u64 set \<Rightarrow> string \<Rightarrow> ('v \<Rightarrow> bool) \<Rightarrow> ('e \<Rightarrow> bool) \<Rightarrow> ('v, 'e, 'r) prog set \<Rightarrow> ('r \<Rightarrow> bool) \<Rightarrow>
     ('v, 'e, 'r) prog \<Rightarrow> bool" where
  "races N T live succ S ok (Ret r) = ok r"
| "races N T live succ S ok (Get k c) = (\<forall>x. races N T live succ S ok (c x))"
| "races N T live succ S ok (Insert k v c) = (k \<noteq> T \<and> races N T live succ S ok c)"
| "races N T live succ S ok (Remove k c) = (k \<noteq> T \<and> races N T live succ S ok c)"
| "races N T live succ S ok (Take k c) = (k \<noteq> T \<and> (\<forall>x. races N T live succ S ok (c x)))"
| "races N T live succ S ok (InsertIfAbsent k v c) =
     (races N T live succ S ok (c False) \<and>
      (if k = T then live v \<and> c True \<in> S else races N T live succ S ok (c True)))"
| "races N T live succ S ok (MoveIfUnchanged k v k' v' c) =
     (k \<noteq> T \<and> k' \<noteq> T \<and> (\<forall>x. races N T live succ S ok (c x)))"
| "races N T live succ S ok (ApplyBatch b c) =
     ((\<forall>x. x \<noteq> Ok Applied \<longrightarrow> races N T live succ S ok (c x)) \<and>
      (T \<notin> write_key ` set (writes b) \<and> races N T live succ S ok (c (Ok Applied)) \<or>
       (\<exists>raw v. checks b = [Unchanged T raw] \<and> writes b = [Put T v] \<and> (live raw \<longrightarrow> live v) \<and>
          (races N T live succ S ok (c (Ok Applied)) \<or> \<not> live raw \<and> live v \<and> c (Ok Applied) \<in> S))))"
| "races N T live succ S ok (PrefixIter p c) = (\<forall>x. races N T live succ S ok (c x))"
| "races N T live succ S ok (Now c) = (\<forall>t \<in> N. races N T live succ S ok (c t))"
| "races N T live succ S ok (Fresh c) = (\<forall>x. races N T live succ S ok (c x))"
| "races N T live succ S ok (NextSeq c) = (\<forall>x. races N T live succ S ok (c x))"
| "races N T live succ S ok (Emit e c) = (\<not> succ e \<and> races N T live succ S ok c)"

lemma races_bnd:
  assumes "races N T live succ S' ok' p"
    and "\<And>r. ok' r \<Longrightarrow> races N T live succ S ok (f r)" and "\<And>q. q \<in> S' \<Longrightarrow> bnd q f \<in> S"
  shows "races N T live succ S ok (bnd p f)"
  using assms(1)
proof (induction p)
  case (ApplyBatch b c)
  then show ?case using assms(3) by simp (metis rangeI)
qed (auto simp: assms(2,3) split: if_splits)

lemma races_mono:
  assumes "races N T live succ S ok p" and "\<And>r. ok r \<Longrightarrow> ok' r" and "S \<subseteq> S'"
  shows "races N T live succ S' ok' p"
  using races_bnd [OF assms(1), of S' ok' Ret] assms(2,3) by (auto simp: bnd_Ret)

text \<open>The row of a key in the world, and the successes logged so far.\<close>

definition row_live :: "string \<Rightarrow> ('v \<Rightarrow> bool) \<Rightarrow> ('v, 'e) world \<Rightarrow> bool" where
  "row_live T live w \<longleftrightarrow> (\<exists>v. get_raw (w_ks w) T = Some v \<and> live v)"

definition successes :: "('e \<Rightarrow> bool) \<Rightarrow> ('v, 'e) world \<Rightarrow> nat" where
  "successes succ w = length (filter succ (w_log w))"

lemma successes_tick [simp]: "successes succ (w\<lparr>w_now := t\<rparr>) = successes succ w"
  by (simp add: successes_def)

lemma row_live_tick [simp]: "row_live T live (w\<lparr>w_now := t\<rparr>) = row_live T live w"
  by (simp add: row_live_def)

lemma apply_conditional_put:
  fixes ks :: "(string, 'v) keyspace"
  assumes "checks b = [Unchanged T raw]" and "writes b = [Put T v]"
  shows "apply_batch b ks =
    (if get_raw ks T = Some raw then (Ok Applied, insert_raw T v ks) else (Ok (Refused 0), ks))"
  using assms by (auto simp: apply_batch_def batch_validate_def split: option.splits)

lemma races_batch_step:
  assumes "races N T live succ S ok (ApplyBatch b c)"
  shows "let p' = fst (step1 (ApplyBatch b c) w); w' = snd (step1 (ApplyBatch b c) w) in
    successes succ w' = successes succ w \<and>
    (races N T live succ S ok p' \<and> (row_live T live w \<longrightarrow> row_live T live w') \<or>
     \<not> row_live T live w \<and> row_live T live w' \<and> p' \<in> S)"
proof (cases "T \<in> write_key ` set (writes b)")
  case False
  then have "get_raw (snd (apply_batch b (w_ks w))) T = get_raw (w_ks w) T"
    by (rule apply_batch_other)
  moreover have "races N T live succ S ok (c x)" for x
    using assms False by (cases "x = Ok Applied") auto
  ultimately show ?thesis by (simp add: Let_def row_live_def successes_def)
next
  case True
  then obtain raw v where b: "checks b = [Unchanged T raw]" "writes b = [Put T v]" "live raw \<longrightarrow> live v"
    "races N T live succ S ok (c (Ok Applied)) \<or> \<not> live raw \<and> live v \<and> c (Ok Applied) \<in> S"
    using assms by auto
  have refused: "races N T live succ S ok (c (Ok (Refused 0)))" using assms by simp
  show ?thesis
  proof (cases "get_raw (w_ks w) T = Some raw")
    case True
    then show ?thesis using b(3,4)
      by (auto simp: Let_def row_live_def successes_def apply_conditional_put [OF b(1,2)]
          local_store.get_put)
  next
    case False
    then show ?thesis using refused
      by (auto simp: Let_def row_live_def successes_def apply_conditional_put [OF b(1,2)])
  qed
qed

text \<open>One step of a racing program: it wins, or it goes on racing and leaves a live row live.\<close>

lemma races_step:
  assumes "races N T live succ S ok p" and "w_now w \<in> N"
  shows "let p' = fst (step1 p w); w' = snd (step1 p w) in
    successes succ w' = successes succ w \<and>
    (races N T live succ S ok p' \<and> (row_live T live w \<longrightarrow> row_live T live w') \<or>
     \<not> row_live T live w \<and> row_live T live w' \<and> p' \<in> S)"
proof (cases p)
  case (ApplyBatch b c)
  then show ?thesis using races_batch_step [of N T live succ S ok b c w] assms(1) by simp
next
  case (InsertIfAbsent k v c)
  then show ?thesis using assms
    by (auto simp: Let_def row_live_def successes_def insert_if_absent_def local_store.get_put
        split: option.splits if_splits)
qed (use assms in \<open>auto simp: Let_def row_live_def successes_def local_store.get_put local_store.get_del
      take_raw_simps move_if_unchanged_def get_raw_commit_move split: option.splits\<close>)

section \<open>At most one success\<close>

text \<open>A program that only races on without winning again; one that is about to give the row back; and
  the winner, which is about to perform its effect.\<close>

definition settled :: "u64 set \<Rightarrow> string \<Rightarrow> ('v \<Rightarrow> bool) \<Rightarrow> ('e \<Rightarrow> bool) \<Rightarrow> ('v, 'e, 'r) prog \<Rightarrow> bool" where
  "settled N T live succ p \<longleftrightarrow> races N T live succ {} (\<lambda>_. True) p"

definition releasing :: "u64 set \<Rightarrow> string \<Rightarrow> ('v \<Rightarrow> bool) \<Rightarrow> ('e \<Rightarrow> bool) \<Rightarrow> ('v, 'e, 'r) prog \<Rightarrow> bool" where
  "releasing N T live succ p \<longleftrightarrow> (\<exists>b c. p = ApplyBatch b c \<and> (\<forall>x. settled N T live succ (c x)))"

definition holding :: "u64 set \<Rightarrow> string \<Rightarrow> ('v \<Rightarrow> bool) \<Rightarrow> ('e \<Rightarrow> bool) \<Rightarrow> ('v, 'e, 'r) prog \<Rightarrow> bool" where
  "holding N T live succ p \<longleftrightarrow>
     (\<exists>e c. p = Emit e c \<and> (if succ e then settled N T live succ c else releasing N T live succ c))"

abbreviation contends ::
    "u64 set \<Rightarrow> string \<Rightarrow> ('v \<Rightarrow> bool) \<Rightarrow> ('e \<Rightarrow> bool) \<Rightarrow> ('v, 'e, 'r) prog \<Rightarrow> bool" where
  "contends N T live succ p \<equiv>
     races N T live succ (Collect (holding N T live succ)) (\<lambda>_. True) p"

lemma settled_contends: "settled N T live succ p \<Longrightarrow> contends N T live succ p"
  unfolding settled_def by (erule races_mono) auto

text \<open>The state of the pool.  Either nobody holds the row and nothing succeeded; or one effect
  succeeded and the row stays live; or one program holds a live row and nothing succeeded.\<close>

definition race_state ::
    "u64 set \<Rightarrow> string \<Rightarrow> ('v \<Rightarrow> bool) \<Rightarrow> ('e \<Rightarrow> bool) \<Rightarrow> ('v, 'e, 'r) prog list \<Rightarrow> ('v, 'e) world \<Rightarrow> bool" where
  "race_state N T live succ ps w \<longleftrightarrow>
     (\<forall>i < length ps. contends N T live succ (ps ! i)) \<and>
       (successes succ w = 0 \<or> row_live T live w \<and> successes succ w = 1) \<or>
     row_live T live w \<and> successes succ w = 0 \<and>
       (\<exists>j < length ps. (holding N T live succ (ps ! j) \<or> releasing N T live succ (ps ! j)) \<and>
          (\<forall>i < length ps. i \<noteq> j \<longrightarrow> contends N T live succ (ps ! i)))"

lemma race_state_free:
  assumes "contends N T live succ p'" and "\<forall>j < length ps. j \<noteq> i \<longrightarrow> contends N T live succ (ps ! j)"
    and "successes succ w = 0 \<or> row_live T live w \<and> successes succ w = 1"
  shows "race_state N T live succ (ps[i := p']) w"
proof -
  have "\<forall>j < length (ps[i := p']). contends N T live succ (ps[i := p'] ! j)"
    using assms(1,2) by (metis length_list_update nth_list_update_eq nth_list_update_neq)
  then show ?thesis using assms(3) unfolding race_state_def by blast
qed

lemma race_state_held:
  assumes "holding N T live succ p' \<or> releasing N T live succ p'" and "i < length ps"
    and "\<forall>j < length ps. j \<noteq> i \<longrightarrow> contends N T live succ (ps ! j)"
    and "row_live T live w" and "successes succ w = 0"
  shows "race_state N T live succ (ps[i := p']) w"
proof -
  have "\<exists>j < length (ps[i := p']).
      (holding N T live succ (ps[i := p'] ! j) \<or> releasing N T live succ (ps[i := p'] ! j)) \<and>
      (\<forall>m < length (ps[i := p']). m \<noteq> j \<longrightarrow> contends N T live succ (ps[i := p'] ! m))"
    using assms(1-3) by (intro exI [of _ i]) (simp add: nth_list_update)
  then show ?thesis using assms(4,5) by (simp add: race_state_def)
qed

lemma step1_now [simp]: "w_now (snd (step1 p w)) = w_now w"
  by (cases p) simp_all

lemma holder_step:
  assumes "holding N T live succ p \<or> releasing N T live succ p"
    and "row_live T live w" and "successes succ w = 0"
  shows "let p' = fst (step1 p w); w' = snd (step1 p w) in
    contends N T live succ p' \<and> (successes succ w' = 0 \<or> row_live T live w' \<and> successes succ w' = 1) \<or>
    releasing N T live succ p' \<and> row_live T live w' \<and> successes succ w' = 0"
  using assms(1)
proof
  assume "holding N T live succ p"
  then show ?thesis using assms(2,3)
    by (auto simp: holding_def Let_def row_live_def successes_def settled_contends split: if_splits)
next
  assume "releasing N T live succ p"
  then show ?thesis using assms(3)
    by (auto simp: releasing_def Let_def successes_def settled_contends)
qed

lemma contender_step:
  assumes "contends N T live succ p" and "w_now w \<in> N"
  shows "let p' = fst (step1 p w); w' = snd (step1 p w) in
    successes succ w' = successes succ w \<and>
    (contends N T live succ p' \<and> (row_live T live w \<longrightarrow> row_live T live w') \<or>
     \<not> row_live T live w \<and> row_live T live w' \<and> holding N T live succ p')"
  using races_step [OF assms] by (simp add: Let_def)

lemma race_state_step:
  assumes inv: "race_state N T live succ ps w" and now: "w_now w \<in> N" and i: "i < length ps"
  shows "race_state N T live succ (ps[i := fst (step1 (ps ! i) w)]) (snd (step1 (ps ! i) w))"
proof -
  let ?C = "contends N T live succ" and ?p' = "fst (step1 (ps ! i) w)" and ?w' = "snd (step1 (ps ! i) w)"
  consider (free) "\<forall>j < length ps. ?C (ps ! j)"
      "successes succ w = 0 \<or> row_live T live w \<and> successes succ w = 1"
    | (held) j where "row_live T live w" "successes succ w = 0" "j < length ps"
        "holding N T live succ (ps ! j) \<or> releasing N T live succ (ps ! j)"
        "\<forall>i < length ps. i \<noteq> j \<longrightarrow> ?C (ps ! i)"
    using inv unfolding race_state_def by blast
  then show ?thesis
  proof cases
    case free
    then have others: "\<forall>j < length ps. j \<noteq> i \<longrightarrow> ?C (ps ! j)" by blast
    from free(1) i have "?C (ps ! i)" by blast
    from contender_step [OF this now] free(2)
    consider "?C ?p'" "successes succ ?w' = 0 \<or> row_live T live ?w' \<and> successes succ ?w' = 1"
      | "holding N T live succ ?p'" "row_live T live ?w'" "successes succ ?w' = 0"
      by (auto simp: Let_def)
    then show ?thesis
      by cases (rule race_state_free [OF _ others], assumption+, rule race_state_held [OF _ i others], simp_all)
  next
    case held
    show ?thesis
    proof (cases "i = j")
      case True
      with held(5) have others: "\<forall>j < length ps. j \<noteq> i \<longrightarrow> ?C (ps ! j)" by blast
      from holder_step [OF held(4,1,2)] True
      consider "?C ?p'" "successes succ ?w' = 0 \<or> row_live T live ?w' \<and> successes succ ?w' = 1"
        | "releasing N T live succ ?p'" "row_live T live ?w'" "successes succ ?w' = 0"
        by (auto simp: Let_def)
      then show ?thesis
        by cases (rule race_state_free [OF _ others], assumption+, rule race_state_held [OF _ i others], simp_all)
    next
      case False
      then have "?C (ps ! i)" using held(5) i by blast
      from contender_step [OF this now] held(1,2)
      have s: "?C ?p'" "row_live T live ?w'" "successes succ ?w' = 0" by (auto simp: Let_def)
      have "\<forall>m < length ps. m \<noteq> j \<longrightarrow> ?C (ps[i := ?p'] ! m)"
        using held(5) s(1) i by (metis nth_list_update_eq nth_list_update_neq)
      then have "race_state N T live succ ((ps[i := ?p'])[j := ps ! j]) ?w'"
        using held(3,4) s(2,3) by (intro race_state_held) simp_all
      moreover have "(ps[i := ?p'])[j := ps ! j] = ps[i := ?p']"
        using False by (simp add: list_update_swap)
      ultimately show ?thesis by simp
    qed
  qed
qed

text \<open>The invariant of an execution from the clock reading \<open>lo\<close>, for as long as the clock is at most
  \<open>H\<close>.\<close>

definition race_inv ::
    "u64 \<Rightarrow> u64 \<Rightarrow> string \<Rightarrow> ('v \<Rightarrow> bool) \<Rightarrow> ('e \<Rightarrow> bool) \<Rightarrow> ('v, 'e, 'r) prog list \<times> ('v, 'e) world \<Rightarrow> bool" where
  "race_inv lo H T live succ c \<longleftrightarrow>
     lo \<le> w_now (snd c) \<and> (w_now (snd c) \<le> H \<longrightarrow> race_state {lo..H} T live succ (fst c) (snd c))"

lemma race_state_tick: "race_state N T live succ ps (w\<lparr>w_now := t\<rparr>) = race_state N T live succ ps w"
  by (simp add: race_state_def)

lemma race_inv_pstep:
  assumes "race_inv lo H T live succ c" and "pstep c d"
  shows "race_inv lo H T live succ d"
  using assms(2)
proof cases
  case (pstep_thread i ps w p' w')
  have p': "p' = fst (step1 (ps ! i) w)" "w' = snd (step1 (ps ! i) w)" using pstep_thread(4) by simp_all
  show ?thesis using assms(1) race_state_step [of "{lo..H}" T live succ ps w i] pstep_thread(3)
    unfolding pstep_thread(1,2) race_inv_def p' by simp
next
  case (pstep_tick w t ps)
  then show ?thesis using assms(1) order_trans [of "w_now w" t H] order_trans [of lo "w_now w" t]
    by (simp add: race_inv_def race_state_tick)
qed

lemma one_success:
  assumes "reach (ps, w) (qs, w')"
    and "\<And>p. p \<in> set ps \<Longrightarrow> contends {w_now w..w_now w'} T live succ p" and "successes succ w = 0"
  shows "successes succ w' \<le> 1"
proof -
  have "race_inv (w_now w) (w_now w') T live succ (ps, w)"
    using assms(2,3) by (simp add: race_inv_def race_state_def)
  with assms(1) have "race_inv (w_now w) (w_now w') T live succ (qs, w')"
    by (rule reach_invariant) (rule race_inv_pstep)
  then show ?thesis by (auto simp: race_inv_def race_state_def)
qed

end
