(* ===== verification/Idempotency.thy ===== *)
theory Idempotency
  imports Store_Claims Session
begin

text \<open>
  Idempotency keys: the store of \<open>vti-common/src/idempotency/store.rs\<close> and \<open>class.rs\<close>, and the
  use the agent's Trust Task dispatcher makes of it (\<open>vta-service/src/trust_tasks/idempotency.rs\<close> and
  the end of the dispatcher in \<open>trust_tasks/mod.rs\<close>).  A keyed request claims its key before its
  handler runs, and records or releases the claim afterwards.  Instants are whole seconds, as
  integers, and durations are differences of them.  SHA-256, the JSON encodings and the framework's
  \<open>record_expiry\<close> are arguments; a stored row is an encoded entry or one that does not decode.
\<close>

section \<open>Records\<close>

type_synonym instant = int

datatype idempotency_class = NonDestructive | Destructive

fun ttl_seconds :: "idempotency_class \<Rightarrow> u64" where
  "ttl_seconds NonDestructive = 24 * 60 * 60"
| "ttl_seconds Destructive = 60"

datatype principal = AuthToken string | Ip string | Did string | Anonymous

fun principal_hash :: "(string \<Rightarrow> bytes) \<Rightarrow> principal \<Rightarrow> bytes" where
  "principal_hash sha (AuthToken b) = sha (''auth-token:'' @ b)"
| "principal_hash sha (Did did) = sha (''did:'' @ did)"
| "principal_hash sha (Ip ip) = sha (''ip:'' @ ip)"
| "principal_hash sha Anonymous = sha ''anonymous''"

datatype entry_state = InFlight | Completed | CompletedNotRetained

record cache_entry =
  ce_state :: entry_state
  ce_idempotency_key :: string
  ce_request_hash :: bytes
  ce_response_status :: u16
  ce_response_headers :: "(string \<times> string) list"
  ce_response_body :: string
  ce_class :: idempotency_class
  ce_created_at :: instant
  ce_expires_at :: instant

datatype idem_row = IdemRow cache_entry | IdemMalformed string

definition is_expired :: "cache_entry \<Rightarrow> instant \<Rightarrow> bool" where
  "is_expired e now \<longleftrightarrow> ce_expires_at e \<le> now"

definition is_in_flight :: "cache_entry \<Rightarrow> bool" where
  "is_in_flight e \<longleftrightarrow> ce_state e = InFlight"

definition has_replayable_response :: "cache_entry \<Rightarrow> bool" where
  "has_replayable_response e \<longleftrightarrow> ce_state e = Completed"

definition from_idem_row :: "idem_row \<Rightarrow> (app_error, cache_entry) result" where
  "from_idem_row raw = (case raw of IdemRow e \<Rightarrow> Ok e | IdemMalformed _ \<Rightarrow> Err Serialization)"

record completed_response =
  cr_status :: u16
  cr_headers :: "(string \<times> string) list"
  cr_body :: string

datatype claim_outcome =
    OClaimed | OInFlight | OAbandoned instant | OCompleted cache_entry | OConflict

definition idem_storage_key :: "bytes \<Rightarrow> string \<Rightarrow> string" where
  "idem_storage_key ph key = ''idem:'' @ hex_lower ph @ '':'' @ key"

section \<open>The store\<close>

type_synonym 'e idem_world = "(idem_row, 'e) world"

definition WRITE_ATTEMPTS :: nat where
  "WRITE_ATTEMPTS = 64"

definition idem_get :: "bytes \<Rightarrow> string \<Rightarrow> (idem_row, 'e, (app_error, cache_entry option) result) prog" where
  "idem_get ph key =
     Get (idem_storage_key ph key) (\<lambda>raw.
       (case raw of
          None \<Rightarrow> Now (\<lambda>now. Ret (Ok None))
        | Some r \<Rightarrow>
            (case from_idem_row r of
               Err e \<Rightarrow> Ret (Err e)
             | Ok e \<Rightarrow> Now (\<lambda>now. Ret (Ok (if is_expired e (uint now) then None else Some e))))))"

definition idem_put :: "bytes \<Rightarrow> cache_entry \<Rightarrow> (idem_row, 'e, (app_error, unit) result) prog" where
  "idem_put ph e = Insert (idem_storage_key ph (ce_idempotency_key e)) (IdemRow e) (Ret (Ok ()))"

text \<open>A write conditional on the row as read.\<close>

definition replace_row :: "string \<Rightarrow> idem_row \<Rightarrow> cache_entry \<Rightarrow> (string, idem_row) batch" where
  "replace_row sk raw e = \<lparr>checks = [Unchanged sk raw], writes = [Put sk (IdemRow e)]\<rparr>"

text \<open>What a claim reports of a record of the same request that has not expired.\<close>

definition repeat_outcome :: "instant \<Rightarrow> int \<Rightarrow> cache_entry \<Rightarrow> claim_outcome" where
  "repeat_outcome now grace e =
     (if is_in_flight e then
        if now - ce_created_at e > grace then OAbandoned (ce_created_at e) else OInFlight
      else OCompleted e)"

primrec claim_loop ::
    "nat \<Rightarrow> string \<Rightarrow> cache_entry \<Rightarrow> instant \<Rightarrow> int \<Rightarrow> instant option \<Rightarrow>
     (idem_row, 'e, (app_error, claim_outcome) result) prog" where
  "claim_loop 0 sk pending now grace retain_until = Ret (Err Conflict)"
| "claim_loop (Suc n) sk pending now grace retain_until =
     InsertIfAbsent sk (IdemRow pending) (\<lambda>inserted.
       if inserted then Ret (Ok OClaimed)
       else Get sk (\<lambda>found.
         (case found of
            None \<Rightarrow> claim_loop n sk pending now grace retain_until
          | Some raw \<Rightarrow>
              (case from_idem_row raw of
                 Err e \<Rightarrow> Ret (Err e)
               | Ok existing \<Rightarrow>
                   if \<not> is_expired existing now then
                     if ce_request_hash existing \<noteq> ce_request_hash pending then Ret (Ok OConflict)
                     else
                       (case retain_until of
                          None \<Rightarrow> Ret (Ok (repeat_outcome now grace existing))
                        | Some until \<Rightarrow>
                            if until > ce_expires_at existing then
                              let existing = existing\<lparr>ce_expires_at := until\<rparr> in
                              ApplyBatch (replace_row sk raw existing) (\<lambda>out.
                                (case out of
                                   Err e \<Rightarrow> Ret (Err e)
                                 | Ok a \<Rightarrow>
                                     if is_applied a then Ret (Ok (repeat_outcome now grace existing))
                                     else claim_loop n sk pending now grace retain_until))
                            else Ret (Ok (repeat_outcome now grace existing)))
                   else
                     ApplyBatch (replace_row sk raw pending) (\<lambda>out.
                       (case out of
                          Err e \<Rightarrow> Ret (Err e)
                        | Ok a \<Rightarrow>
                            if is_applied a then Ret (Ok OClaimed)
                            else claim_loop n sk pending now grace retain_until))))))"

definition claim_retained ::
    "bytes \<Rightarrow> string \<Rightarrow> bytes \<Rightarrow> idempotency_class \<Rightarrow> int \<Rightarrow> instant option \<Rightarrow>
     (idem_row, 'e, (app_error, claim_outcome) result) prog" where
  "claim_retained ph key request_hash cls in_flight_grace retain_until =
     Now (\<lambda>t.
       let now = uint t;
           ttl_end = now + uint (ttl_seconds cls);
           pending =
             \<lparr>ce_state = InFlight, ce_idempotency_key = key, ce_request_hash = request_hash,
              ce_response_status = 0, ce_response_headers = [], ce_response_body = [],
              ce_class = cls, ce_created_at = now,
              ce_expires_at = (case retain_until of None \<Rightarrow> ttl_end | Some until \<Rightarrow> max until ttl_end)\<rparr>
       in claim_loop WRITE_ATTEMPTS (idem_storage_key ph key) pending now in_flight_grace retain_until)"

definition idem_claim ::
    "bytes \<Rightarrow> string \<Rightarrow> bytes \<Rightarrow> idempotency_class \<Rightarrow> int \<Rightarrow>
     (idem_row, 'e, (app_error, claim_outcome) result) prog" where
  "idem_claim ph key request_hash cls in_flight_grace =
     claim_retained ph key request_hash cls in_flight_grace None"

fun completed_entry :: "completed_response option \<Rightarrow> cache_entry \<Rightarrow> cache_entry" where
  "completed_entry (Some r) e =
     e\<lparr>ce_state := Completed, ce_response_status := cr_status r, ce_response_headers := cr_headers r,
       ce_response_body := cr_body r\<rparr>"
| "completed_entry None e =
     e\<lparr>ce_state := CompletedNotRetained, ce_response_status := 0, ce_response_headers := [],
       ce_response_body := []\<rparr>"

primrec complete_loop ::
    "nat \<Rightarrow> string \<Rightarrow> completed_response option \<Rightarrow> (idem_row, 'e, (app_error, unit) result) prog" where
  "complete_loop 0 sk response = Ret (Err Conflict)"
| "complete_loop (Suc n) sk response =
     Get sk (\<lambda>found.
       (case found of
          None \<Rightarrow> Ret (Ok ())
        | Some raw \<Rightarrow>
            (case from_idem_row raw of
               Err e \<Rightarrow> Ret (Err e)
             | Ok e \<Rightarrow>
                 if \<not> is_in_flight e then Ret (Ok ())
                 else
                   ApplyBatch (replace_row sk raw (completed_entry response e)) (\<lambda>out.
                     (case out of
                        Err e \<Rightarrow> Ret (Err e)
                      | Ok a \<Rightarrow> if is_applied a then Ret (Ok ()) else complete_loop n sk response)))))"

definition idem_complete ::
    "bytes \<Rightarrow> string \<Rightarrow> completed_response option \<Rightarrow> (idem_row, 'e, (app_error, unit) result) prog" where
  "idem_complete ph key response = complete_loop WRITE_ATTEMPTS (idem_storage_key ph key) response"

definition idem_release :: "bytes \<Rightarrow> string \<Rightarrow> (idem_row, 'e, (app_error, unit) result) prog" where
  "idem_release ph key =
     ApplyBatch \<lparr>checks = [], writes = [Delete (idem_storage_key ph key)]\<rparr> (\<lambda>out.
       (case out of Err e \<Rightarrow> Ret (Err e) | Ok _ \<Rightarrow> Ret (Ok ())))"

section \<open>Keyed Trust Tasks\<close>

datatype retry_safety = ReadOnly | RetrySafe | Keyed | KeyedSecret

definition needs_key :: "retry_safety \<Rightarrow> bool" where
  "needs_key s \<longleftrightarrow> s = Keyed \<or> s = KeyedSecret"

definition response_is_replayable :: "retry_safety \<Rightarrow> bool" where
  "response_is_replayable s \<longleftrightarrow> s \<noteq> KeyedSecret"

text \<open>The table \<open>RETRY_SAFETY\<close> is an argument: its keys are identifiers the specification crates
  generate.\<close>

definition retry_safety_of :: "(string \<times> retry_safety) list \<Rightarrow> string \<Rightarrow> retry_safety option" where
  "retry_safety_of table uri = map_option snd (List.find (\<lambda>(u, _). u = uri) table)"

text \<open>The members of a document the dispatcher reads here: its type, its \<open>idempotencyKey\<close> where that
  is a JSON string, its serialised payload and its \<open>expiresAt\<close>.\<close>

record trust_task_doc =
  tt_type_uri :: string
  tt_idempotency_key :: "string option"
  tt_payload :: string
  tt_expires_at :: "instant option"

record task_outcome =
  to_status :: u16
  to_body :: string
  to_restart :: bool

record idem_env =
  ie_sha :: "string \<Rightarrow> bytes"
  ie_retry_safety :: "(string \<times> retry_safety) list"
  ie_record_expiry :: "trust_task_doc \<Rightarrow> instant \<Rightarrow> instant option"
  ie_skew :: int

definition IN_FLIGHT_GRACE_MINS :: int where
  "IN_FLIGHT_GRACE_MINS = 10"

definition MAX_CACHED_BODY :: nat where
  "MAX_CACHED_BODY = 64 * 1024"

definition IN_FLIGHT_RETRY_AFTER_SECS :: int where
  "IN_FLIGHT_RETRY_AFTER_SECS = 2"

definition CLASS :: idempotency_class where
  "CLASS = NonDestructive"

text \<open>\<open>str::trim\<close> on UTF-8: the encodings of the characters with the property White\_Space.\<close>

definition white_space :: "string list" where
  "white_space =
     [[CHR 0x09], [CHR 0x0A], [CHR 0x0B], [CHR 0x0C], [CHR 0x0D], [CHR 0x20],
      [CHR 0xC2, CHR 0x85], [CHR 0xC2, CHR 0xA0], [CHR 0xE1, CHR 0x9A, CHR 0x80],
      [CHR 0xE2, CHR 0x80, CHR 0x80], [CHR 0xE2, CHR 0x80, CHR 0x81],
      [CHR 0xE2, CHR 0x80, CHR 0x82], [CHR 0xE2, CHR 0x80, CHR 0x83],
      [CHR 0xE2, CHR 0x80, CHR 0x84], [CHR 0xE2, CHR 0x80, CHR 0x85],
      [CHR 0xE2, CHR 0x80, CHR 0x86], [CHR 0xE2, CHR 0x80, CHR 0x87],
      [CHR 0xE2, CHR 0x80, CHR 0x88], [CHR 0xE2, CHR 0x80, CHR 0x89],
      [CHR 0xE2, CHR 0x80, CHR 0x8A], [CHR 0xE2, CHR 0x80, CHR 0xA8],
      [CHR 0xE2, CHR 0x80, CHR 0xA9], [CHR 0xE2, CHR 0x80, CHR 0xAF],
      [CHR 0xE2, CHR 0x81, CHR 0x9F], [CHR 0xE3, CHR 0x80, CHR 0x80]]"

definition white_prefix :: "string list \<Rightarrow> string \<Rightarrow> string option" where
  "white_prefix ws s = List.find (\<lambda>p. p \<noteq> [] \<and> take (length p) s = p) ws"

function strip_prefixes :: "string list \<Rightarrow> string \<Rightarrow> string" where
  "strip_prefixes ws s =
     (case white_prefix ws s of None \<Rightarrow> s | Some p \<Rightarrow> strip_prefixes ws (drop (length p) s))"
  by pat_completeness auto

termination
proof (relation "measure (\<lambda>(_, s). length s)")
  fix ws s p
  assume "white_prefix ws s = Some p"
  then have "p \<noteq> []" "take (length p) s = p" by (auto simp: white_prefix_def find_Some_iff)
  then have "0 < length p" "s \<noteq> []" by auto
  then show "((ws, drop (length p) s), (ws, s)) \<in> measure (\<lambda>(_, s). length s)" by simp
qed simp

declare strip_prefixes.simps [simp del]

definition trim_str :: "string \<Rightarrow> string" where
  "trim_str s = rev (strip_prefixes (map rev white_space) (rev (strip_prefixes white_space s)))"

definition key_of :: "trust_task_doc \<Rightarrow> string option" where
  "key_of doc =
     (case tt_idempotency_key doc of
        None \<Rightarrow> None
      | Some raw \<Rightarrow>
          let trimmed = trim_str raw in
          if trimmed = [] \<or> length trimmed > 255 then None else Some trimmed)"

definition payload_hash :: "idem_env \<Rightarrow> trust_task_doc \<Rightarrow> bytes" where
  "payload_hash env doc = ie_sha env (tt_type_uri doc @ [CHR 0x00] @ tt_payload doc)"

definition retain_until :: "idem_env \<Rightarrow> trust_task_doc \<Rightarrow> instant \<Rightarrow> instant option" where
  "retain_until env doc now =
     (case ie_record_expiry env doc now of
        None \<Rightarrow> None
      | Some end_at \<Rightarrow>
          Some (case tt_expires_at doc of
                  Some expires_at \<Rightarrow> if end_at = expires_at then expires_at + ie_skew env else end_at
                | None \<Rightarrow> end_at))"

text \<open>The answers given instead of running the task: a rejection, with the reasons the code gives, or
  the recorded response.\<close>

datatype keyed_answer =
    AUnavailable instant | AOutcomeUnknown instant | AKeyReused | ANotReplayable instant | AUnusableStatus
  | AReplay task_outcome

datatype key_claim = Proceed string retry_safety | Answer keyed_answer | Skip

definition status_valid :: "u16 \<Rightarrow> bool" where
  "status_valid s \<longleftrightarrow> 100 \<le> s \<and> s < 1000"

definition is_success :: "u16 \<Rightarrow> bool" where
  "is_success s \<longleftrightarrow> 200 \<le> s \<and> s < 300"

definition replay :: "cache_entry \<Rightarrow> keyed_answer" where
  "replay e =
     (if \<not> has_replayable_response e then ANotReplayable (ce_created_at e)
      else if \<not> status_valid (ce_response_status e) then AUnusableStatus
      else AReplay \<lparr>to_status = ce_response_status e, to_body = ce_response_body e, to_restart = False\<rparr>)"

definition safety_of :: "idem_env \<Rightarrow> trust_task_doc \<Rightarrow> retry_safety" where
  "safety_of env doc =
     (case retry_safety_of (ie_retry_safety env) (tt_type_uri doc) of Some s \<Rightarrow> s | None \<Rightarrow> Keyed)"

definition answer_claim ::
    "string \<Rightarrow> retry_safety \<Rightarrow> (app_error, claim_outcome) result \<Rightarrow> (idem_row, 'e, key_claim) prog" where
  "answer_claim key safety res =
     (case res of
        Err _ \<Rightarrow> Now (\<lambda>now. Ret (Answer (AUnavailable (uint now + IN_FLIGHT_RETRY_AFTER_SECS))))
      | Ok OClaimed \<Rightarrow> Ret (Proceed key safety)
      | Ok OInFlight \<Rightarrow> Now (\<lambda>now. Ret (Answer (AUnavailable (uint now + IN_FLIGHT_RETRY_AFTER_SECS))))
      | Ok (OAbandoned claimed_at) \<Rightarrow> Ret (Answer (AOutcomeUnknown claimed_at))
      | Ok OConflict \<Rightarrow> Ret (Answer AKeyReused)
      | Ok (OCompleted e) \<Rightarrow> Ret (Answer (replay e)))"

definition claim_key :: "idem_env \<Rightarrow> string \<Rightarrow> trust_task_doc \<Rightarrow> (idem_row, 'e, key_claim) prog" where
  "claim_key env actor doc =
     (case key_of doc of
        None \<Rightarrow> Ret Skip
      | Some key \<Rightarrow>
          let safety = safety_of env doc in
          if \<not> needs_key safety then Ret Skip
          else
            Now (\<lambda>now.
              bnd (claim_retained (principal_hash (ie_sha env) (Did actor)) key (payload_hash env doc) CLASS
                     (IN_FLIGHT_GRACE_MINS * 60) (retain_until env doc (uint now)))
                (answer_claim key safety)))"

definition record_outcome ::
    "idem_env \<Rightarrow> string \<Rightarrow> string \<Rightarrow> retry_safety \<Rightarrow> task_outcome \<Rightarrow> (idem_row, 'e, unit) prog" where
  "record_outcome env actor key safety outcome =
     (let ph = principal_hash (ie_sha env) (Did actor) in
      if \<not> is_success (to_status outcome) then bnd (idem_release ph key) (\<lambda>_. Ret ())
      else
        let too_large = length (to_body outcome) > MAX_CACHED_BODY;
            response =
              (if response_is_replayable safety \<and> \<not> too_large
               then Some \<lparr>cr_status = to_status outcome, cr_headers = [], cr_body = to_body outcome\<rparr>
               else None)
        in bnd (idem_complete ph key response) (\<lambda>_. Ret ()))"

text \<open>The end of the dispatcher.  \<open>performed\<close> is what the policy gate and the task's handler answer
  to this attempt; that they ran is logged.\<close>

datatype idem_event = Performed trust_task_doc task_outcome

datatype dispatched = Dispatched task_outcome | Answered keyed_answer

definition dispatch_keyed ::
    "idem_env \<Rightarrow> string \<Rightarrow> trust_task_doc \<Rightarrow> task_outcome \<Rightarrow> (idem_row, idem_event, dispatched) prog" where
  "dispatch_keyed env actor doc performed =
     bnd (claim_key env actor doc) (\<lambda>c.
       (case c of
          Answer a \<Rightarrow> Ret (Answered a)
        | Skip \<Rightarrow> Emit (Performed doc performed) (Ret (Dispatched performed))
        | Proceed key safety \<Rightarrow>
            Emit (Performed doc performed)
              (bnd (record_outcome env actor key safety performed) (\<lambda>_. Ret (Dispatched performed)))))"

section \<open>Claims race for their record\<close>

text \<open>A record that holds its key up to the instant \<open>H\<close>.\<close>

definition held_past :: "u64 \<Rightarrow> idem_row \<Rightarrow> bool" where
  "held_past H row = (case row of IdemRow e \<Rightarrow> uint H < ce_expires_at e | IdemMalformed _ \<Rightarrow> False)"

lemma held_past_simps [simp]:
  "held_past H (IdemRow e) \<longleftrightarrow> uint H < ce_expires_at e" "\<not> held_past H (IdemMalformed b)"
  by (simp_all add: held_past_def)

lemma repeat_outcome_not_claimed [simp]: "repeat_outcome now grace e \<noteq> OClaimed"
  by (simp add: repeat_outcome_def)

lemma races_replace_row:
  "races N sk live succ S ok (ApplyBatch (replace_row sk raw e) c) \<longleftrightarrow>
     (\<forall>x. x \<noteq> Ok Applied \<longrightarrow> races N sk live succ S ok (c x)) \<and> (live raw \<longrightarrow> live (IdemRow e)) \<and>
     (races N sk live succ S ok (c (Ok Applied)) \<or>
      \<not> live raw \<and> live (IdemRow e) \<and> c (Ok Applied) \<in> S)"
  by (simp add: replace_row_def)

lemma claim_loop_races:
  assumes "now \<le> uint H" and "uint H < ce_expires_at pending"
  shows "races N sk (held_past H) succ {Ret (Ok OClaimed)} (\<lambda>r. r \<noteq> Ok OClaimed)
    (claim_loop n sk pending now grace until)"
proof (induction n)
  case (Suc n)
  have reclaim: "\<not> held_past H raw" if "from_idem_row raw = Ok e" "is_expired e now" for raw e
    using that assms(1) by (auto simp: from_idem_row_def is_expired_def split: idem_row.splits)
  have extend: "held_past H raw \<Longrightarrow> held_past H (IdemRow (e\<lparr>ce_expires_at := u\<rparr>))"
    if "from_idem_row raw = Ok e" "ce_expires_at e < u" for raw e u
    using that by (auto simp: from_idem_row_def split: idem_row.splits)
  show ?case using Suc assms(2) reclaim extend
    by (auto simp: races_replace_row is_applied_def Let_def simp del: races.simps(8)
        split: option.splits sum.splits)
qed simp

lemma completed_entry_expires [simp]: "ce_expires_at (completed_entry response e) = ce_expires_at e"
  by (cases response) simp_all

lemma complete_loop_settles: "settled N sk (held_past H) succ (complete_loop n sk response)"
proof (induction n)
  case (Suc n)
  then show ?case
    by (auto simp: settled_def races_replace_row from_idem_row_def is_applied_def
        simp del: races.simps(8) split: option.splits sum.splits idem_row.splits)
qed (simp add: settled_def)

lemma settled_bnd: "settled N T live succ p \<Longrightarrow> (\<And>r. settled N T live succ (f r)) \<Longrightarrow> settled N T live succ (bnd p f)"
  unfolding settled_def by (erule races_bnd) auto

section \<open>A keyed task takes effect at most once\<close>

definition performed_ok :: "idem_event \<Rightarrow> bool" where
  "performed_ok ev = (case ev of Performed doc outcome \<Rightarrow> is_success (to_status outcome))"

text \<open>A record made for this document between \<open>lo\<close> and \<open>H\<close> outlasts \<open>H\<close>: either less than the
  class lifetime passes, or the document is acceptable beyond \<open>H\<close>.\<close>

definition retained :: "idem_env \<Rightarrow> trust_task_doc \<Rightarrow> u64 \<Rightarrow> u64 \<Rightarrow> bool" where
  "retained env doc lo H \<longleftrightarrow>
     uint H < uint lo + 86400 \<or>
     (\<forall>t. lo \<le> t \<and> t \<le> H \<longrightarrow>
        (case retain_until env doc (uint t) of None \<Rightarrow> False | Some until \<Rightarrow> uint H < until))"

lemma retained_pending:
  assumes "retained env doc lo H" and "lo \<le> t" and "t \<le> H" and "lo \<le> t'"
  shows "uint H < (case retain_until env doc (uint t) of
      None \<Rightarrow> uint t' + uint (ttl_seconds CLASS)
    | Some until \<Rightarrow> max until (uint t' + uint (ttl_seconds CLASS)))"
proof -
  have "uint lo \<le> uint t'" using assms(4) by (simp add: word_le_def)
  moreover have "uint (ttl_seconds CLASS) = 86400" by (simp add: CLASS_def)
  ultimately show ?thesis using assms(1-3) by (auto simp: retained_def split: option.splits)
qed

declare principal_hash.simps [simp del]

abbreviation actor_key :: "idem_env \<Rightarrow> string \<Rightarrow> string \<Rightarrow> string" where
  "actor_key env actor key \<equiv> idem_storage_key (principal_hash (ie_sha env) (Did actor)) key"

lemma recorded_holding:
  "holding N (actor_key env actor key) (held_past H) performed_ok
     (Emit (Performed doc out) (bnd (record_outcome env actor key safety out) (\<lambda>_. Ret d)))"
proof (cases "is_success (to_status out)")
  case True
  have "settled N (actor_key env actor key) (held_past H) performed_ok
      (bnd (record_outcome env actor key safety out) (\<lambda>_. Ret d))"
    using True unfolding record_outcome_def Let_def idem_complete_def
    by (simp add: bnd_assoc) (intro conjI impI settled_bnd complete_loop_settles; simp add: settled_def)
  then show ?thesis using True by (simp add: holding_def performed_ok_def)
next
  case False
  then show ?thesis
    by (simp add: holding_def performed_ok_def record_outcome_def idem_release_def releasing_def Let_def
        settled_def split: sum.splits)
qed

lemma dispatch_contends:
  assumes "key_of doc = Some key" and "needs_key (safety_of env doc)" and "retained env doc lo H"
  shows "contends {lo..H} (actor_key env actor key) (held_past H) performed_ok
    (dispatch_keyed env actor doc out)"
proof -
  let ?K = "\<lambda>c. case c of Answer a \<Rightarrow> Ret (Answered a)
        | Skip \<Rightarrow> Emit (Performed doc out) (Ret (Dispatched out))
        | Proceed key safety \<Rightarrow> Emit (Performed doc out)
              (bnd (record_outcome env actor key safety out) (\<lambda>_. Ret (Dispatched out)))"
  have other: "contends {lo..H} (actor_key env actor key) (held_past H) performed_ok
      (bnd (answer_claim key (safety_of env doc) r) ?K)" if "r \<noteq> Ok OClaimed" for r
    using that by (auto simp: answer_claim_def split: sum.splits claim_outcome.splits)
  have won: "holding {lo..H} (actor_key env actor key) (held_past H) performed_ok
      (bnd (answer_claim key (safety_of env doc) (Ok OClaimed)) ?K)"
    by (simp add: answer_claim_def recorded_holding)
  have "contends {lo..H} (actor_key env actor key) (held_past H) performed_ok
      (bnd (claim_retained (principal_hash (ie_sha env) (Did actor)) key h CLASS g
         (retain_until env doc (uint t))) (\<lambda>r. bnd (answer_claim key (safety_of env doc) r) ?K))"
    if "lo \<le> t" "t \<le> H" for t h g
    unfolding claim_retained_def Let_def bnd.simps races.simps
    using that retained_pending [OF assms(3) that] other won
    by (intro ballI races_bnd [OF claim_loop_races]) (auto simp: word_le_def)
  then show ?thesis using assms(1,2)
    by (simp add: dispatch_keyed_def claim_key_def Let_def bnd_assoc)
qed

text \<open>C9: A keyed task takes effect at most once: of any number of requests of one actor under one
  idempotency key, whatever their payloads, dispatched concurrently under every interleaving of their
  store operations and with time passing, at most one handler run succeeds, as long as each document's
  record outlasts the execution.  A run that fails gives its key back and is not counted.  The key's
  record may be absent, expired or unreadable at the start.\<close>

theorem keyed_task_effective_once:
  assumes "\<forall>(doc, out) \<in> set reqs.
      key_of doc = Some key \<and> needs_key (safety_of env doc) \<and> retained env doc (w_now w) (w_now w')"
    and "reach (map (\<lambda>(doc, out). dispatch_keyed env actor doc out) reqs, w) (ps, w')"
    and "w_log w = []"
  shows "length (filter performed_ok (w_log w')) \<le> 1"
proof -
  have "contends {w_now w..w_now w'} (actor_key env actor key) (held_past (w_now w')) performed_ok p"
    if "p \<in> set (map (\<lambda>(doc, out). dispatch_keyed env actor doc out) reqs)" for p
    using that assms(1) by (auto intro!: dispatch_contends)
  from one_success [OF assms(2) this] show ?thesis using assms(3) by (simp add: successes_def)
qed

section \<open>A retry is answered from the record\<close>

lemma write_attempts: "WRITE_ATTEMPTS = Suc 63"
  by (simp add: WRITE_ATTEMPTS_def)

lemma run_claim_absent:
  assumes "get_raw (w_ks w) sk = None"
  shows "run (claim_loop (Suc n) sk pending now grace until) w =
    (Ok OClaimed, w\<lparr>w_ks := insert_raw sk (IdemRow pending) (w_ks w)\<rparr>)"
  using assms by (simp add: insert_if_absent_def)

lemma apply_replace_row:
  "apply_batch (replace_row sk raw e) ks =
     (if get_raw ks sk = Some raw then (Ok Applied, insert_raw sk (IdemRow e) ks) else (Ok (Refused 0), ks))"
  by (rule apply_conditional_put) (simp_all add: replace_row_def)

text \<open>What a repeat finds: the record, its expiry extended to this document's acceptance end.\<close>

definition extended :: "instant option \<Rightarrow> cache_entry \<Rightarrow> cache_entry" where
  "extended until e =
     (case until of None \<Rightarrow> e | Some u \<Rightarrow> e\<lparr>ce_expires_at := max (ce_expires_at e) u\<rparr>)"

lemma run_claim_repeat:
  assumes "get_raw (w_ks w) sk = Some (IdemRow e)" and "\<not> is_expired e now"
    and "ce_request_hash e = ce_request_hash pending"
  shows "fst (run (claim_loop (Suc n) sk pending now grace until) w) =
      Ok (repeat_outcome now grace (extended until e)) \<and>
    get_raw (w_ks (snd (run (claim_loop (Suc n) sk pending now grace until) w))) sk =
      Some (IdemRow (extended until e)) \<and>
    w_log (snd (run (claim_loop (Suc n) sk pending now grace until) w)) = w_log w"
proof (cases "\<exists>u. until = Some u \<and> u > ce_expires_at e")
  case True
  then obtain u where "until = Some u" "u > ce_expires_at e" by blast
  then show ?thesis using assms
    by (simp add: insert_if_absent_def from_idem_row_def Let_def apply_replace_row is_applied_def
        extended_def max_def local_store.get_put)
next
  case False
  then have "extended until e = e" by (auto simp: extended_def max_def split: option.splits)
  then show ?thesis using assms False
    by (auto simp: insert_if_absent_def from_idem_row_def split: option.splits)
qed

lemma run_complete_in_flight:
  assumes "get_raw (w_ks w) sk = Some (IdemRow e)" and "is_in_flight e"
  shows "run (complete_loop (Suc n) sk response) w =
    (Ok (), w\<lparr>w_ks := insert_raw sk (IdemRow (completed_entry response e)) (w_ks w)\<rparr>)"
  using assms by (simp add: from_idem_row_def apply_replace_row is_applied_def)

lemmas run_write_attempts =
  run_claim_absent [where n = 63, folded write_attempts]
  run_claim_repeat [where n = 63, folded write_attempts]
  run_complete_in_flight [where n = 63, folded write_attempts]

text \<open>The record a claim leaves, and the record of its success.\<close>

definition pending_entry :: "idem_env \<Rightarrow> trust_task_doc \<Rightarrow> string \<Rightarrow> u64 \<Rightarrow> cache_entry" where
  "pending_entry env doc key t =
     \<lparr>ce_state = InFlight, ce_idempotency_key = key, ce_request_hash = payload_hash env doc,
      ce_response_status = 0, ce_response_headers = [], ce_response_body = [],
      ce_class = CLASS, ce_created_at = uint t,
      ce_expires_at = (case retain_until env doc (uint t) of
          None \<Rightarrow> uint t + uint (ttl_seconds CLASS)
        | Some until \<Rightarrow> max until (uint t + uint (ttl_seconds CLASS)))\<rparr>"

definition kept_response :: "retry_safety \<Rightarrow> task_outcome \<Rightarrow> completed_response option" where
  "kept_response safety out =
     (if response_is_replayable safety \<and> length (to_body out) \<le> MAX_CACHED_BODY
      then Some \<lparr>cr_status = to_status out, cr_headers = [], cr_body = to_body out\<rparr> else None)"

text \<open>A keyed request that finds no record runs its handler; a success leaves a completed record, a
  failure leaves none.\<close>

lemma first_attempt_performed:
  assumes "key_of doc = Some key" and "needs_key (safety_of env doc)"
    and "get_raw (w_ks w) (actor_key env actor key) = None"
  shows "fst (run (dispatch_keyed env actor doc out) w) = Dispatched out"
    and "w_log (snd (run (dispatch_keyed env actor doc out) w)) = w_log w @ [Performed doc out]"
    and "get_raw (w_ks (snd (run (dispatch_keyed env actor doc out) w))) (actor_key env actor key) =
      (if is_success (to_status out)
       then Some (IdemRow (completed_entry (kept_response (safety_of env doc) out)
              (pending_entry env doc key (w_now w))))
       else None)"
  using assms
  by (simp_all add: dispatch_keyed_def claim_key_def Let_def claim_retained_def run_bnd
      run_write_attempts answer_claim_def record_outcome_def idem_complete_def idem_release_def
      is_in_flight_def local_store.get_put local_store.get_del kept_response_def
      not_le pending_entry_def apply_batch_def batch_validate_def
      del: claim_loop.simps complete_loop.simps)

text \<open>A repeat of a request whose success is on record is answered with the recorded response, and
  its handler does not run.\<close>

lemma retry_answered_from_record:
  assumes "key_of doc = Some key" and "needs_key (safety_of env doc)"
    and "get_raw (w_ks w) (actor_key env actor key) = Some (IdemRow e)"
    and "\<not> is_expired e (uint (w_now w))" and "ce_request_hash e = payload_hash env doc"
    and "\<not> is_in_flight e"
  shows "fst (run (dispatch_keyed env actor doc out) w) = Answered (replay e)"
    and "w_log (snd (run (dispatch_keyed env actor doc out) w)) = w_log w"
proof -
  have "replay (extended until e) = replay e" "repeat_outcome now g (extended until e) = OCompleted (extended until e)"
    for until now g
    using assms(6)
    by (auto simp: replay_def extended_def has_replayable_response_def repeat_outcome_def is_in_flight_def
        split: option.splits)
  then show "fst (run (dispatch_keyed env actor doc out) w) = Answered (replay e)"
    and "w_log (snd (run (dispatch_keyed env actor doc out) w)) = w_log w"
    using assms(1-5)
    by (simp_all add: dispatch_keyed_def claim_key_def Let_def claim_retained_def run_bnd
        run_write_attempts answer_claim_def)
qed

text \<open>A program of a pool may run to its end while the others wait.\<close>

lemma run_alone_extend:
  assumes "i < length ps"
    and "reach (ps[i := fst (step1 p w)], snd (step1 p w))
      (ps[i := Ret (fst (run (fst (step1 p w)) (snd (step1 p w))))],
       snd (run (fst (step1 p w)) (snd (step1 p w))))"
  shows "reach (ps[i := p], w) (ps[i := Ret (fst (run p w))], snd (run p w))"
proof -
  have "pstep (ps[i := p], w) ((ps[i := p])[i := fst (step1 p w)], snd (step1 p w))"
    using assms(1) by (intro pstep_thread) simp_all
  then have "reach (ps[i := p], w) (ps[i := fst (step1 p w)], snd (step1 p w))"
    by (auto intro: reach.intros)
  from reach_trans [OF assms(2) this] show ?thesis unfolding step1_run [of p w] .
qed

lemma run_alone_reach:
  "i < length ps \<Longrightarrow> reach (ps[i := p], w) (ps[i := Ret (fst (run p w))], snd (run p w))"
proof (induction p arbitrary: w)
  case (Ret r)
  then show ?case by (simp add: reach_refl)
qed (rule run_alone_extend, assumption, simp)+

definition example_idem_env :: idem_env where
  "example_idem_env =
     \<lparr>ie_sha = (\<lambda>s. if s = [] then [] else [1]),
      ie_retry_safety = [(''auth/refresh'', Keyed)],
      ie_record_expiry = (\<lambda>doc now. Some (now + 660)), ie_skew = 60\<rparr>"

definition example_task :: trust_task_doc where
  "example_task =
     \<lparr>tt_type_uri = ''auth/refresh'', tt_idempotency_key = Some '' op-1 '', tt_payload = ''{}'',
      tt_expires_at = None\<rparr>"

definition example_outcome :: task_outcome where
  "example_outcome = \<lparr>to_status = 200, to_body = ''done'', to_restart = False\<rparr>"

definition example_idem_world :: "idem_event idem_world" where
  "example_idem_world =
     \<lparr>w_ks = [], w_now = 1000, w_supply = (\<lambda>_. []), w_drawn = 0, w_seq = 0, w_log = []\<rparr>"

definition example_requests :: "(trust_task_doc \<times> task_outcome) list" where
  "example_requests = [(example_task, example_outcome), (example_task, example_outcome)]"

abbreviation example_dispatches :: "(idem_row, idem_event, dispatched) prog list" where
  "example_dispatches \<equiv>
     map (\<lambda>(doc, out). dispatch_keyed example_idem_env ''did:key:z1'' doc out) example_requests"

lemma example_task_key:
  "key_of example_task = Some ''op-1''" "safety_of example_idem_env example_task = Keyed"
  by code_simp+

declare run_now [simp]

text \<open>The first request runs to its end, then the second.\<close>

lemma example_keyed_pool:
  "\<exists>w'. reach (example_dispatches, example_idem_world)
       ([Ret (Dispatched example_outcome), Ret (Answered (AReplay example_outcome))], w') \<and>
     w_now w' = 1000 \<and> w_log w' = [Performed example_task example_outcome]"
proof -
  let ?p = "dispatch_keyed example_idem_env ''did:key:z1'' example_task example_outcome"
  let ?e = "completed_entry (kept_response Keyed example_outcome)
      (pending_entry example_idem_env example_task ''op-1'' 1000)"
  define w1 where "w1 = snd (run ?p example_idem_world)"
  have now: "w_now w1 = 1000" by (simp add: w1_def example_idem_world_def)
  have needs: "needs_key (safety_of example_idem_env example_task)" by (simp add: example_task_key needs_key_def)
  have "get_raw (w_ks example_idem_world) k = None" for k by (simp add: example_idem_world_def get_raw_def)
  note first = first_attempt_performed [OF example_task_key(1) needs this, where actor = "''did:key:z1''"
      and out = example_outcome, folded w1_def]
  have ok: "is_success (to_status example_outcome)" by code_simp
  have start: "w_now example_idem_world = 1000" by (simp add: example_idem_world_def)
  have row: "get_raw (w_ks w1) (actor_key example_idem_env ''did:key:z1'' ''op-1'') = Some (IdemRow ?e)"
    using first(3) ok start by (simp only: example_task_key if_True)
  have e: "\<not> is_expired ?e (uint (w_now w1))" "ce_request_hash ?e = payload_hash example_idem_env example_task"
    "\<not> is_in_flight ?e" "replay ?e = AReplay example_outcome"
    by (simp_all add: now kept_response_def response_is_replayable_def example_outcome_def MAX_CACHED_BODY_def
        pending_entry_def is_expired_def is_in_flight_def replay_def has_replayable_response_def
        status_valid_def CLASS_def split: option.splits)
  note second = retry_answered_from_record [OF example_task_key(1) needs row e(1-3), where out = example_outcome]
  have "reach ([?p, ?p], example_idem_world) ([Ret (Dispatched example_outcome), ?p], w1)"
    using run_alone_reach [of 0 "[?p, ?p]" ?p example_idem_world] first(1) by (simp add: w1_def)
  moreover have "reach ([Ret (Dispatched example_outcome), ?p], w1)
      ([Ret (Dispatched example_outcome), Ret (Answered (AReplay example_outcome))], snd (run ?p w1))"
    using run_alone_reach [of 1 "[Ret (Dispatched example_outcome), ?p]" ?p w1] second(1) e(4) by simp
  ultimately have "reach (example_dispatches, example_idem_world)
      ([Ret (Dispatched example_outcome), Ret (Answered (AReplay example_outcome))], snd (run ?p w1))"
    by (simp add: example_requests_def) (rule reach_trans)
  then show ?thesis using second(2) first(2) now
    by (intro exI [of _ "snd (run ?p w1)"]) (simp add: example_idem_world_def)
qed

theorem keyed_task_effective_once_witness:
  "\<exists>ps w'. reach (example_dispatches, example_idem_world) (ps, w') \<and> w_log w' \<noteq> [] \<and>
     length (filter performed_ok (w_log w')) \<le> 1"
proof -
  obtain ps w' where r: "reach (example_dispatches, example_idem_world) (ps, w')"
    and fin: "w_now w' = 1000" "w_log w' \<noteq> []"
    using example_keyed_pool by fastforce
  have "retained example_idem_env example_task (w_now example_idem_world) (w_now w')"
    by (simp add: retained_def fin(1) example_idem_world_def)
  then have "\<forall>(doc, out) \<in> set example_requests. key_of doc = Some ''op-1'' \<and>
      needs_key (safety_of example_idem_env doc) \<and>
      retained example_idem_env doc (w_now example_idem_world) (w_now w')"
    by (simp add: example_requests_def example_task_key needs_key_def)
  from keyed_task_effective_once [OF this r] have "length (filter performed_ok (w_log w')) \<le> 1"
    by (simp add: example_idem_world_def)
  with fin(2) r show ?thesis by blast
qed

end
