(* ===== verification/Idempotency_Http.thy ===== *)
theory Idempotency_Http
  imports Idempotency
begin

text \<open>
  The HTTP layer of \<open>vti-common/src/idempotency/middleware.rs\<close>: a request carrying an
  \<open>Idempotency-Key\<close> is answered from the cache where the key's record matches, and otherwise runs
  and leaves a record.  A header map is the list of its name and value pairs in iteration order; a
  value that is not visible ASCII is \<open>None\<close>.  The framework's tests of header names and values are
  arguments.
\<close>

section \<open>The middleware\<close>

text \<open>What the layer reads of a request.  The body is \<open>None\<close> when it exceeds the buffer limit.\<close>

record http_request =
  hr_key :: "string option"
  hr_authorization :: "string option"
  hr_peer_ip :: "string option"
  hr_body :: "string option"

record http_response =
  hs_status :: u16
  hs_headers :: "(string \<times> string option) list"
  hs_body :: string

definition principal_from_request :: "http_request \<Rightarrow> principal" where
  "principal_from_request req =
     (case hr_authorization req of
        Some auth \<Rightarrow> AuthToken auth
      | None \<Rightarrow> (case hr_peer_ip req of Some ip \<Rightarrow> Ip ip | None \<Rightarrow> Anonymous))"

definition is_control :: "char \<Rightarrow> bool" where
  "is_control c \<longleftrightarrow> of_char c < (32 :: nat) \<or> of_char c = (127 :: nat)"

definition key_disallowed :: "string \<Rightarrow> bool" where
  "key_disallowed key \<longleftrightarrow>
     (\<exists>c \<in> set key. is_control c \<or> c = CHR '':'' \<or> c = CHR 0x0A \<or> c = CHR 0x0D)"

definition capture_headers :: "(string \<times> string option) list \<Rightarrow> (string \<times> string) list" where
  "capture_headers hs = List.map_filter (\<lambda>(k, v). map_option (Pair k) v) hs"

text \<open>\<open>HeaderMap::insert\<close> replaces every value the name has.\<close>

definition header_insert ::
    "string \<Rightarrow> string \<Rightarrow> (string \<times> string option) list \<Rightarrow> (string \<times> string option) list" where
  "header_insert name value hs = filter (\<lambda>(k, _). k \<noteq> name) hs @ [(name, Some value)]"

primrec rebuild_headers ::
    "(string \<Rightarrow> bool) \<Rightarrow> (string \<Rightarrow> bool) \<Rightarrow> (string \<times> string) list \<Rightarrow> (string \<times> string option) list \<Rightarrow>
     (app_error, (string \<times> string option) list) result" where
  "rebuild_headers valid_name valid_value [] acc = Ok acc"
| "rebuild_headers valid_name valid_value (h # hs) acc =
     (if \<not> valid_name (fst h) then Err Internal
      else if \<not> valid_value (snd h) then Err Internal
      else rebuild_headers valid_name valid_value hs (header_insert (fst h) (snd h) acc))"

definition rebuild_response ::
    "(string \<Rightarrow> bool) \<Rightarrow> (string \<Rightarrow> bool) \<Rightarrow> cache_entry \<Rightarrow> (app_error, http_response) result" where
  "rebuild_response valid_name valid_value e =
     (if \<not> status_valid (ce_response_status e) then Err Internal
      else
        res_bind (rebuild_headers valid_name valid_value (ce_response_headers e) []) (\<lambda>hs.
          Ok \<lparr>hs_status = ce_response_status e, hs_headers = hs, hs_body = ce_response_body e\<rparr>))"

text \<open>The layer around one handler.  \<open>served\<close> is what the handler answers to this request, and
  \<open>buffered\<close> whether its body fits the buffer.  That the handler ran is logged.\<close>

datatype http_event = Handled http_request

definition idempotency_run ::
    "(string \<Rightarrow> bytes) \<Rightarrow> (string \<Rightarrow> bool) \<Rightarrow> (string \<Rightarrow> bool) \<Rightarrow> idempotency_class \<Rightarrow> http_request \<Rightarrow>
     http_response \<Rightarrow> bool \<Rightarrow> (idem_row, http_event, (app_error, http_response) result) prog" where
  "idempotency_run sha valid_name valid_value cls req served buffered =
     (case hr_key req of
        None \<Rightarrow> Emit (Handled req) (Ret (Ok served))
      | Some key \<Rightarrow>
          if key = [] then Emit (Handled req) (Ret (Ok served))
          else if key_disallowed key then Ret (Err Validation)
          else
            let ph = principal_hash sha (principal_from_request req) in
            (case hr_body req of
               None \<Rightarrow> Ret (Err Validation)
             | Some body \<Rightarrow>
                 let request_hash = sha body in
                 bndE (idem_get ph key) (\<lambda>found.
                   (case found of
                      Some existing \<Rightarrow>
                        if ce_request_hash existing = request_hash
                        then Ret (rebuild_response valid_name valid_value existing)
                        else Ret (Err IdempotencyKeyConflict)
                    | None \<Rightarrow>
                        Emit (Handled req)
                          (if \<not> buffered then Ret (Ok (served\<lparr>hs_body := []\<rparr>))
                           else
                             Now (\<lambda>now.
                               bnd (idem_put ph
                                     \<lparr>ce_state = Completed, ce_idempotency_key = key,
                                      ce_request_hash = request_hash,
                                      ce_response_status = hs_status served,
                                      ce_response_headers = capture_headers (hs_headers served),
                                      ce_response_body = hs_body served, ce_class = cls,
                                      ce_created_at = uint now,
                                      ce_expires_at = uint now + uint (ttl_seconds cls)\<rparr>)
                                 (\<lambda>_. Ret (Ok served))))))))"

section \<open>Replaying a response\<close>

lemma capture_rebuild:
  assumes "distinct (map fst hs @ map fst acc)" and "\<forall>(k, v) \<in> set hs. v \<noteq> None"
    and "\<forall>(k, v) \<in> set hs. valid_name k \<and> (\<forall>x. v = Some x \<longrightarrow> valid_value x)"
  shows "rebuild_headers valid_name valid_value (capture_headers hs) acc = Ok (acc @ hs)"
  using assms
proof (induction hs arbitrary: acc)
  case Nil
  then show ?case by (simp add: capture_headers_def map_filter_simps)
next
  case (Cons h hs)
  obtain k x where h: "h = (k, Some x)" using Cons.prems(2) by (cases h) auto
  have "filter (\<lambda>(k', _). k' \<noteq> k) acc = acc"
    using Cons.prems(1) h by (auto simp: filter_id_conv rev_image_eqI)
  then have "header_insert k x acc = acc @ [(k, Some x)]" by (simp add: header_insert_def)
  moreover have "rebuild_headers valid_name valid_value (capture_headers hs) (acc @ [(k, Some x)]) =
      Ok ((acc @ [(k, Some x)]) @ hs)"
    using Cons.prems h by (intro Cons.IH) auto
  ultimately show ?case using Cons.prems(3) h
    by (simp add: capture_headers_def map_filter_simps)
qed

text \<open>A response whose header names are distinct and whose values are text is replayed exactly; a
  repeat with another body is refused.  Either way the handler does not run again.\<close>

lemma repeat_answered:
  assumes "hr_key req = Some key" and "key \<noteq> []" and "\<not> key_disallowed key" and "hr_body req = Some body"
    and "get_raw (w_ks w) (idem_storage_key (principal_hash sha (principal_from_request req)) key) =
      Some (IdemRow e)"
    and "\<not> is_expired e (uint (w_now w))"
  shows "run (idempotency_run sha valid_name valid_value cls req served buffered) w =
    (if ce_request_hash e = sha body then rebuild_response valid_name valid_value e
     else Err IdempotencyKeyConflict, w)"
  using assms
  by (simp add: idempotency_run_def Let_def idem_get_def from_idem_row_def)

lemma first_request_cached:
  assumes "hr_key req = Some key" and "key \<noteq> []" and "\<not> key_disallowed key" and "hr_body req = Some body"
    and "get_raw (w_ks w) (idem_storage_key (principal_hash sha (principal_from_request req)) key) = None"
  obtains e where "run (idempotency_run sha valid_name valid_value cls req served True) w =
      (Ok served, w\<lparr>w_ks := insert_raw (idem_storage_key (principal_hash sha (principal_from_request req)) key)
                     (IdemRow e) (w_ks w), w_log := w_log w @ [Handled req]\<rparr>)"
    and "ce_request_hash e = sha body" and "ce_expires_at e = uint (w_now w) + uint (ttl_seconds cls)"
    and "ce_response_status e = hs_status served" and "ce_response_body e = hs_body served"
    and "ce_response_headers e = capture_headers (hs_headers served)"
proof -
  let ?e = "\<lparr>ce_state = Completed, ce_idempotency_key = key, ce_request_hash = sha body,
      ce_response_status = hs_status served, ce_response_headers = capture_headers (hs_headers served),
      ce_response_body = hs_body served, ce_class = cls, ce_created_at = uint (w_now w),
      ce_expires_at = uint (w_now w) + uint (ttl_seconds cls)\<rparr>"
  have "run (idempotency_run sha valid_name valid_value cls req served True) w =
      (Ok served, w\<lparr>w_ks := insert_raw (idem_storage_key (principal_hash sha (principal_from_request req)) key)
                     (IdemRow ?e) (w_ks w), w_log := w_log w @ [Handled req]\<rparr>)"
    using assms by (simp add: idempotency_run_def Let_def idem_get_def idem_put_def)
  then show thesis by (rule that) simp_all
qed

lemma response_round_trip:
  assumes "ce_response_status e = hs_status served" and "ce_response_body e = hs_body served"
    and "ce_response_headers e = capture_headers (hs_headers served)" and "status_valid (hs_status served)"
    and "distinct (map fst (hs_headers served))"
    and "\<forall>(k, v) \<in> set (hs_headers served). \<exists>x. v = Some x \<and> valid_name k \<and> valid_value x"
  shows "rebuild_response valid_name valid_value e = Ok served"
proof -
  have "rebuild_headers valid_name valid_value (capture_headers (hs_headers served)) [] =
      Ok ([] @ hs_headers served)"
    using assms(5,6) by (intro capture_rebuild) fastforce+
  then show ?thesis using assms(1-4) by (simp add: rebuild_response_def res_bind_def)
qed

text \<open>A response with two values for one header is not replayed as it was: the replay keeps only the
  last of them.\<close>

lemma repeated_header_lost:
  "rebuild_headers (\<lambda>_. True) (\<lambda>_. True)
     (capture_headers [(''set-cookie'', Some ''a=1''), (''set-cookie'', Some ''b=2'')]) [] =
   Ok [(''set-cookie'', Some ''b=2'')]"
  by (simp add: capture_headers_def map_filter_simps header_insert_def)

end
