(* ===== verification/Merkle.thy ===== *)
theory Merkle
  imports VTI_Prelude "HOL-Library.List_Lexorder" "HOL-Library.Char_ord"
begin

text \<open>
  A data room's record commitment (\<open>vti-rooms/src/merkle.rs\<close>, with the records of \<open>vti-rooms/src/lib.rs\<close>
  and \<open>wire.rs\<close>): a Merkle tree over the records sorted by key, inclusion proofs, and the tree head.
  SHA-256, the canonical JSON of a record, RFC 3339 rendering and the multibase codec are parameters.
\<close>

section \<open>Records\<close>

datatype record_status = Active | Deprecated | Retracted

record 'j room_record =
  rec_key :: string
  rec_version :: u64
  rec_epoch :: "u32 option"
  rec_status :: record_status
  rec_pinned :: bool
  rec_sealed :: "string option"
  rec_nonce :: "string option"
  rec_sealed_version :: "u64 option"
  rec_cleartext :: "'j option"
  rec_author :: "string option"
  rec_updated_at :: u64
  rec_created_at :: "u64 option"
  rec_created_by :: "string option"
  rec_body_stored_at :: "u64 option"

record sealed_content =
  sc_ciphertext :: string
  sc_nonce :: string
  sc_epoch :: u32
  sc_version :: "u64 option"

record 'j committed_record =
  cm_key :: string
  cm_version :: u64
  cm_status :: record_status
  cm_updated_at :: string
  cm_pinned :: bool
  cm_author :: "string option"
  cm_sealed :: "sealed_content option"
  cm_cleartext :: "'j option"

definition sealed_at :: "sealed_content \<Rightarrow> u64 \<Rightarrow> (unit, u64) result" where
  "sealed_at c record_version =
     (case sc_version c of
        Some v \<Rightarrow> if v > record_version then Err () else Ok v
      | None \<Rightarrow> Ok record_version)"

definition committed :: "(u64 \<Rightarrow> string) \<Rightarrow> 'j room_record \<Rightarrow> 'j committed_record" where
  "committed rfc3339 r =
     \<lparr> cm_key = rec_key r, cm_version = rec_version r, cm_status = rec_status r,
       cm_updated_at = rfc3339 (rec_updated_at r), cm_pinned = rec_pinned r, cm_author = rec_author r,
       cm_sealed =
         (case (rec_sealed r, rec_nonce r, rec_epoch r) of
            (Some ciphertext, Some nonce, Some epoch) \<Rightarrow>
              Some \<lparr> sc_ciphertext = ciphertext, sc_nonce = nonce, sc_epoch = epoch,
                     sc_version = (case rec_sealed_version r of
                        Some v \<Rightarrow> if v \<noteq> rec_version r then Some v else None
                      | None \<Rightarrow> None) \<rparr>
          | _ \<Rightarrow> None),
       cm_cleartext = rec_cleartext r \<rparr>"

definition from_wire ::
    "(string \<Rightarrow> u64 option) \<Rightarrow> 'j committed_record \<Rightarrow> (string, 'j room_record) result" where
  "from_wire parse_rfc3339 c =
     (case parse_rfc3339 (cm_updated_at c) of
        None \<Rightarrow> Err (cm_key c)
      | Some updated_at \<Rightarrow>
          Ok \<lparr> rec_key = cm_key c, rec_version = cm_version c,
               rec_epoch = map_option sc_epoch (cm_sealed c), rec_status = cm_status c,
               rec_pinned = cm_pinned c, rec_sealed = map_option sc_ciphertext (cm_sealed c),
               rec_nonce = map_option sc_nonce (cm_sealed c),
               rec_sealed_version = (case cm_sealed c of Some s \<Rightarrow> sc_version s | None \<Rightarrow> None),
               rec_cleartext = cm_cleartext c, rec_author = cm_author c, rec_updated_at = updated_at,
               rec_created_at = None, rec_created_by = None, rec_body_stored_at = None \<rparr>)"

text \<open>A mirror that reads a committed record back and commits to it again gets the same leaf.\<close>

lemma committed_from_wire:
  assumes "parse_rfc3339 (rfc3339 (rec_updated_at r)) = Some (rec_updated_at r)"
  shows "\<exists>r'. from_wire parse_rfc3339 (committed rfc3339 r) = Ok r' \<and> committed rfc3339 r' = committed rfc3339 r"
  using assms by (auto simp: from_wire_def committed_def split: option.splits)

section \<open>The tree\<close>

definition LEAF_PREFIX :: u8 where "LEAF_PREFIX = 0"
definition NODE_PREFIX :: u8 where "NODE_PREFIX = 1"

datatype merkle_error = Canonicalise string | NotACommitment

definition leaf_hash ::
    "(bytes \<Rightarrow> bytes) \<Rightarrow> ('j committed_record \<Rightarrow> bytes option) \<Rightarrow> 'j committed_record \<Rightarrow> (merkle_error, bytes) result" where
  "leaf_hash sha canonical r =
     (case canonical r of None \<Rightarrow> Err (Canonicalise (cm_key r)) | Some b \<Rightarrow> Ok (sha (LEAF_PREFIX # b)))"

definition node_hash :: "(bytes \<Rightarrow> bytes) \<Rightarrow> bytes \<Rightarrow> bytes \<Rightarrow> bytes" where
  "node_hash sha left right = sha (NODE_PREFIX # left @ right)"

definition empty_root :: "(bytes \<Rightarrow> bytes) \<Rightarrow> bytes" where
  "empty_root sha = sha []"

fun next_level :: "('h \<Rightarrow> 'h \<Rightarrow> 'h) \<Rightarrow> 'h list \<Rightarrow> 'h list" where
  "next_level node (left # right # rest) = node left right # next_level node rest"
| "next_level node [remainder] = [remainder]"
| "next_level node [] = []"

lemma length_next_level: "length (next_level node xs) = (length xs + 1) div 2"
  by (induction node xs rule: next_level.induct) auto

function root_loop :: "('h \<Rightarrow> 'h \<Rightarrow> 'h) \<Rightarrow> 'h list \<Rightarrow> 'h" where
  "root_loop node level = (if length level > 1 then root_loop node (next_level node level) else level ! 0)"
  by pat_completeness auto
termination
  by (relation "measure (\<lambda>(_, level). length level)") (auto simp: length_next_level)

declare root_loop.simps [simp del]

definition root_of :: "(bytes \<Rightarrow> bytes) \<Rightarrow> bytes list \<Rightarrow> bytes" where
  "root_of sha leaves = (if leaves = [] then empty_root sha else root_loop (node_hash sha) leaves)"

record tree_head =
  th_root :: bytes
  th_record_count :: u64
  th_head_version :: u64

definition tree_head_of ::
    "(bytes \<Rightarrow> bytes) \<Rightarrow> ('j committed_record \<Rightarrow> bytes option) \<Rightarrow> (u64 \<Rightarrow> string) \<Rightarrow> 'j room_record list \<Rightarrow>
     (merkle_error, tree_head) result" where
  "tree_head_of sha canonical rfc3339 records =
     (let records = sort_key rec_key records in
      res_bind (res_collect (\<lambda>r. leaf_hash sha canonical (committed rfc3339 r)) records) (\<lambda>leaves.
        Ok \<lparr> th_root = root_of sha leaves, th_record_count = of_nat (length leaves),
             th_head_version = fold max (map rec_version records) 0 \<rparr>))"

definition commit_records ::
    "(bytes \<Rightarrow> bytes) \<Rightarrow> ('j committed_record \<Rightarrow> bytes option) \<Rightarrow> (u64 \<Rightarrow> string) \<Rightarrow> 'j room_record list \<Rightarrow>
     (merkle_error, bytes) result" where
  "commit_records sha canonical rfc3339 records =
     res_bind (tree_head_of sha canonical rfc3339 records) (\<lambda>head. Ok (th_root head))"

section \<open>Inclusion proofs\<close>

record proof_step =
  ps_sibling :: bytes
  ps_sibling_is_left :: bool

function proof_loop :: "(bytes \<Rightarrow> bytes \<Rightarrow> bytes) \<Rightarrow> bytes list \<Rightarrow> nat \<Rightarrow> proof_step list" where
  "proof_loop node level idx =
     (if length level > 1 then
        (if \<not> (idx = length level - 1 \<and> length level mod 2 = 1)
         then [\<lparr> ps_sibling = level ! (if idx mod 2 = 1 then idx - 1 else idx + 1),
                 ps_sibling_is_left = (idx mod 2 = 1) \<rparr>]
         else []) @ proof_loop node (next_level node level) (idx div 2)
      else [])"
  by pat_completeness auto
termination
  by (relation "measure (\<lambda>(_, level, _). length level)") (auto simp: length_next_level)

declare proof_loop.simps [simp del]

definition inclusion_proof :: "(bytes \<Rightarrow> bytes) \<Rightarrow> bytes list \<Rightarrow> nat \<Rightarrow> proof_step list option" where
  "inclusion_proof sha leaves index =
     (if index \<ge> length leaves then None else Some (proof_loop (node_hash sha) leaves index))"

definition replay_step :: "(bytes \<Rightarrow> bytes) \<Rightarrow> proof_step \<Rightarrow> bytes \<Rightarrow> bytes" where
  "replay_step sha step current =
     (if ps_sibling_is_left step then node_hash sha (ps_sibling step) current
      else node_hash sha current (ps_sibling step))"

definition verify_inclusion :: "(bytes \<Rightarrow> bytes) \<Rightarrow> bytes \<Rightarrow> bytes \<Rightarrow> proof_step list \<Rightarrow> bool" where
  "verify_inclusion sha root leaf steps \<longleftrightarrow> fold (replay_step sha) steps leaf = root"

section \<open>The commitment on the wire\<close>

definition to_multibase :: "(bytes \<Rightarrow> string) \<Rightarrow> bytes \<Rightarrow> string" where
  "to_multibase base58 hash = base58 ([0x12, 0x20] @ hash)"

definition from_multibase :: "(string \<Rightarrow> bytes option) \<Rightarrow> string \<Rightarrow> (merkle_error, bytes) result" where
  "from_multibase decode value =
     (case decode value of
        None \<Rightarrow> Err NotACommitment
      | Some b \<Rightarrow>
          if length b \<ge> 2 \<and> take 2 b = [0x12, 0x20] then
            (if length (drop 2 b) = 32 then Ok (drop 2 b) else Err NotACommitment)
          else Err NotACommitment)"

lemma multibase_roundtrip:
  "decode (base58 ([0x12, 0x20] @ hash)) = Some ([0x12, 0x20] @ hash) \<Longrightarrow> length hash = 32 \<Longrightarrow>
   from_multibase decode (to_multibase base58 hash) = Ok hash"
  by (simp add: from_multibase_def to_multibase_def)

section \<open>Trees behind the levels\<close>

text \<open>The levels of the loop are the hashes of a forest; its fringe is the leaves in order.\<close>

datatype htree = Leaf bytes | Node htree htree

primrec thash :: "(bytes \<Rightarrow> bytes) \<Rightarrow> htree \<Rightarrow> bytes" where
  "thash sha (Leaf b) = sha (LEAF_PREFIX # b)"
| "thash sha (Node l r) = node_hash sha (thash sha l) (thash sha r)"

primrec fringe :: "htree \<Rightarrow> bytes list" where
  "fringe (Leaf b) = [b]"
| "fringe (Node l r) = fringe l @ fringe r"

text \<open>Everything that is hashed on the way from the leaves to the root.\<close>

primrec preimages :: "(bytes \<Rightarrow> bytes) \<Rightarrow> htree \<Rightarrow> bytes set" where
  "preimages sha (Leaf b) = {LEAF_PREFIX # b}"
| "preimages sha (Node l r) =
     insert (NODE_PREFIX # thash sha l @ thash sha r) (preimages sha l \<union> preimages sha r)"

lemma next_level_map:
  "(\<And>x y. f (node x y) = node' (f x) (f y)) \<Longrightarrow>
   next_level node' (map f xs) = map f (next_level node xs)"
  by (induction node xs rule: next_level.induct) auto

lemma next_level_fringe: "concat (map fringe (next_level Node ts)) = concat (map fringe ts)"
  by (induction "Node :: htree \<Rightarrow> htree \<Rightarrow> htree" ts rule: next_level.induct) auto

lemma root_loop_map:
  assumes "\<And>x y. f (node x y) = node' (f x) (f y)"
  shows "xs \<noteq> [] \<Longrightarrow> root_loop node' (map f xs) = f (root_loop node xs)"
  using assms
proof (induction node xs rule: root_loop.induct)
  case (1 node xs)
  have "next_level node xs \<noteq> []" if "length xs > 1"
    using length_next_level [of node xs] that by auto
  moreover have "next_level node' (map f xs) = map f (next_level node xs)"
    by (rule next_level_map) (rule 1(3))
  ultimately show ?case using 1
    by (subst (1 2) root_loop.simps) auto
qed

lemma root_loop_fringe: "ts \<noteq> [] \<Longrightarrow> fringe (root_loop Node ts) = concat (map fringe ts)"
proof (induction "Node :: htree \<Rightarrow> htree \<Rightarrow> htree" ts rule: root_loop.induct)
  case (1 ts)
  have "next_level Node ts \<noteq> []" if "length ts > 1"
    using length_next_level [of Node ts] that by auto
  then show ?case using 1
    by (subst root_loop.simps) (cases ts, auto simp: next_level_fringe)
qed

definition tree_of :: "bytes list \<Rightarrow> htree" where
  "tree_of bs = root_loop Node (map Leaf bs)"

lemma root_of_tree:
  assumes "bs \<noteq> []"
  shows "root_of sha (map (\<lambda>b. sha (LEAF_PREFIX # b)) bs) = thash sha (tree_of bs)"
proof -
  have "map (\<lambda>b. sha (LEAF_PREFIX # b)) bs = map (thash sha) (map Leaf bs)" by simp
  then show ?thesis
    using assms root_loop_map [of "thash sha" Node "node_hash sha" "map Leaf bs"]
    by (simp add: root_of_def tree_of_def comp_def)
qed

lemma fringe_tree_of: "bs \<noteq> [] \<Longrightarrow> fringe (tree_of bs) = bs"
  by (simp add: tree_of_def root_loop_fringe comp_def)

section \<open>Proofs exist\<close>

lemma next_level_nth:
  "i < length xs \<Longrightarrow> next_level node xs ! (i div 2) =
     (if i = length xs - 1 \<and> length xs mod 2 = 1 then xs ! i
      else node (xs ! (2 * (i div 2))) (xs ! (2 * (i div 2) + 1)))"
proof (induction node xs arbitrary: i rule: next_level.induct)
  case (1 node l r rest)
  show ?case
  proof (cases "i < 2")
    case True
    then show ?thesis by (cases i) auto
  next
    case False
    then obtain j where i: "i = Suc (Suc j)" by (metis Suc_1 add_2_eq_Suc le_iff_add not_less)
    show ?thesis using "1.IH" [of j] "1.prems" by (auto simp: i nth_Cons split: nat.splits)
  qed
qed auto

lemma proof_loop_replays:
  assumes "idx < length level"
  shows "fold (replay_step sha) (proof_loop (node_hash sha) level idx) (level ! idx) = root_loop (node_hash sha) level"
  using assms
proof (induction "node_hash sha" level idx rule: proof_loop.induct)
  case (1 level idx)
  show ?case
  proof (cases "length level > 1")
    case True
    let ?next = "next_level (node_hash sha) level"
    have "idx div 2 < length ?next" using 1(2) by (simp add: length_next_level)
    then have IH: "fold (replay_step sha) (proof_loop (node_hash sha) ?next (idx div 2)) (?next ! (idx div 2)) =
        root_loop (node_hash sha) ?next"
      using 1(1) True by simp
    have "2 * (idx div 2) = (if idx mod 2 = 1 then idx - 1 else idx)" by presburger
    then have "fold (replay_step sha) (if \<not> (idx = length level - 1 \<and> length level mod 2 = 1)
         then [\<lparr> ps_sibling = level ! (if idx mod 2 = 1 then idx - 1 else idx + 1),
                 ps_sibling_is_left = (idx mod 2 = 1) \<rparr>] else []) (level ! idx) = ?next ! (idx div 2)"
      using next_level_nth [OF 1(2), of "node_hash sha"] by (auto simp: replay_step_def)
    then show ?thesis using IH True by (simp add: proof_loop.simps [of _ level] root_loop.simps [of _ level])
  next
    case False
    then have "idx = 0" using 1(2) by simp
    then show ?thesis using False by (simp add: proof_loop.simps root_loop.simps)
  qed
qed

section \<open>Proofs are binding\<close>

lemma prefixes_differ [simp]: "LEAF_PREFIX \<noteq> NODE_PREFIX" "NODE_PREFIX \<noteq> LEAF_PREFIX"
  by (simp_all add: LEAF_PREFIX_def NODE_PREFIX_def)

text \<open>What a verifier hashes while replaying a proof.\<close>

fun replayed :: "(bytes \<Rightarrow> bytes) \<Rightarrow> proof_step list \<Rightarrow> bytes \<Rightarrow> bytes set" where
  "replayed sha [] current = {}"
| "replayed sha (step # steps) current =
     insert (NODE_PREFIX # (if ps_sibling_is_left step then ps_sibling step @ current else current @ ps_sibling step))
       (replayed sha steps (replay_step sha step current))"

lemma replay_step_eq:
  "replay_step sha step c = sha (NODE_PREFIX # (if ps_sibling_is_left step then ps_sibling step @ c else c @ ps_sibling step))"
  by (simp add: replay_step_def node_hash_def)

lemma replayed_append:
  "replayed sha (xs @ ys) c = replayed sha xs c \<union> replayed sha ys (fold (replay_step sha) xs c)"
  by (induction xs arbitrary: c) auto

lemma thash_length: "(\<And>x. length (sha x) = n) \<Longrightarrow> length (thash sha t) = n"
  by (cases t) (simp_all add: node_hash_def)

lemma replay_length:
  "(\<And>x. length (sha x) = n) \<Longrightarrow> length leaf = n \<Longrightarrow> length (fold (replay_step sha) steps leaf) = n"
  by (induction steps arbitrary: leaf) (simp_all add: replay_step_def node_hash_def)

lemma thash_inj:
  assumes len: "\<And>x. length (sha x) = n"
    and "inj_on sha (preimages sha t \<union> preimages sha u)" and "thash sha t = thash sha u"
  shows "t = u"
  using assms(2,3)
proof (induction t arbitrary: u)
  case (Leaf b)
  show ?case
  proof (cases u)
    case (Leaf c)
    then show ?thesis using Leaf.prems inj_onD [of sha _ "LEAF_PREFIX # b" "LEAF_PREFIX # c"] by auto
  next
    case (Node l r)
    then show ?thesis
      using Leaf.prems inj_onD [OF Leaf.prems(1), of "LEAF_PREFIX # b" "NODE_PREFIX # thash sha l @ thash sha r"]
      by (auto simp: node_hash_def)
  qed
next
  case (Node l r)
  show ?case
  proof (cases u)
    case (Leaf c)
    then show ?thesis
      using Node.prems inj_onD [OF Node.prems(1), of "NODE_PREFIX # thash sha l @ thash sha r" "LEAF_PREFIX # c"]
      by (auto simp: node_hash_def)
  next
    case (Node l' r')
    have "thash sha l @ thash sha r = thash sha l' @ thash sha r'"
      using Node.prems Node inj_onD [of sha _ "NODE_PREFIX # thash sha l @ thash sha r" "NODE_PREFIX # thash sha l' @ thash sha r'"]
      by (auto simp: node_hash_def)
    then have "thash sha l = thash sha l'" "thash sha r = thash sha r'"
      using thash_length [of sha n, OF len] by (metis append_eq_append_conv)+
    moreover have "inj_on sha (preimages sha l \<union> preimages sha l')" "inj_on sha (preimages sha r \<union> preimages sha r')"
      using Node.prems(1) Node by (auto elim!: inj_on_subset)
    ultimately show ?thesis using Node.IH Node by blast
  qed
qed

lemma replay_reaches_leaf:
  assumes len: "\<And>x. length (sha x) = n"
    and "\<forall>step\<in>set steps. length (ps_sibling step) = n"
    and "inj_on sha (preimages sha t \<union> replayed sha steps (sha (LEAF_PREFIX # b)) \<union> {LEAF_PREFIX # b})"
    and "fold (replay_step sha) steps (sha (LEAF_PREFIX # b)) = thash sha t"
  shows "b \<in> set (fringe t)"
  using assms(2-4)
proof (induction steps arbitrary: t rule: rev_induct)
  case Nil
  show ?case
  proof (cases t)
    case (Leaf c)
    then show ?thesis using Nil inj_onD [OF Nil(2), of "LEAF_PREFIX # b" "LEAF_PREFIX # c"] by auto
  next
    case (Node l r)
    then show ?thesis
      using Nil inj_onD [OF Nil(2), of "LEAF_PREFIX # b" "NODE_PREFIX # thash sha l @ thash sha r"]
      by (auto simp: node_hash_def)
  qed
next
  case (snoc step steps)
  let ?c = "fold (replay_step sha) steps (sha (LEAF_PREFIX # b))"
  let ?p = "NODE_PREFIX # (if ps_sibling_is_left step then ps_sibling step @ ?c else ?c @ ps_sibling step)"
  have p: "?p \<in> replayed sha (steps @ [step]) (sha (LEAF_PREFIX # b))" by (simp add: replayed_append)
  have hash: "sha ?p = thash sha t" using snoc.prems(3) by (simp add: replay_step_eq [of sha step])
  show ?case
  proof (cases t)
    case (Leaf b')
    then have "?p = LEAF_PREFIX # b'" using hash p inj_onD [OF snoc.prems(2), of ?p "LEAF_PREFIX # b'"] by auto
    then show ?thesis by simp
  next
    case (Node l r)
    then have "?p = NODE_PREFIX # thash sha l @ thash sha r"
      using hash p inj_onD [OF snoc.prems(2), of ?p "NODE_PREFIX # thash sha l @ thash sha r"]
      by (auto simp: node_hash_def)
    moreover have "length ?c = n" "length (ps_sibling step) = n"
      using replay_length [of sha n] len snoc.prems(1) by auto
    ultimately have "?c = thash sha l \<or> ?c = thash sha r"
      using thash_length [of sha n, OF len] by (auto split: if_splits)
    moreover have "inj_on sha (preimages sha u \<union> replayed sha steps (sha (LEAF_PREFIX # b)) \<union> {LEAF_PREFIX # b})"
      if "u = l \<or> u = r" for u
      using snoc.prems(2) that Node by (auto simp: replayed_append elim!: inj_on_subset)
    ultimately show ?thesis using snoc.IH [of l] snoc.IH [of r] snoc.prems(1) Node by auto
  qed
qed

section \<open>What a commitment promises\<close>

definition leaves_of :: "(bytes \<Rightarrow> bytes) \<Rightarrow> bytes list \<Rightarrow> bytes list" where
  "leaves_of sha bs = map (\<lambda>b. sha (LEAF_PREFIX # b)) bs"

definition room_preimages :: "(bytes \<Rightarrow> bytes) \<Rightarrow> bytes list \<Rightarrow> bytes set" where
  "room_preimages sha bs = (if bs = [] then {[]} else preimages sha (tree_of bs))"

lemma preimages_nonempty: "[] \<notin> preimages sha t"
  by (induction t) auto

lemma root_of_leaves:
  "root_of sha (leaves_of sha bs) = (if bs = [] then sha [] else thash sha (tree_of bs))"
  using root_of_tree [of bs sha] by (auto simp: leaves_of_def root_of_def empty_root_def)

lemma leaf_or_node:
  "\<exists>x. fold (replay_step sha) steps (sha (LEAF_PREFIX # b)) = sha x \<and> x \<noteq> [] \<and>
     x \<in> replayed sha steps (sha (LEAF_PREFIX # b)) \<union> {LEAF_PREFIX # b}"
proof (cases steps rule: rev_cases)
  case (snoc ys step)
  let ?c = "fold (replay_step sha) ys (sha (LEAF_PREFIX # b))"
  show ?thesis
    by (intro exI [of _ "NODE_PREFIX # (if ps_sibling_is_left step then ps_sibling step @ ?c else ?c @ ps_sibling step)"])
      (simp add: snoc replay_step_eq [of sha step] replayed_append)
qed simp

lemma inclusion_sound:
  assumes len: "\<And>x. length (sha x) = 32"
    and "\<forall>step\<in>set steps. length (ps_sibling step) = 32"
    and inj: "inj_on sha (room_preimages sha bs \<union> replayed sha steps (sha (LEAF_PREFIX # b)) \<union> {LEAF_PREFIX # b})"
    and ver: "verify_inclusion sha (root_of sha (leaves_of sha bs)) (sha (LEAF_PREFIX # b)) steps"
  shows "b \<in> set bs"
proof (cases "bs = []")
  case True
  obtain x where x: "sha x = sha []" "x \<noteq> []" "x \<in> replayed sha steps (sha (LEAF_PREFIX # b)) \<union> {LEAF_PREFIX # b}"
    using leaf_or_node [of sha steps b] ver True unfolding verify_inclusion_def root_of_leaves by auto
  then have "x = []" using inj_onD [OF inj, of x "[]"] True by (auto simp: room_preimages_def)
  then show ?thesis using x(2) by simp
next
  case False
  then have "b \<in> set (fringe (tree_of bs))"
    using replay_reaches_leaf [OF len assms(2), where t = "tree_of bs"] inj ver
    by (simp add: room_preimages_def verify_inclusion_def root_of_leaves)
  then show ?thesis using fringe_tree_of [OF False] by simp
qed

text \<open>Inclusion proofs are complete and sound. The proof built for a leaf of the tree replays to the
  room's commitment; and no proof, however it was obtained, takes a record that is not in the tree to the
  commitment, unless SHA-256 collides on the values hashed for the tree and for the proof. In particular
  no internal node passes for a record.\<close>

theorem merkle_inclusion_exact:
  assumes "\<forall>x. length (sha x) = 32"
  shows "(\<forall>i < length bs. \<exists>steps. inclusion_proof sha (leaves_of sha bs) i = Some steps \<and>
      verify_inclusion sha (root_of sha (leaves_of sha bs)) (sha (LEAF_PREFIX # bs ! i)) steps) \<and>
    (\<forall>b steps. verify_inclusion sha (root_of sha (leaves_of sha bs)) (sha (LEAF_PREFIX # b)) steps \<and>
      (\<forall>step\<in>set steps. length (ps_sibling step) = 32) \<and>
      inj_on sha (room_preimages sha bs \<union> replayed sha steps (sha (LEAF_PREFIX # b)) \<union> {LEAF_PREFIX # b}) \<longrightarrow>
      b \<in> set bs)"
proof (intro conjI allI impI)
  fix i assume "i < length bs"
  then show "\<exists>steps. inclusion_proof sha (leaves_of sha bs) i = Some steps \<and>
      verify_inclusion sha (root_of sha (leaves_of sha bs)) (sha (LEAF_PREFIX # bs ! i)) steps"
    using proof_loop_replays [of i "leaves_of sha bs" sha]
    by (auto simp: inclusion_proof_def verify_inclusion_def root_of_def leaves_of_def)
qed (use assms inclusion_sound in blast)

definition example_hash :: "bytes \<Rightarrow> bytes" where
  "example_hash x = replicate 32 (if x = [0, 1] then 1 else if x = [0, 2] then 2 else if x = [] then 4 else 3)"

theorem merkle_inclusion_exact_witness:
  "verify_inclusion example_hash (root_of example_hash (leaves_of example_hash [[1], [2]]))
     (example_hash (LEAF_PREFIX # [2])) [\<lparr>ps_sibling = example_hash [0, 1], ps_sibling_is_left = True\<rparr>] \<and>
   [2] \<in> set [[1], [2] :: bytes]"
proof -
  let ?steps = "[\<lparr>ps_sibling = example_hash [0, 1], ps_sibling_is_left = True\<rparr>]"
  have tree: "tree_of [[1], [2]] = Node (Leaf [1]) (Leaf [2])"
    by (simp add: tree_of_def root_loop.simps)
  have ver: "verify_inclusion example_hash (root_of example_hash (leaves_of example_hash [[1], [2]]))
      (example_hash (LEAF_PREFIX # [2])) ?steps"
    by (simp add: verify_inclusion_def root_of_leaves tree replay_step_def LEAF_PREFIX_def)
  moreover have "inj_on example_hash (room_preimages example_hash [[1], [2]] \<union>
      replayed example_hash ?steps (example_hash (LEAF_PREFIX # [2])) \<union> {LEAF_PREFIX # [2]})"
    by (auto simp: room_preimages_def tree LEAF_PREFIX_def NODE_PREFIX_def example_hash_def inj_on_def split: if_splits)
  moreover have "\<forall>x. length (example_hash x) = 32" by (simp add: example_hash_def)
  ultimately show ?thesis using merkle_inclusion_exact [of example_hash "[[1], [2]]"] by auto
qed

text \<open>The canonical bytes of a room's records, in the order of the tree.\<close>

definition canonical_records ::
    "('j committed_record \<Rightarrow> bytes option) \<Rightarrow> (u64 \<Rightarrow> string) \<Rightarrow> 'j room_record list \<Rightarrow> bytes list" where
  "canonical_records canonical rfc3339 records =
     map (\<lambda>r. the (canonical (committed rfc3339 r))) (sort_key rec_key records)"

lemma collected_leaves:
  assumes "list_all2 (\<lambda>r y. leaf_hash sha canonical (committed rfc3339 r) = Ok y) records leaves"
  shows "leaves = leaves_of sha (map (\<lambda>r. the (canonical (committed rfc3339 r))) records)"
    and "\<forall>r\<in>set records. canonical (committed rfc3339 r) \<noteq> None"
  using assms
  by (induction rule: list_all2_induct) (auto simp: leaf_hash_def leaves_of_def split: option.splits)

lemma tree_head_of_Ok:
  assumes "tree_head_of sha canonical rfc3339 records = Ok h"
  shows "th_root h = root_of sha (leaves_of sha (canonical_records canonical rfc3339 records))"
    and "th_record_count h = of_nat (length records)"
    and "th_head_version h = fold max (map rec_version (sort_key rec_key records)) 0"
    and "\<forall>r\<in>set records. canonical (committed rfc3339 r) \<noteq> None"
proof -
  obtain leaves where l: "list_all2 (\<lambda>r y. leaf_hash sha canonical (committed rfc3339 r) = Ok y) (sort_key rec_key records) leaves"
    and h: "h = \<lparr> th_root = root_of sha leaves, th_record_count = of_nat (length leaves),
      th_head_version = fold max (map rec_version (sort_key rec_key records)) 0 \<rparr>"
    using assms by (auto simp: tree_head_of_def Let_def res_bind_Ok_iff res_collect_Ok_iff)
  show "th_root h = root_of sha (leaves_of sha (canonical_records canonical rfc3339 records))"
    using collected_leaves(1) [OF l] by (simp add: h canonical_records_def)
  show "th_record_count h = of_nat (length records)" using list_all2_lengthD [OF l] by (simp add: h)
  show "th_head_version h = fold max (map rec_version (sort_key rec_key records)) 0" by (simp add: h)
  show "\<forall>r\<in>set records. canonical (committed rfc3339 r) \<noteq> None" using collected_leaves(2) [OF l] by simp
qed

lemma root_inj:
  assumes len: "\<And>x. length (sha x) = 32" and inj: "inj_on sha (room_preimages sha bs \<union> room_preimages sha cs)"
    and eq: "root_of sha (leaves_of sha bs) = root_of sha (leaves_of sha cs)"
  shows "bs = cs"
proof -
  have one: "ds = []" if "es = []" "inj_on sha (room_preimages sha ds \<union> room_preimages sha es)"
    "root_of sha (leaves_of sha ds) = root_of sha (leaves_of sha es)" for ds es
  proof (rule ccontr)
    assume ne: "ds \<noteq> []"
    obtain x where x: "thash sha (tree_of ds) = sha x" "x \<in> preimages sha (tree_of ds)"
      by (cases "tree_of ds") (auto simp: node_hash_def)
    then have "x = []" using that ne inj_onD [OF that(2), of x "[]"] by (auto simp: root_of_leaves room_preimages_def)
    then show False using x(2) preimages_nonempty by blast
  qed
  show ?thesis
  proof (cases "bs = [] \<or> cs = []")
    case True
    then show ?thesis using one [of bs cs] one [of cs bs] inj eq by (auto simp: Un_commute)
  next
    case False
    then have "tree_of bs = tree_of cs"
      using thash_inj [of sha 32 "tree_of bs" "tree_of cs"] len inj eq by (simp add: room_preimages_def root_of_leaves)
    then show ?thesis using fringe_tree_of False by metis
  qed
qed

text \<open>C35: a commitment fixes the room. Two sets of records with the same root have, in the order of their
  keys, the same committed records: none left out, added, altered or moved, and no record repeated at the
  end of an odd level. Their heads agree in the number of records and in the highest version too. The
  proviso is that SHA-256 does not collide on the values hashed for the two trees and that different
  records have different canonical forms.\<close>

theorem commitment_binds_records:
  fixes rs rs' :: "'a room_record list"
  assumes len: "\<forall>x. length (sha x) = 32"
    and canon: "\<forall>c c' b. canonical c = Some b \<and> canonical c' = Some b \<longrightarrow> c = c'"
    and heads: "tree_head_of sha canonical rfc3339 rs = Ok h" "tree_head_of sha canonical rfc3339 rs' = Ok h'"
    and inj: "inj_on sha (room_preimages sha (canonical_records canonical rfc3339 rs) \<union>
                room_preimages sha (canonical_records canonical rfc3339 rs'))"
    and root: "th_root h = th_root h'"
  shows "map (committed rfc3339) (sort_key rec_key rs) = map (committed rfc3339) (sort_key rec_key rs') \<and> h = h'"
proof -
  have bytes: "canonical_records canonical rfc3339 rs = canonical_records canonical rfc3339 rs'"
    using root_inj [OF _ inj] len root tree_head_of_Ok(1) heads by metis
  have same: "map (committed rfc3339) (sort_key rec_key rs) = map (committed rfc3339) (sort_key rec_key rs')"
  proof (rule nth_equalityI)
    have "length (sort_key rec_key rs) = length (sort_key rec_key rs')"
      using arg_cong [OF bytes, of length] by (simp add: canonical_records_def)
    then show "length (map (committed rfc3339) (sort_key rec_key rs)) = length (map (committed rfc3339) (sort_key rec_key rs'))"
      by simp
    fix i assume "i < length (map (committed rfc3339) (sort_key rec_key rs))"
    then have i: "i < length (sort_key rec_key rs)" "i < length (sort_key rec_key rs')"
      using \<open>length (sort_key rec_key rs) = length (sort_key rec_key rs')\<close> by simp_all
    let ?r = "sort_key rec_key rs ! i" and ?r' = "sort_key rec_key rs' ! i"
    have "canonical (committed rfc3339 ?r) \<noteq> None" "canonical (committed rfc3339 ?r') \<noteq> None"
      using tree_head_of_Ok(4) [OF heads(1)] tree_head_of_Ok(4) [OF heads(2)] nth_mem [OF i(1)] nth_mem [OF i(2)] by auto
    moreover have "the (canonical (committed rfc3339 ?r)) = the (canonical (committed rfc3339 ?r'))"
      using arg_cong [OF bytes, of "\<lambda>xs. xs ! i"] i by (simp add: canonical_records_def)
    ultimately show "map (committed rfc3339) (sort_key rec_key rs) ! i = map (committed rfc3339) (sort_key rec_key rs') ! i"
      using canon i by auto
  qed
  have "map rec_version xs = map cm_version (map (committed rfc3339) xs)" for xs :: "'a room_record list"
    by (simp add: committed_def)
  then have "map rec_version (sort_key rec_key rs) = map rec_version (sort_key rec_key rs')" using same by metis
  moreover have "length rs = length rs'" using arg_cong [OF same, of length] by simp
  ultimately have "h = h'"
    using root tree_head_of_Ok(2,3) [OF heads(1)] tree_head_of_Ok(2,3) [OF heads(2)] by simp
  then show ?thesis using same by blast
qed

definition example_record :: "string \<Rightarrow> u64 \<Rightarrow> unit room_record" where
  "example_record key version =
     \<lparr> rec_key = key, rec_version = version, rec_epoch = Some 3, rec_status = Active, rec_pinned = False,
       rec_sealed = Some ''Zm9v'', rec_nonce = Some ''bm9u'', rec_sealed_version = Some version, rec_cleartext = None,
       rec_author = None, rec_updated_at = 7, rec_created_at = None, rec_created_by = None, rec_body_stored_at = None \<rparr>"

definition example_canonical :: "unit committed_record \<Rightarrow> bytes option" where
  "example_canonical c =
     (if c = committed (\<lambda>_. ''t'') (example_record ''a'' 1) then Some [1]
      else if c = committed (\<lambda>_. ''t'') (example_record ''b'' 2) then Some [2] else None)"

lemma example_record_key [simp]: "rec_key (example_record key version) = key"
  by (simp add: example_record_def)

theorem commitment_binds_records_witness:
  "\<exists>h. tree_head_of example_hash example_canonical (\<lambda>_. ''t'') [example_record ''b'' 2, example_record ''a'' 1] = Ok h \<and>
     tree_head_of example_hash example_canonical (\<lambda>_. ''t'') [example_record ''a'' 1, example_record ''b'' 2] = Ok h"
proof -
  let ?rs = "[example_record ''b'' 2, example_record ''a'' 1]" and ?rs' = "[example_record ''a'' 1, example_record ''b'' 2]"
  have differ: "committed (\<lambda>_. ''t'') (example_record ''b'' 2) \<noteq> committed (\<lambda>_. ''t'') (example_record ''a'' 1)"
    by (simp add: committed_def example_record_def)
  have canon: "example_canonical (committed (\<lambda>_. ''t'') (example_record ''a'' 1)) = Some [1]"
    "example_canonical (committed (\<lambda>_. ''t'') (example_record ''b'' 2)) = Some [2]"
    using differ by (simp_all add: example_canonical_def)
  obtain h h' where heads: "tree_head_of example_hash example_canonical (\<lambda>_. ''t'') ?rs = Ok h"
      "tree_head_of example_hash example_canonical (\<lambda>_. ''t'') ?rs' = Ok h'" "th_root h = th_root h'"
    by (simp add: tree_head_of_def leaf_hash_def canon Let_def)
  have "canonical_records example_canonical (\<lambda>_. ''t'') ?rs = [[1], [2]]"
    "canonical_records example_canonical (\<lambda>_. ''t'') ?rs' = [[1], [2]]"
    by (simp_all add: canonical_records_def canon)
  moreover have "tree_of [[1], [2]] = Node (Leaf [1]) (Leaf [2])" by (simp add: tree_of_def root_loop.simps)
  ultimately have "inj_on example_hash (room_preimages example_hash (canonical_records example_canonical (\<lambda>_. ''t'') ?rs) \<union>
      room_preimages example_hash (canonical_records example_canonical (\<lambda>_. ''t'') ?rs'))"
    by (auto simp: room_preimages_def LEAF_PREFIX_def NODE_PREFIX_def example_hash_def inj_on_def split: if_splits)
  then have "h = h'"
    using commitment_binds_records [OF _ _ heads(1,2) _ heads(3)]
    by (simp add: example_hash_def) (auto simp: example_canonical_def split: if_splits)
  then show ?thesis using heads by blast
qed

end
