(* ===== verification/Board_Log.thy ===== *)
theory Board_Log
  imports Merkle
begin

text \<open>
  The public board of an election (\<open>vti-voting/src/board.rs\<close>): an append-only Merkle tree log after
  RFC 9162, with inclusion and consistency proofs.  Roots and proofs are computed by splitting the
  leaves at a power of two; the two checks work bottom-up on the bits of an index.  Both views meet in
  the levels of the tree, \<^const>\<open>next_level\<close>: halving an index is one step up.
\<close>

section \<open>The log\<close>

fun floor_log2 :: "nat \<Rightarrow> nat" where
  "floor_log2 n = (if n < 2 then 0 else Suc (floor_log2 (n div 2)))"

declare floor_log2.simps [simp del]

text \<open>The largest power of two strictly less than \<open>n\<close>; the code shifts by the position of the highest
  set bit of \<open>n - 1\<close>.\<close>

definition board_split :: "nat \<Rightarrow> nat" where
  "board_split n = 2 ^ floor_log2 (n - 1)"

lemma floor_log2_bounds: "0 < n \<Longrightarrow> 2 ^ floor_log2 n \<le> n \<and> n < 2 * 2 ^ floor_log2 n"
proof (induction n rule: floor_log2.induct)
  case (1 n)
  show ?case
  proof (cases "n < 2")
    case True
    then have "n = 1" using 1 by simp
    then show ?thesis by (simp add: floor_log2.simps)
  next
    case False
    with 1 have "2 ^ floor_log2 (n div 2) \<le> n div 2 \<and> n div 2 < 2 * 2 ^ floor_log2 (n div 2)" by simp
    then show ?thesis using False by (subst (1 2) floor_log2.simps) auto
  qed
qed

lemma board_split_bounds: "1 < n \<Longrightarrow> 0 < board_split n \<and> board_split n < n"
  using floor_log2_bounds [of "n - 1"] by (auto simp: board_split_def)

lemma board_split_parts:
  "Suc 0 < n \<Longrightarrow> min n (board_split n) < n" "Suc 0 < n \<Longrightarrow> n - board_split n < n"
  using board_split_bounds [of n] by auto

lemma board_split_halves: "2 < n \<Longrightarrow> even (board_split n) \<and> board_split ((n + 1) div 2) = board_split n div 2"
proof -
  assume n: "2 < n"
  have "floor_log2 (n - 1) = Suc (floor_log2 ((n - 1) div 2))"
    using n by (subst floor_log2.simps) simp
  moreover have "(n + 1) div 2 - 1 = (n - 1) div 2" using n by presburger
  ultimately show ?thesis by (simp add: board_split_def)
qed

record board =
  bd_leaves :: "bytes list"

datatype board_error =
    SizeOutOfRange nat nat | LeafOutOfRange nat nat | BadSizes nat nat

definition board_leaf_hash :: "(bytes \<Rightarrow> bytes) \<Rightarrow> bytes \<Rightarrow> bytes" where
  "board_leaf_hash sha entry = sha (0 # entry)"

definition board_node_hash :: "(bytes \<Rightarrow> bytes) \<Rightarrow> bytes \<Rightarrow> bytes \<Rightarrow> bytes" where
  "board_node_hash sha left right = sha (1 # left @ right)"

definition board_empty_root :: "(bytes \<Rightarrow> bytes) \<Rightarrow> bytes" where
  "board_empty_root sha = sha []"

definition board_new :: board where
  "board_new = \<lparr>bd_leaves = []\<rparr>"

definition board_append :: "(bytes \<Rightarrow> bytes) \<Rightarrow> bytes \<Rightarrow> board \<Rightarrow> nat \<times> board" where
  "board_append sha entry b =
     (length (bd_leaves b), b\<lparr>bd_leaves := bd_leaves b @ [board_leaf_hash sha entry]\<rparr>)"

text \<open>The recursive definitions are over an arbitrary node hash and empty root.\<close>

function mth :: "('h \<Rightarrow> 'h \<Rightarrow> 'h) \<Rightarrow> 'h \<Rightarrow> 'h list \<Rightarrow> 'h" where
  "mth node e leaves =
     (if leaves = [] then e
      else if length leaves = 1 then leaves ! 0
      else let k = board_split (length leaves)
           in node (mth node e (take k leaves)) (mth node e (drop k leaves)))"
  by pat_completeness auto
termination
proof (relation "measure (\<lambda>(_, _, leaves). length leaves)")
  fix leaves :: "'h list"
  assume "leaves \<noteq> []" "length leaves \<noteq> 1"
  then have "1 < length leaves" by (cases leaves) (auto simp: Suc_lessI)
  note b = board_split_bounds [OF this]
  fix node :: "'h \<Rightarrow> 'h \<Rightarrow> 'h"  and e :: 'h and k
  assume "k = board_split (length leaves)"
  with b show "((node, e, take k leaves), node, e, leaves) \<in> measure (\<lambda>(_, _, leaves). length leaves)"
    "((node, e, drop k leaves), node, e, leaves) \<in> measure (\<lambda>(_, _, leaves). length leaves)"
    by auto
qed simp

function audit_path :: "('h \<Rightarrow> 'h \<Rightarrow> 'h) \<Rightarrow> 'h \<Rightarrow> nat \<Rightarrow> 'h list \<Rightarrow> 'h list" where
  "audit_path node e m leaves =
     (if length leaves \<le> 1 then []
      else let k = board_split (length leaves)
           in if m < k then audit_path node e m (take k leaves) @ [mth node e (drop k leaves)]
              else audit_path node e (m - k) (drop k leaves) @ [mth node e (take k leaves)])"
  by pat_completeness auto
termination
  by (relation "measure (\<lambda>(_, _, _, leaves). length leaves)")
    (auto simp: not_le board_split_parts)

text \<open>The callers ask for at most as many leaves as there are; a single leaf asked for none is where the
  code's split has no power of two to return.\<close>

function subproof :: "('h \<Rightarrow> 'h \<Rightarrow> 'h) \<Rightarrow> 'h \<Rightarrow> nat \<Rightarrow> 'h list \<Rightarrow> bool \<Rightarrow> 'h list" where
  "subproof node e m leaves b =
     (if m = length leaves then (if b then [] else [mth node e leaves])
      else if length leaves \<le> 1 then []
      else let k = board_split (length leaves)
           in if m \<le> k then subproof node e m (take k leaves) b @ [mth node e (drop k leaves)]
              else subproof node e (m - k) (drop k leaves) False @ [mth node e (take k leaves)])"
  by pat_completeness auto
termination
  by (relation "measure (\<lambda>(_, _, _, leaves, _). length leaves)")
    (auto simp: not_le board_split_parts)

declare mth.simps [simp del] audit_path.simps [simp del] subproof.simps [simp del]

definition check_size :: "board \<Rightarrow> nat \<Rightarrow> (board_error, unit) result" where
  "check_size b sz =
     (if sz > length (bd_leaves b) then Err (SizeOutOfRange sz (length (bd_leaves b))) else Ok ())"

definition board_root :: "(bytes \<Rightarrow> bytes) \<Rightarrow> board \<Rightarrow> nat \<Rightarrow> (board_error, bytes) result" where
  "board_root sha b sz =
     res_bind (check_size b sz) (\<lambda>_.
       Ok (mth (board_node_hash sha) (board_empty_root sha) (take sz (bd_leaves b))))"

definition board_inclusion_proof ::
    "(bytes \<Rightarrow> bytes) \<Rightarrow> board \<Rightarrow> nat \<Rightarrow> nat \<Rightarrow> (board_error, bytes list) result" where
  "board_inclusion_proof sha b index sz =
     res_bind (check_size b sz) (\<lambda>_.
       if index \<ge> sz then Err (LeafOutOfRange index sz)
       else Ok (audit_path (board_node_hash sha) (board_empty_root sha) index (take sz (bd_leaves b))))"

definition board_consistency_proof ::
    "(bytes \<Rightarrow> bytes) \<Rightarrow> board \<Rightarrow> nat \<Rightarrow> nat \<Rightarrow> (board_error, bytes list) result" where
  "board_consistency_proof sha b first second =
     res_bind (check_size b second) (\<lambda>_.
       if first = 0 \<or> first > second then Err (BadSizes first second)
       else Ok (subproof (board_node_hash sha) (board_empty_root sha) first (take second (bd_leaves b)) True))"

section \<open>The checks\<close>

text \<open>\<open>while fnn & 1 == 0 && fnn != 0\<close>: shift both indices.\<close>

function skip_even :: "nat \<Rightarrow> nat \<Rightarrow> nat \<times> nat" where
  "skip_even fnn sn = (if even fnn \<and> fnn \<noteq> 0 then skip_even (fnn div 2) (sn div 2) else (fnn, sn))"
  by pat_completeness auto
termination
  by (relation "measure fst") auto

text \<open>\<open>while fnn & 1 == 1\<close>: shift both indices.\<close>

function skip_odd :: "nat \<Rightarrow> nat \<Rightarrow> nat \<times> nat" where
  "skip_odd fnn sn = (if odd fnn then skip_odd (fnn div 2) (sn div 2) else (fnn, sn))"
  by pat_completeness auto
termination
  by (relation "measure fst") (auto elim: oddE)

declare skip_even.simps [simp del] skip_odd.simps [simp del]

primrec inclusion_loop :: "('h \<Rightarrow> 'h \<Rightarrow> 'h) \<Rightarrow> 'h list \<Rightarrow> nat \<Rightarrow> nat \<Rightarrow> 'h \<Rightarrow> (nat \<times> 'h) option" where
  "inclusion_loop node [] fnn sn r = Some (sn, r)"
| "inclusion_loop node (p # ps) fnn sn r =
     (if sn = 0 then None
      else if odd fnn \<or> fnn = sn then
        let (f, s) = (if even fnn then skip_even fnn sn else (fnn, sn))
        in inclusion_loop node ps (f div 2) (s div 2) (node p r)
      else inclusion_loop node ps (fnn div 2) (sn div 2) (node r p))"

definition board_verify_inclusion ::
    "(bytes \<Rightarrow> bytes) \<Rightarrow> nat \<Rightarrow> nat \<Rightarrow> bytes \<Rightarrow> bytes list \<Rightarrow> bytes \<Rightarrow> bool" where
  "board_verify_inclusion sha index sz leaf path root \<longleftrightarrow>
     \<not> index \<ge> sz \<and>
     (case inclusion_loop (board_node_hash sha) path index (sz - 1) leaf of
        None \<Rightarrow> False
      | Some (sn, r) \<Rightarrow> sn = 0 \<and> r = root)"

primrec consistency_loop ::
    "('h \<Rightarrow> 'h \<Rightarrow> 'h) \<Rightarrow> 'h list \<Rightarrow> nat \<Rightarrow> nat \<Rightarrow> 'h \<Rightarrow> 'h \<Rightarrow> (nat \<times> 'h \<times> 'h) option" where
  "consistency_loop node [] fnn sn fr sr = Some (sn, fr, sr)"
| "consistency_loop node (c # cs) fnn sn fr sr =
     (if sn = 0 then None
      else if odd fnn \<or> fnn = sn then
        let (f, s) = (if even fnn then skip_even fnn sn else (fnn, sn))
        in consistency_loop node cs (f div 2) (s div 2) (node c fr) (node c sr)
      else consistency_loop node cs (fnn div 2) (sn div 2) fr (node sr c))"

fun is_power_of_two :: "nat \<Rightarrow> bool" where
  "is_power_of_two n = (if n \<le> 1 then n = 1 else even n \<and> is_power_of_two (n div 2))"

declare is_power_of_two.simps [simp del]

definition board_verify_consistency ::
    "(bytes \<Rightarrow> bytes) \<Rightarrow> nat \<Rightarrow> nat \<Rightarrow> bytes \<Rightarrow> bytes \<Rightarrow> bytes list \<Rightarrow> bool" where
  "board_verify_consistency sha first second first_root second_root path =
     (if first = 0 \<or> first > second then False
      else if first = second then path = [] \<and> first_root = second_root
      else
        case (if is_power_of_two first then first_root # path else path) of
          [] \<Rightarrow> False
        | head # rest \<Rightarrow>
            let (fnn, sn) = skip_odd (first - 1) (second - 1)
            in (case consistency_loop (board_node_hash sha) rest fnn sn head head of
                  None \<Rightarrow> False
                | Some (s, fr, sr) \<Rightarrow> s = 0 \<and> fr = first_root \<and> sr = second_root))"

section \<open>Splitting agrees with the levels\<close>

lemma next_level_append: "even (length xs) \<Longrightarrow> next_level node (xs @ ys) = next_level node xs @ next_level node ys"
  by (induction node xs rule: next_level.induct) auto

lemma next_level_single: "length xs = 1 \<Longrightarrow> next_level node xs = xs"
  by (cases xs) auto

lemma next_level_Nil_iff [simp]: "next_level node xs = [] \<longleftrightarrow> xs = []"
  by (cases "(node, xs)" rule: next_level.cases) auto

lemma next_level_split:
  assumes "2 < length xs"
  defines "k \<equiv> board_split (length xs)"
  shows "take (board_split (length (next_level node xs))) (next_level node xs) = next_level node (take k xs)"
    and "drop (board_split (length (next_level node xs))) (next_level node xs) = next_level node (drop k xs)"
proof -
  have k: "even k" "k < length xs" "board_split (length (next_level node xs)) = k div 2"
    using board_split_halves [OF assms(1)] board_split_bounds [of "length xs"] assms(1)
    by (simp_all add: k_def length_next_level)
  have "next_level node xs = next_level node (take k xs) @ next_level node (drop k xs)"
    using next_level_append [of "take k xs" node "drop k xs"] k by simp
  moreover have "length (next_level node (take k xs)) = k div 2"
    using k by (simp add: length_next_level)
  ultimately show "take (board_split (length (next_level node xs))) (next_level node xs) = next_level node (take k xs)"
    "drop (board_split (length (next_level node xs))) (next_level node xs) = next_level node (drop k xs)"
    using k(3) by simp_all
qed

lemma list_length_2: "length xs = 2 \<Longrightarrow> \<exists>a b. xs = [a, b]"
  by (cases xs; cases "tl xs") auto

lemma board_split_2 [simp]: "board_split 2 = 1" "board_split (Suc (Suc 0)) = 1"
  by (simp_all add: board_split_def floor_log2.simps)

lemma mth_single [simp]: "mth node e [] = e" "mth node e [x] = x"
  by (simp_all add: mth.simps)

lemma mth_split:
  "1 < length xs \<Longrightarrow> mth node e xs =
     node (mth node e (take (board_split (length xs)) xs)) (mth node e (drop (board_split (length xs)) xs))"
  by (subst mth.simps) (auto simp: Let_def)

lemma mth_next_level: "xs \<noteq> [] \<Longrightarrow> mth node e (next_level node xs) = mth node e xs"
proof (induction "length xs" arbitrary: xs rule: less_induct)
  case less
  have "length xs \<noteq> 0" using less.prems by simp
  then consider "length xs = 1" | "length xs = 2" | "2 < length xs" by linarith
  then show ?case
  proof cases
    case 2
    then obtain a b where "xs = [a, b]" using list_length_2 by blast
    then show ?thesis using 2 mth_split [of xs node e] by simp
  next
    case 3
    let ?k = "board_split (length xs)"
    have k: "0 < ?k" "?k < length xs" using board_split_bounds [of "length xs"] 3 by simp_all
    have "mth node e (next_level node (take ?k xs)) = mth node e (take ?k xs)"
      "mth node e (next_level node (drop ?k xs)) = mth node e (drop ?k xs)"
      using less.hyps [of "take ?k xs"] less.hyps [of "drop ?k xs"] k less.prems by simp_all
    then show ?thesis
      using mth_split [of xs node e] mth_split [of "next_level node xs" node e] 3 next_level_split [OF 3, of node]
      by (simp add: length_next_level)
  qed (simp add: next_level_single)
qed

lemma mth_root_loop: "xs \<noteq> [] \<Longrightarrow> mth node e xs = root_loop node xs"
proof (induction node xs rule: root_loop.induct)
  case (1 node xs)
  show ?case
  proof (cases "length xs > 1")
    case True
    then show ?thesis using 1 mth_next_level [of xs node e] by (subst root_loop.simps) simp
  next
    case False
    then obtain x where "xs = [x]" using 1(2) by (cases xs) auto
    then show ?thesis by (simp add: root_loop.simps)
  qed
qed

text \<open>The sibling of node \<open>i\<close> in a level, where it has one.\<close>

definition sibling :: "nat \<Rightarrow> 'h list \<Rightarrow> 'h list" where
  "sibling i xs = (if i = length xs - 1 \<and> odd (length xs) then []
     else [xs ! (if odd i then i - 1 else i + 1)])"

lemma audit_path_split:
  assumes "1 < length xs"
  defines "k \<equiv> board_split (length xs)"
  shows "i < k \<Longrightarrow> audit_path node e i xs = audit_path node e i (take k xs) @ [mth node e (drop k xs)]"
    and "\<not> i < k \<Longrightarrow> audit_path node e i xs = audit_path node e (i - k) (drop k xs) @ [mth node e (take k xs)]"
  using assms by (subst audit_path.simps, simp add: Let_def)+

lemma audit_path_single [simp]: "audit_path node e i [x] = []"
  by (simp add: audit_path.simps)

lemma sibling_take:
  "even k \<Longrightarrow> k \<le> length xs \<Longrightarrow> i < k \<Longrightarrow> sibling i (take k xs) = sibling i xs"
proof -
  assume "even k" "k \<le> length xs" "i < k"
  moreover from this have "even i \<Longrightarrow> Suc i < k" by presburger
  moreover have "i = length xs - 1 \<and> odd (length xs) \<Longrightarrow> False" if "i < k" "even k" "k \<le> length xs"
    using that by presburger
  ultimately show ?thesis by (auto simp: sibling_def)
qed

lemma sibling_drop:
  "even k \<Longrightarrow> k < length xs \<Longrightarrow> k \<le> i \<Longrightarrow> i < length xs \<Longrightarrow> sibling (i - k) (drop k xs) = sibling i xs"
proof -
  assume "even k" "k < length xs" "k \<le> i" "i < length xs"
  moreover from this have "odd i \<Longrightarrow> k + (i - Suc k) = i - 1" by presburger
  ultimately show ?thesis by (auto simp: sibling_def)
qed

lemma audit_path_next_level:
  "1 < length xs \<Longrightarrow> i < length xs \<Longrightarrow>
   audit_path node e i xs = sibling i xs @ audit_path node e (i div 2) (next_level node xs)"
proof (induction "length xs" arbitrary: xs i rule: less_induct)
  case less
  consider "length xs = 2" | "2 < length xs" using less.prems by linarith
  then show ?case
  proof cases
    case 1
    then obtain a b where "xs = [a, b]" using list_length_2 by blast
    then show ?thesis using less.prems audit_path_split [of xs i node e] 1 by (cases i) (auto simp: sibling_def)
  next
    case 2
    let ?k = "board_split (length xs)" and ?up = "next_level node xs"
    have k: "0 < ?k" "?k < length xs" "even ?k" and up: "board_split (length ?up) = ?k div 2" "1 < length ?up"
      using board_split_bounds [of "length xs"] board_split_halves [OF 2] 2 by (simp_all add: length_next_level)
    note split = audit_path_split [OF less.prems(1), of _ node e] audit_path_split [OF up(2), of _ node e]
      next_level_split [OF 2, of node]
    have ne: "take ?k xs \<noteq> []" "drop ?k xs \<noteq> []" using k by auto
    show ?thesis
    proof (cases "i < ?k")
      case True
      have "1 < length (take ?k xs)" using k by (cases "?k = 1") auto
      then have "audit_path node e i (take ?k xs) =
          sibling i xs @ audit_path node e (i div 2) (next_level node (take ?k xs))"
        using less.hyps [of "take ?k xs" i] True k sibling_take [of ?k xs i] by simp
      moreover have "i div 2 < ?k div 2" using True k(3) by auto
      ultimately show ?thesis using True split up mth_next_level [OF ne(2), of node e] by simp
    next
      case False
      have "audit_path node e (i - ?k) (drop ?k xs) =
          sibling i xs @ audit_path node e ((i - ?k) div 2) (next_level node (drop ?k xs))"
      proof (cases "1 < length (drop ?k xs)")
        case True
        then show ?thesis
          using less.hyps [of "drop ?k xs" "i - ?k"] False k less.prems sibling_drop [of ?k xs i] by simp
      next
        case single: False
        then obtain x where "drop ?k xs = [x]" using ne(2) by (cases "drop ?k xs") auto
        moreover have "length xs = Suc ?k" using single k by simp
        then have "i = length xs - 1" "odd (length xs)" using False less.prems k(3) by (simp, metis even_Suc)
        ultimately show ?thesis by (simp add: sibling_def)
      qed
      moreover have "\<not> i div 2 < ?k div 2" "(i - ?k) div 2 = i div 2 - ?k div 2" using False k(3) by auto
      ultimately show ?thesis using False split up mth_next_level [OF ne(1), of node e] by simp
    qed
  qed
qed

section \<open>Inclusion, level by level\<close>

text \<open>The verifier climbs one level per step; without a sibling the node moves up as it is.\<close>

function climb :: "('h \<Rightarrow> 'h \<Rightarrow> 'h) \<Rightarrow> nat \<Rightarrow> nat \<Rightarrow> 'h list \<Rightarrow> 'h \<Rightarrow> 'h option" where
  "climb node i sn path r =
     (if sn = 0 then (if path = [] then Some r else None)
      else if even i \<and> i = sn then climb node (i div 2) (sn div 2) path r
      else case path of [] \<Rightarrow> None
        | p # ps \<Rightarrow> climb node (i div 2) (sn div 2) ps (if odd i then node p r else node r p))"
  by pat_completeness auto
termination
  by (relation "measure (\<lambda>(_, _, sn, _). sn)") auto

declare climb.simps [simp del]

lemma climb_0: "climb node i 0 path r = (if path = [] then Some r else None)"
  by (simp add: climb.simps)

lemma climb_promote: "even i \<Longrightarrow> 0 < i \<Longrightarrow> climb node i i path r = climb node (i div 2) (i div 2) path r"
  by (subst climb.simps) simp

lemma climb_step:
  "0 < sn \<Longrightarrow> \<not> (even i \<and> i = sn) \<Longrightarrow>
   climb node i sn (p # ps) r = climb node (i div 2) (sn div 2) ps (if odd i then node p r else node r p)"
  by (subst climb.simps) auto

lemma climb_Nil: "climb node i sn [] r = (if sn = 0 then Some r else None)"
proof (induction sn arbitrary: i rule: less_induct)
  case (less sn)
  show ?case
  proof (cases "even i \<and> i = sn \<and> 0 < sn")
    case True
    then have "0 < sn div 2" by auto
    then show ?thesis using less [of "sn div 2" "i div 2"] True by (subst climb.simps) simp
  qed (subst climb.simps, auto)
qed

lemma skip_even_same: "snd (skip_even n n) = fst (skip_even n n)"
proof (induction n rule: less_induct)
  case (less n)
  then show ?case using less [of "n div 2"] by (simp add: skip_even.simps [of n n])
qed

lemma climb_skip:
  "0 < n \<Longrightarrow> climb node n n (p # ps) r =
     climb node (fst (skip_even n n) div 2) (fst (skip_even n n) div 2) ps (node p r)"
proof (induction n rule: less_induct)
  case (less n)
  show ?case
  proof (cases "even n")
    case True
    then have "0 < n div 2" "n div 2 < n" using less.prems by auto
    then show ?thesis
      using less.IH [of "n div 2"] True less.prems climb_promote [of n node "p # ps" r] skip_even.simps [of n n] by simp
  next
    case False
    then show ?thesis using climb_step [of n n node p ps r] less.prems by (simp add: skip_even.simps [of n n])
  qed
qed

lemma inclusion_loop_climb:
  "i \<le> sn \<Longrightarrow> inclusion_loop node path i sn r = Some (0, v) \<longleftrightarrow> climb node i sn path r = Some v"
proof (induction path arbitrary: i sn r)
  case Nil
  then show ?case by (auto simp: climb_Nil)
next
  case (Cons p ps)
  consider "sn = 0" | "0 < sn" "odd i" | "0 < sn" "even i" "i = sn" | "0 < sn" "even i" "i \<noteq> sn" by blast
  then show ?case
  proof cases
    case 3
    then show ?thesis
      using Cons.IH [of "fst (skip_even i i) div 2" "fst (skip_even i i) div 2"] climb_skip [of i node p ps r]
        skip_even_same [of i]
      by (simp add: case_prod_unfold Let_def)
  qed (use Cons climb_step [of sn i node p ps r] in \<open>auto simp: climb_0 div_le_mono\<close>)
qed

lemma audit_path_climbs:
  "i < length xs \<Longrightarrow> climb node i (length xs - 1) (audit_path node e i xs) (xs ! i) = Some (root_loop node xs)"
proof (induction node xs arbitrary: i rule: root_loop.induct)
  case (1 node xs)
  show ?case
  proof (cases "length xs > 1")
    case True
    let ?up = "next_level node xs"
    have up: "i div 2 < length ?up" "length ?up - 1 = (length xs - 1) div 2"
      using 1(2) True by (auto simp: length_next_level)
    have IH: "climb node (i div 2) ((length xs - 1) div 2) (audit_path node e (i div 2) ?up) (?up ! (i div 2)) =
        Some (root_loop node xs)"
      using 1(1) [OF True up(1)] True up(2) by (simp add: root_loop.simps [of node xs])
    have idx: "2 * (i div 2) = (if odd i then i - 1 else i)" by presburger
    show ?thesis
    proof (cases "i = length xs - 1 \<and> odd (length xs)")
      case last: True
      then show ?thesis
        using IH True audit_path_next_level [OF True 1(2), of node e] next_level_nth [OF 1(2), of node]
          climb_promote [of i node "audit_path node e i xs" "xs ! i"]
        by (simp add: sibling_def odd_iff_mod_2_eq_one)
    next
      case False
      then have "\<not> (even i \<and> i = length xs - 1)" using 1(2) by auto
      then show ?thesis
        using IH True False audit_path_next_level [OF True 1(2), of node e] next_level_nth [OF 1(2), of node] idx
          climb_step [of "length xs - 1" i node]
        by (auto simp: sibling_def odd_iff_mod_2_eq_one split: if_splits)
    qed
  next
    case False
    then obtain x where "xs = [x]" using 1(2) by (cases xs) auto
    then show ?thesis using 1(2) by (simp add: root_loop.simps climb_0)
  qed
qed

section \<open>What is hashed\<close>

text \<open>The pairs joined by the node hash: in a tree, and on the way up from a leaf.\<close>

fun pairs_of :: "'h list \<Rightarrow> ('h \<times> 'h) set" where
  "pairs_of (left # right # rest) = insert (left, right) (pairs_of rest)"
| "pairs_of _ = {}"

function level_pairs :: "('h \<Rightarrow> 'h \<Rightarrow> 'h) \<Rightarrow> 'h list \<Rightarrow> ('h \<times> 'h) set" where
  "level_pairs node level =
     (if length level > 1 then pairs_of level \<union> level_pairs node (next_level node level) else {})"
  by pat_completeness auto
termination
  by (relation "measure (\<lambda>(_, level). length level)") (auto simp: length_next_level)

function climb_pairs :: "('h \<Rightarrow> 'h \<Rightarrow> 'h) \<Rightarrow> nat \<Rightarrow> nat \<Rightarrow> 'h list \<Rightarrow> 'h \<Rightarrow> ('h \<times> 'h) set" where
  "climb_pairs node i sn path r =
     (if sn = 0 then {}
      else if even i \<and> i = sn then climb_pairs node (i div 2) (sn div 2) path r
      else case path of [] \<Rightarrow> {}
        | p # ps \<Rightarrow> insert (if odd i then (p, r) else (r, p))
            (climb_pairs node (i div 2) (sn div 2) ps (if odd i then node p r else node r p)))"
  by pat_completeness auto
termination
  by (relation "measure (\<lambda>(_, _, sn, _). sn)") auto

declare level_pairs.simps [simp del] climb_pairs.simps [simp del]

lemma level_pairs_up: "pairs_of xs \<union> level_pairs node (next_level node xs) \<subseteq> level_pairs node xs"
proof (cases "length xs > 1")
  case False
  then consider "xs = []" | x where "xs = [x]" by (cases xs) auto
  then show ?thesis by cases (auto simp: level_pairs.simps)
qed (simp add: level_pairs.simps [of node xs])

lemma climb_pairs_promote:
  "even i \<Longrightarrow> 0 < i \<Longrightarrow> climb_pairs node i i path r = climb_pairs node (i div 2) (i div 2) path r"
  by (subst climb_pairs.simps) simp

lemma climb_pairs_step:
  "0 < sn \<Longrightarrow> \<not> (even i \<and> i = sn) \<Longrightarrow> climb_pairs node i sn (p # ps) r =
     insert (if odd i then (p, r) else (r, p))
       (climb_pairs node (i div 2) (sn div 2) ps (if odd i then node p r else node r p))"
  by (subst climb_pairs.simps) auto

lemma pairs_of_nth: "Suc (2 * j) < length xs \<Longrightarrow> (xs ! (2 * j), xs ! Suc (2 * j)) \<in> pairs_of xs"
proof (induction xs arbitrary: j rule: pairs_of.induct)
  case (1 left right rest)
  then show ?case by (cases j) auto
qed auto

text \<open>A node of the next level that the tree joins from two, and its parts.\<close>

lemma next_level_pair:
  assumes "i < length xs" "\<not> (i = length xs - 1 \<and> odd (length xs))"
  shows "next_level node xs ! (i div 2) = node (xs ! (2 * (i div 2))) (xs ! Suc (2 * (i div 2)))"
    and "(xs ! (2 * (i div 2)), xs ! Suc (2 * (i div 2))) \<in> pairs_of xs"
proof -
  show "next_level node xs ! (i div 2) = node (xs ! (2 * (i div 2))) (xs ! Suc (2 * (i div 2)))"
    using next_level_nth [OF assms(1), of node] assms(2) by (auto simp: odd_iff_mod_2_eq_one)
  have "Suc (2 * (i div 2)) < length xs" using assms by presburger
  then show "(xs ! (2 * (i div 2)), xs ! Suc (2 * (i div 2))) \<in> pairs_of xs" by (rule pairs_of_nth)
qed

lemma next_level_last:
  "i = length xs - 1 \<Longrightarrow> odd (length xs) \<Longrightarrow> next_level node xs ! (i div 2) = xs ! i"
  using next_level_nth [of i xs node] by (cases xs) (auto simp: odd_iff_mod_2_eq_one)

lemma next_level_index:
  assumes "1 < length xs" "i < length xs"
  shows "i div 2 < length (next_level node xs)" "length (next_level node xs) - 1 = (length xs - 1) div 2"
    "i = length xs - 1 \<and> odd (length xs) \<longleftrightarrow> even i \<and> i = length xs - 1"
  using assms by (auto simp: length_next_level)

lemma join_inj:
  "inj_on (\<lambda>(a, b). node a b) P \<Longrightarrow> (a, b) \<in> P \<Longrightarrow> (c, d) \<in> P \<Longrightarrow> node a b = node c d \<Longrightarrow> a = c \<and> b = d"
  by (drule inj_onD [of _ P "(a, b)" "(c, d)"]) auto

lemma climb_binds:
  "i < length xs \<Longrightarrow> climb node i (length xs - 1) path r = Some (root_loop node xs) \<Longrightarrow>
   inj_on (\<lambda>(a, b). node a b) (level_pairs node xs \<union> climb_pairs node i (length xs - 1) path r) \<Longrightarrow>
   r = xs ! i"
proof (induction node xs arbitrary: i path r rule: root_loop.induct)
  case (1 node xs)
  show ?case
  proof (cases "length xs > 1")
    case True
    let ?up = "next_level node xs"
    note up = next_level_index(1,2) [OF True 1(2), of node] next_level_index(3) [OF True 1(2)]
    have root: "root_loop node xs = root_loop node ?up" using True by (simp add: root_loop.simps [of node xs])
    have pairs: "level_pairs node xs = pairs_of xs \<union> level_pairs node ?up"
      using True by (simp add: level_pairs.simps [of node xs])
    show ?thesis
    proof (cases "even i \<and> i = length xs - 1")
      case last: True
      then have "climb node i (length xs - 1) path r = climb node (i div 2) (length ?up - 1) path r"
        "climb_pairs node i (length xs - 1) path r = climb_pairs node (i div 2) (length ?up - 1) path r"
        using True up(2) climb_promote [of i node path r] climb_pairs_promote [of i node path r] by auto
      then have "r = ?up ! (i div 2)"
        by (intro 1(1) [OF True up(1), of path r] inj_on_subset [OF 1(4)]) (use 1(3) root pairs in auto)
      moreover have "i = length xs - 1" "odd (length xs)" using last up(3) by blast+
      ultimately show ?thesis using next_level_last [of i xs node] by simp
    next
      case False
      obtain p ps where path: "path = p # ps" using 1(3) False True climb_Nil [of node i "length xs - 1" r] by (cases path) auto
      let ?r = "if odd i then node p r else node r p"
      have step: "climb node i (length xs - 1) path r = climb node (i div 2) (length ?up - 1) ps ?r"
        "climb_pairs node i (length xs - 1) path r =
           insert (if odd i then (p, r) else (r, p)) (climb_pairs node (i div 2) (length ?up - 1) ps ?r)"
        using False True up(2) climb_step [of "length xs - 1" i node p ps r]
          climb_pairs_step [of "length xs - 1" i node p ps r]
        by (auto simp: path)
      then have "?r = ?up ! (i div 2)"
        by (intro 1(1) [OF True up(1), of ps ?r] inj_on_subset [OF 1(4)]) (use 1(3) root pairs in auto)
      moreover have "\<not> (i = length xs - 1 \<and> odd (length xs))" using False up(3) by blast
      note next_level_pair(1) [OF 1(2) this, of node] next_level_pair(2) [OF 1(2) this]
      moreover have "2 * (i div 2) = (if odd i then i - 1 else i)" by presburger
      ultimately show ?thesis
        using join_inj [OF 1(4), of p r "xs ! (2 * (i div 2))" "xs ! Suc (2 * (i div 2))"]
          join_inj [OF 1(4), of r p "xs ! (2 * (i div 2))" "xs ! Suc (2 * (i div 2))"] step(2) pairs
        by (auto split: if_splits)
    qed
  next
    case False
    then obtain x where "xs = [x]" using 1(2) by (cases xs) auto
    then show ?thesis using 1(2,3) by (simp add: root_loop.simps climb_0 split: if_splits)
  qed
qed

section \<open>Consistency, level by level\<close>

lemma subproof_same: "subproof node e (length xs) xs b = (if b then [] else [mth node e xs])"
  by (simp add: subproof.simps)

lemma subproof_split:
  assumes "m < length xs" "1 < length xs"
  defines "k \<equiv> board_split (length xs)"
  shows "m \<le> k \<Longrightarrow> subproof node e m xs b = subproof node e m (take k xs) b @ [mth node e (drop k xs)]"
    and "\<not> m \<le> k \<Longrightarrow> subproof node e m xs b = subproof node e (m - k) (drop k xs) False @ [mth node e (take k xs)]"
  using assms by (subst subproof.simps, simp add: Let_def)+

lemma subproof_odd:
  "odd m \<Longrightarrow> m < length xs \<Longrightarrow>
   subproof node e m xs b = (if b \<and> m = 1 then [] else [xs ! (m - 1)]) @ audit_path node e (m - 1) xs"
proof (induction "length xs" arbitrary: xs m b rule: less_induct)
  case less
  let ?k = "board_split (length xs)"
  have m: "0 < m" using less.prems(1) by (rule odd_pos)
  then have n: "1 < length xs" using less.prems(2) by linarith
  have k: "0 < ?k" "?k < length xs" using board_split_bounds [OF n] by simp_all
  note split = subproof_split [OF less.prems(2) n, of node e b] audit_path_split [OF n, of "m - 1" node e]
  consider "m < ?k" | "m = ?k" | "?k < m" by linarith
  then show ?case
  proof cases
    case 1
    then show ?thesis using less.hyps [of "take ?k xs" m b] less.prems(1) split k m by simp
  next
    case 2
    have "?k = 1"
    proof (rule ccontr)
      assume "?k \<noteq> 1"
      then show False using 2 less.prems board_split_halves [of "length xs"] k by (cases "length xs = 2") auto
    qed
    then obtain x where "take ?k xs = [x]" "xs ! 0 = x" using n by (cases xs) auto
    then show ?thesis using 2 \<open>?k = 1\<close> split subproof_same [of node e "[x]" b] by simp
  next
    case 3
    then have big: "2 < length xs" using less.prems k by linarith
    then have "odd (m - ?k)" using board_split_halves [OF big] 3 less.prems(1) by simp
    then show ?thesis
      using less.hyps [of "drop ?k xs" "m - ?k" False] 3 less.prems split k by simp
  qed
qed

lemma subproof_even:
  "even m \<Longrightarrow> 0 < m \<Longrightarrow> m < length xs \<Longrightarrow>
   subproof node e m xs b = subproof node e (m div 2) (next_level node xs) b"
proof (induction "length xs" arbitrary: xs m b rule: less_induct)
  case less
  let ?k = "board_split (length xs)" and ?up = "next_level node xs"
  have big: "2 < length xs" using less.prems by presburger
  have k: "0 < ?k" "?k < length xs" "even ?k" and up: "board_split (length ?up) = ?k div 2" "1 < length ?up"
    "m div 2 < length ?up"
    using board_split_bounds [of "length xs"] board_split_halves [OF big] big less.prems
    by (auto simp: length_next_level)
  have ne: "take ?k xs \<noteq> []" "drop ?k xs \<noteq> []" using k by auto
  have le: "m div 2 \<le> ?k div 2 \<longleftrightarrow> m \<le> ?k" using less.prems(1) k(3) by presburger
  note mth = mth_next_level [OF ne(1), of node e] mth_next_level [OF ne(2), of node e]
  have n: "1 < length xs" using big by simp
  note low = subproof_split(1) [OF less.prems(3) n, of node e b] subproof_split(1) [OF up(3,2), unfolded up(1) le, of node e b]
  note high = subproof_split(2) [OF less.prems(3) n, of node e b] subproof_split(2) [OF up(3,2), unfolded up(1) le, of node e b]
  note split = next_level_split [OF big, of node, unfolded up(1)]
  show ?case
  proof (cases "m \<le> ?k")
    case True
    have "subproof node e m (take ?k xs) b = subproof node e (m div 2) (next_level node (take ?k xs)) b"
    proof (cases "m = ?k")
      case True
      then have "m = length (take ?k xs)" "m div 2 = length (next_level node (take ?k xs))"
        using k by (simp_all add: length_next_level)
      then show ?thesis
        using subproof_same [of node e "take ?k xs" b] subproof_same [of node e "next_level node (take ?k xs)" b] mth
        by argo
    next
      case False
      then show ?thesis using less.hyps [of "take ?k xs" m b] less.prems True k by simp
    qed
    then show ?thesis
      using low [OF True] by (simp only: split mth)
  next
    case False
    have "(m - ?k) div 2 = m div 2 - ?k div 2" using False k(3) by auto
    moreover have "even (m - ?k)" using False less.prems(1) k(3) by simp
    ultimately have "subproof node e (m - ?k) (drop ?k xs) False =
        subproof node e (m div 2 - ?k div 2) (next_level node (drop ?k xs)) False"
      using less.hyps [of "drop ?k xs" "m - ?k" False] False less.prems k by simp
    then show ?thesis
      using high [OF False] up(1) by (simp only: split mth)
  qed
qed

text \<open>The consistency check climbs both trees at once: \<open>fr\<close> in the earlier tree, where the node is always
  the last one, and \<open>sr\<close> in the later.\<close>

function cclimb :: "('h \<Rightarrow> 'h \<Rightarrow> 'h) \<Rightarrow> nat \<Rightarrow> nat \<Rightarrow> 'h list \<Rightarrow> 'h \<Rightarrow> 'h \<Rightarrow> ('h \<times> 'h) option" where
  "cclimb node i sn path fr sr =
     (if sn = 0 then (if path = [] then Some (fr, sr) else None)
      else if even i \<and> i = sn then cclimb node (i div 2) (sn div 2) path fr sr
      else case path of [] \<Rightarrow> None
        | c # cs \<Rightarrow> cclimb node (i div 2) (sn div 2) cs
            (if odd i then node c fr else fr) (if odd i then node c sr else node sr c))"
  by pat_completeness auto
termination
  by (relation "measure (\<lambda>(_, _, sn, _). sn)") auto

function cclimb_pairs :: "('h \<Rightarrow> 'h \<Rightarrow> 'h) \<Rightarrow> nat \<Rightarrow> nat \<Rightarrow> 'h list \<Rightarrow> 'h \<Rightarrow> 'h \<Rightarrow> ('h \<times> 'h) set" where
  "cclimb_pairs node i sn path fr sr =
     (if sn = 0 then {}
      else if even i \<and> i = sn then cclimb_pairs node (i div 2) (sn div 2) path fr sr
      else case path of [] \<Rightarrow> {}
        | c # cs \<Rightarrow> (if odd i then {(c, fr), (c, sr)} else {(sr, c)}) \<union>
            cclimb_pairs node (i div 2) (sn div 2) cs
              (if odd i then node c fr else fr) (if odd i then node c sr else node sr c))"
  by pat_completeness auto
termination
  by (relation "measure (\<lambda>(_, _, sn, _). sn)") auto

declare cclimb.simps [simp del] cclimb_pairs.simps [simp del]

lemma cclimb_0: "cclimb node i 0 path fr sr = (if path = [] then Some (fr, sr) else None)"
  by (simp add: cclimb.simps)

lemma cclimb_promote:
  "even i \<Longrightarrow> 0 < i \<Longrightarrow> cclimb node i i path fr sr = cclimb node (i div 2) (i div 2) path fr sr"
  "even i \<Longrightarrow> 0 < i \<Longrightarrow> cclimb_pairs node i i path fr sr = cclimb_pairs node (i div 2) (i div 2) path fr sr"
  by (subst cclimb.simps, simp) (subst cclimb_pairs.simps, simp)

lemma cclimb_step:
  assumes "0 < sn" "\<not> (even i \<and> i = sn)"
  shows "cclimb node i sn (c # cs) fr sr = cclimb node (i div 2) (sn div 2) cs
      (if odd i then node c fr else fr) (if odd i then node c sr else node sr c)"
    and "cclimb_pairs node i sn (c # cs) fr sr = (if odd i then {(c, fr), (c, sr)} else {(sr, c)}) \<union>
      cclimb_pairs node (i div 2) (sn div 2) cs
        (if odd i then node c fr else fr) (if odd i then node c sr else node sr c)"
proof -
  show "cclimb node i sn (c # cs) fr sr = cclimb node (i div 2) (sn div 2) cs
      (if odd i then node c fr else fr) (if odd i then node c sr else node sr c)"
    using assms by (subst cclimb.simps) auto
qed (use assms in \<open>subst cclimb_pairs.simps, auto\<close>)

lemma cclimb_Nil: "cclimb node i sn [] fr sr = (if sn = 0 then Some (fr, sr) else None)"
proof (induction sn arbitrary: i rule: less_induct)
  case (less sn)
  show ?case
  proof (cases "even i \<and> i = sn \<and> 0 < sn")
    case True
    then have "0 < sn div 2" by auto
    then show ?thesis using less [of "sn div 2" "i div 2"] True by (subst cclimb.simps) simp
  qed (subst cclimb.simps, auto)
qed

lemma cclimb_skip:
  "0 < n \<Longrightarrow> cclimb node n n (c # cs) fr sr =
     cclimb node (fst (skip_even n n) div 2) (fst (skip_even n n) div 2) cs (node c fr) (node c sr)"
proof (induction n rule: less_induct)
  case (less n)
  show ?case
  proof (cases "even n")
    case True
    then have "0 < n div 2" "n div 2 < n" using less.prems by auto
    then show ?thesis
      using less.IH [of "n div 2"] True less.prems cclimb_promote(1) [of n node "c # cs" fr sr] skip_even.simps [of n n]
      by simp
  next
    case False
    then show ?thesis using cclimb_step(1) [of n n node c cs fr sr] less.prems by (simp add: skip_even.simps [of n n])
  qed
qed

lemma consistency_loop_climb:
  "i \<le> sn \<Longrightarrow> consistency_loop node path i sn fr sr = Some (0, v) \<longleftrightarrow> cclimb node i sn path fr sr = Some v"
proof (induction path arbitrary: i sn fr sr)
  case Nil
  then show ?case by (auto simp: cclimb_Nil)
next
  case (Cons c cs)
  consider "sn = 0" | "0 < sn" "odd i" | "0 < sn" "even i" "i = sn" | "0 < sn" "even i" "i \<noteq> sn" by blast
  then show ?case
  proof cases
    case 3
    then show ?thesis
      using Cons.IH [of "fst (skip_even i i) div 2" "fst (skip_even i i) div 2"] cclimb_skip [of i node c cs fr sr]
        skip_even_same [of i]
      by (simp add: case_prod_unfold Let_def)
  qed (use Cons cclimb_step(1) [of sn i node c cs fr sr] in \<open>auto simp: cclimb_0 div_le_mono\<close>)
qed

lemma root_loop_next_level: "xs \<noteq> [] \<Longrightarrow> root_loop node xs = root_loop node (next_level node xs)"
proof (cases "length xs > 1")
  case False
  assume "xs \<noteq> []"
  then have "length xs = 1" using False by (cases xs) auto
  then show ?thesis by (simp add: next_level_single)
qed (simp add: root_loop.simps [of node xs])

lemma next_level_tail:
  "length xs = Suc i \<Longrightarrow> next_level node xs ! (i div 2) = (if odd i then node (xs ! (i - 1)) (xs ! i) else xs ! i)"
  using next_level_nth [of i xs node] by (auto simp: odd_iff_mod_2_eq_one elim!: oddE)

lemma cclimb_complete:
  "length xs = Suc i \<Longrightarrow> i < length ys \<Longrightarrow> (\<forall>j<i. xs ! j = ys ! j) \<Longrightarrow>
   cclimb node i (length ys - 1) (audit_path node e i ys) (xs ! i) (ys ! i) =
     Some (root_loop node xs, root_loop node ys)"
proof (induction node ys arbitrary: i xs rule: root_loop.induct)
  case (1 node ys)
  show ?case
  proof (cases "length ys > 1")
    case True
    let ?up = "next_level node ys" and ?xup = "next_level node xs"
    note up = next_level_index(1,2) [OF True 1(3), of node] next_level_index(3) [OF True 1(3)]
    have len: "length ?xup = Suc (i div 2)" using 1(2) by (simp add: length_next_level)
    have root: "root_loop node xs = root_loop node ?xup" using 1(2) by (intro root_loop_next_level) auto
    have low: "\<forall>j < i div 2. ?xup ! j = ?up ! j"
    proof (intro allI impI)
      fix j assume "j < i div 2"
      then have "Suc (2 * j) < i" by presburger
      then show "?xup ! j = ?up ! j"
        using next_level_nth [of "2 * j" xs node] next_level_nth [of "2 * j" ys node] 1(2-4) by auto
    qed
    have IH: "cclimb node (i div 2) ((length ys - 1) div 2) (audit_path node e (i div 2) ?up) (?xup ! (i div 2)) (?up ! (i div 2)) =
        Some (root_loop node xs, root_loop node ys)"
      using 1(1) [OF True len up(1) low] True up(2) root by (simp add: root_loop.simps [of node ys])
    have idx: "2 * (i div 2) = (if odd i then i - 1 else i)" by presburger
    note xi = next_level_tail [OF 1(2), of node]
    have yi: "?up ! (i div 2) = (if i = length ys - 1 \<and> odd (length ys) then ys ! i
        else if odd i then node (ys ! (i - 1)) (ys ! i) else node (ys ! i) (ys ! Suc i))"
      using next_level_nth [OF 1(3), of node] idx by (auto simp: odd_iff_mod_2_eq_one)
    note path = audit_path_next_level [OF True 1(3), of node e]
    show ?thesis
    proof (cases "even i \<and> i = length ys - 1")
      case last: True
      then have "odd (length ys)" using up(3) by blast
      then show ?thesis
        using last IH xi yi path True cclimb_promote(1) [of i node "audit_path node e i ys" "xs ! i" "ys ! i"]
        by (simp add: sibling_def)
    next
      case False
      then have "\<not> (i = length ys - 1 \<and> odd (length ys))" using up(3) by blast
      moreover have "odd i \<Longrightarrow> xs ! (i - 1) = ys ! (i - 1)" using 1(4) by (simp add: odd_pos)
      ultimately show ?thesis
        using False IH xi yi path True cclimb_step(1) [of "length ys - 1" i node]
        by (auto simp: sibling_def)
    qed
  next
    case False
    then obtain y where "ys = [y]" using 1(3) by (cases ys) auto
    moreover have "i = 0" using 1(3) False by linarith
    moreover obtain x where "xs = [x]" using 1(2) \<open>i = 0\<close> by (auto simp: length_Suc_conv)
    ultimately show ?thesis using 1(3) by (simp add: root_loop.simps cclimb_0)
  qed
qed

text \<open>Equal nodes one level up mean equal nodes below.\<close>

lemma next_level_prefix:
  assumes inj: "inj_on (\<lambda>(a, b). node a b) P" and "pairs_of xs \<subseteq> P" "pairs_of ys \<subseteq> P"
    and "2 * n \<le> length xs" "2 * n \<le> length ys" "\<forall>j<n. next_level node xs ! j = next_level node ys ! j"
  shows "\<forall>j<2 * n. xs ! j = ys ! j"
proof (intro allI impI)
  fix j assume j: "j < 2 * n"
  let ?a = "2 * (j div 2)"
  have n: "j div 2 < n" using j by linarith
  then have a: "Suc ?a < length xs" "Suc ?a < length ys" "j div 2 < n" using assms(4,5) by linarith+
  have "node (xs ! ?a) (xs ! Suc ?a) = node (ys ! ?a) (ys ! Suc ?a)"
    using next_level_nth [of ?a xs node] next_level_nth [of ?a ys node] a assms(6) by (auto split: if_splits)
  then have "xs ! ?a = ys ! ?a \<and> xs ! Suc ?a = ys ! Suc ?a"
    using join_inj [OF inj] pairs_of_nth [OF a(1)] pairs_of_nth [OF a(2)] assms(2,3) by blast
  moreover have "j = ?a \<or> j = Suc ?a" by presburger
  ultimately show "xs ! j = ys ! j" by metis
qed

lemma cclimb_binds:
  "length xs = Suc i \<Longrightarrow> i < length ys \<Longrightarrow>
   cclimb node i (length ys - 1) path fr sr = Some (root_loop node xs, root_loop node ys) \<Longrightarrow>
   inj_on (\<lambda>(a, b). node a b)
     (level_pairs node xs \<union> level_pairs node ys \<union> cclimb_pairs node i (length ys - 1) path fr sr) \<Longrightarrow>
   (\<forall>j<i. xs ! j = ys ! j) \<and> fr = xs ! i \<and> sr = ys ! i"
proof (induction node ys arbitrary: i xs path fr sr rule: root_loop.induct)
  case (1 node ys)
  show ?case
  proof (cases "length ys > 1")
    case True
    let ?up = "next_level node ys" and ?xup = "next_level node xs"
    note up = next_level_index(1,2) [OF True 1(3), of node] next_level_index(3) [OF True 1(3)]
    have len: "length ?xup = Suc (i div 2)" using 1(2) by (simp add: length_next_level)
    have root: "root_loop node xs = root_loop node ?xup" "root_loop node ys = root_loop node ?up"
      using 1(2,3) by (auto intro!: root_loop_next_level)
    have pairs: "pairs_of xs \<union> level_pairs node ?xup \<subseteq> level_pairs node xs"
      "pairs_of ys \<union> level_pairs node ?up \<subseteq> level_pairs node ys"
      using level_pairs_up 1(2,3) by auto
    note prefix = next_level_prefix [OF 1(5), of xs ys "i div 2"]
    show ?thesis
    proof (cases "even i \<and> i = length ys - 1")
      case last: True
      then have "cclimb node i (length ys - 1) path fr sr = cclimb node (i div 2) (length ?up - 1) path fr sr"
        "cclimb_pairs node i (length ys - 1) path fr sr = cclimb_pairs node (i div 2) (length ?up - 1) path fr sr"
        using True up(2) cclimb_promote [of i node path fr sr] by auto
      then have IH: "(\<forall>j < i div 2. ?xup ! j = ?up ! j) \<and> fr = ?xup ! (i div 2) \<and> sr = ?up ! (i div 2)"
        by (intro 1(1) [OF True len up(1), of path fr sr] inj_on_subset [OF 1(5)]) (use 1(4) root pairs in auto)
      moreover have "i = length ys - 1" "odd (length ys)" using last up(3) by blast+
      ultimately show ?thesis
        using next_level_tail [OF 1(2), of node] next_level_last [of i ys node] last prefix pairs 1(2,3) by auto
    next
      case False
      obtain c cs where path: "path = c # cs"
        using 1(4) False True cclimb_Nil [of node i "length ys - 1" fr sr] by (cases path) auto
      let ?fr = "if odd i then node c fr else fr" and ?sr = "if odd i then node c sr else node sr c"
      have step: "cclimb node i (length ys - 1) path fr sr = cclimb node (i div 2) (length ?up - 1) cs ?fr ?sr"
        "cclimb_pairs node i (length ys - 1) path fr sr = (if odd i then {(c, fr), (c, sr)} else {(sr, c)}) \<union>
           cclimb_pairs node (i div 2) (length ?up - 1) cs ?fr ?sr"
        using False True up(2) cclimb_step [of "length ys - 1" i node c cs fr sr] by (auto simp: path)
      then have IH: "(\<forall>j < i div 2. ?xup ! j = ?up ! j) \<and> ?fr = ?xup ! (i div 2) \<and> ?sr = ?up ! (i div 2)"
        by (intro 1(1) [OF True len up(1), of cs ?fr ?sr] inj_on_subset [OF 1(5)]) (use 1(4) root pairs in auto)
      have nl: "\<not> (i = length ys - 1 \<and> odd (length ys))" using False up(3) by blast
      note y = next_level_pair(1) [OF 1(3) nl, of node] next_level_pair(2) [OF 1(3) nl]
      show ?thesis
      proof (cases "odd i")
        case True
        then have d: "2 * (i div 2) = i - 1" "Suc (i - 1) = i" by (auto elim: oddE)
        have "(xs ! (i - 1), xs ! i) \<in> pairs_of xs" using pairs_of_nth [of "i div 2" xs] d 1(2) by simp
        then have x: "c = xs ! (i - 1) \<and> fr = xs ! i"
          using join_inj [OF 1(5), of c fr "xs ! (i - 1)" "xs ! i"] IH next_level_tail [OF 1(2), of node] True step(2) pairs
          by auto
        have "c = ys ! (i - 1) \<and> sr = ys ! i"
          using join_inj [OF 1(5), of c sr "ys ! (i - 1)" "ys ! i"] IH y d True step(2) pairs by auto
        moreover have "\<forall>j < i - 1. xs ! j = ys ! j" using prefix pairs d IH 1(2,3) by auto
        ultimately show ?thesis using x d(2) by (metis less_antisym)
      next
        case even: False
        then have d: "2 * (i div 2) = i" by simp
        then have "sr = ys ! i"
          using join_inj [OF 1(5), of sr c "ys ! i" "ys ! Suc i"] IH y even step(2) pairs by auto
        then show ?thesis using next_level_tail [OF 1(2), of node] prefix pairs d IH even 1(2,3) by auto
      qed
    qed
  next
    case False
    then obtain y where "ys = [y]" using 1(3) by (cases ys) auto
    moreover have "i = 0" using 1(3) False by linarith
    moreover obtain x where "xs = [x]" using 1(2) \<open>i = 0\<close> by (auto simp: length_Suc_conv)
    ultimately show ?thesis using 1(3,4) by (simp add: root_loop.simps cclimb_0 split: if_splits)
  qed
qed

text \<open>The levels below the first node with a right neighbour of its own.\<close>

lemma skip_odd_binds:
  assumes "skip_odd i (length ys - 1) = (f, s)" "length xs = Suc i" "i < length ys"
    "cclimb node f s cs h h = Some (root_loop node xs, root_loop node ys)"
    "inj_on (\<lambda>(a, b). node a b) (level_pairs node xs \<union> level_pairs node ys \<union> cclimb_pairs node f s cs h h)"
  shows "xs = take (Suc i) ys"
  using assms
proof (induction i "length ys - 1" arbitrary: xs ys rule: skip_odd.induct)
  case (1 i)
  have "\<forall>j<Suc i. xs ! j = ys ! j"
  proof (cases "odd i")
    case True
    let ?xup = "next_level node xs" and ?up = "next_level node ys"
    have big: "1 < length ys" using 1(4) True by (cases "i = 0") auto
    note up = next_level_index(1,2) [OF big 1(4), of node]
    have len: "length ?xup = Suc (i div 2)" using 1(3) by (simp add: length_next_level)
    have root: "root_loop node xs = root_loop node ?xup" "root_loop node ys = root_loop node ?up"
      using 1(3,4) by (auto intro!: root_loop_next_level)
    note pairs = level_pairs_up [of xs node] level_pairs_up [of ys node]
    have "skip_odd (i div 2) (length ?up - 1) = (f, s)"
      using 1(2) True up(2) by (simp add: skip_odd.simps [of i])
    then have eq: "?xup = take (Suc (i div 2)) ?up"
      using True up(2)
      by (intro 1(1) [OF True _ _ len up(1)] inj_on_subset [OF 1(6)]) (use 1(5) root pairs in auto)
    have "\<forall>j < Suc (i div 2). ?xup ! j = ?up ! j" by (subst eq) simp
    moreover have "2 * Suc (i div 2) = Suc i" using True by presburger
    ultimately show ?thesis
      using next_level_prefix [OF 1(6), of xs ys "Suc (i div 2)"] pairs 1(3,4) by auto
  next
    case False
    then have fs: "f = i" "s = length ys - 1" using 1(2) by (simp_all add: skip_odd.simps [of i])
    have b: "(\<forall>j<i. xs ! j = ys ! j) \<and> h = xs ! i \<and> h = ys ! i"
      using cclimb_binds [OF 1(3,4), of node cs h h] 1(5,6) unfolding fs by blast
    show ?thesis
    proof (intro allI impI)
      fix j assume "j < Suc i"
      then show "xs ! j = ys ! j" using b by (cases "j = i") auto
    qed
  qed
  then show ?case using 1(3,4) by (intro nth_equalityI) auto
qed

lemma skip_odd_complete:
  assumes "skip_odd i (length ys - 1) = (f, s)" "Suc i < length ys"
  shows "\<exists>zs. length zs = Suc s \<and> f < s \<and> even f \<and> root_loop node zs = root_loop node ys \<and>
    root_loop node (take (Suc f) zs) = root_loop node (take (Suc i) ys) \<and>
    is_power_of_two (Suc f) = is_power_of_two (Suc i) \<and>
    subproof node e (Suc i) ys b = subproof node e (Suc f) zs b"
  using assms
proof (induction i "length ys - 1" arbitrary: ys rule: skip_odd.induct)
  case (1 i)
  show ?case
  proof (cases "odd i")
    case True
    let ?up = "next_level node ys"
    have len: "length ?up - 1 = (length ys - 1) div 2" using 1(3) by (auto simp: length_next_level)
    have "Suc (i div 2) < length ?up" using 1(3) True by (auto simp: length_next_level elim!: oddE)
    moreover have "skip_odd (i div 2) (length ?up - 1) = (f, s)"
      using 1(2) True len by (simp add: skip_odd.simps [of i])
    ultimately obtain zs where zs: "length zs = Suc s" "f < s" "even f" "root_loop node zs = root_loop node ?up"
      "root_loop node (take (Suc f) zs) = root_loop node (take (Suc (i div 2)) ?up)"
      "is_power_of_two (Suc f) = is_power_of_two (Suc (i div 2))"
      "subproof node e (Suc (i div 2)) ?up b = subproof node e (Suc f) zs b"
      using 1(1) [OF True, of ?up] len by auto
    have half: "Suc (i div 2) = Suc i div 2" using True by presburger
    have "next_level node (take (Suc i) ys) = take (Suc (i div 2)) ?up"
      using next_level_append [of "take (Suc i) ys" node "drop (Suc i) ys"] True 1(3) half
      by (simp add: length_next_level)
    moreover have "root_loop node (take (Suc i) ys) = root_loop node (next_level node (take (Suc i) ys))"
      using 1(3) by (intro root_loop_next_level) auto
    moreover have "root_loop node ys = root_loop node ?up" using 1(3) by (intro root_loop_next_level) auto
    moreover have "is_power_of_two (Suc i) = is_power_of_two (Suc (i div 2))"
      using True half by (subst is_power_of_two.simps) (auto elim: oddE)
    moreover have "subproof node e (Suc i) ys b = subproof node e (Suc (i div 2)) ?up b"
      unfolding half using subproof_even [of "Suc i" ys node e b] True 1(3) by simp
    ultimately show ?thesis using zs by (intro exI [of _ zs]) argo
  next
    case False
    then show ?thesis using 1(2,3) by (intro exI [of _ ys]) (auto simp: skip_odd.simps [of i])
  qed
qed

lemma root_loop_inj:
  "length xs = length ys \<Longrightarrow> xs \<noteq> [] \<Longrightarrow> root_loop node xs = root_loop node ys \<Longrightarrow>
   inj_on (\<lambda>(a, b). node a b) (level_pairs node xs \<union> level_pairs node ys) \<Longrightarrow> xs = ys"
proof (induction node xs arbitrary: ys rule: root_loop.induct)
  case (1 node xs)
  show ?case
  proof (cases "length xs > 1")
    case True
    let ?xup = "next_level node xs" and ?up = "next_level node ys" and ?n = "length xs div 2"
    note pairs = level_pairs_up [of xs node] level_pairs_up [of ys node]
    have ne: "ys \<noteq> []" using 1(2,3) by auto
    have "?xup = ?up"
      by (intro 1(1) [OF True] inj_on_subset [OF 1(5)])
        (use 1(2-4) ne pairs root_loop_next_level [of xs node] root_loop_next_level [of ys node] in
          \<open>auto simp: length_next_level\<close>)
    from this have low: "\<forall>j < 2 * ?n. xs ! j = ys ! j"
      using next_level_prefix [OF 1(5), of xs ys ?n] 1(2) pairs by auto
    have last: "xs ! j = ys ! j" if "odd (length xs)" "j = length xs - 1" for j
      using next_level_last [of j xs node] next_level_last [of j ys node] \<open>?xup = ?up\<close> that 1(2) by simp
    show ?thesis
    proof (rule nth_equalityI [OF 1(2)])
      fix j assume j: "j < length xs"
      show "xs ! j = ys ! j"
      proof (cases "j < 2 * ?n")
        case False
        then have "odd (length xs)" "j = length xs - 1" using j by presburger+
        then show ?thesis by (rule last)
      qed (use low in blast)
    qed
  next
    case False
    then obtain x where "xs = [x]" using 1(3) by (cases xs) auto
    moreover from this obtain y where "ys = [y]" using 1(2) by (cases ys) auto
    ultimately show ?thesis using 1(4) by (simp add: root_loop.simps)
  qed
qed

section \<open>What the board promises\<close>

text \<open>The board after its entries were appended in order, and the pairs joined when its root at a size is
  computed and when a proof is checked.\<close>

definition board_of :: "(bytes \<Rightarrow> bytes) \<Rightarrow> bytes list \<Rightarrow> board" where
  "board_of sha entries = fold (\<lambda>entry b. snd (board_append sha entry b)) entries board_new"

definition board_pairs :: "(bytes \<Rightarrow> bytes) \<Rightarrow> bytes list \<Rightarrow> nat \<Rightarrow> (bytes \<times> bytes) set" where
  "board_pairs sha entries sz = level_pairs (board_node_hash sha) (map (board_leaf_hash sha) (take sz entries))"

definition inclusion_pairs :: "(bytes \<Rightarrow> bytes) \<Rightarrow> nat \<Rightarrow> nat \<Rightarrow> bytes \<Rightarrow> bytes list \<Rightarrow> (bytes \<times> bytes) set" where
  "inclusion_pairs sha index sz leaf path = climb_pairs (board_node_hash sha) index (sz - 1) path leaf"

definition consistency_pairs ::
    "(bytes \<Rightarrow> bytes) \<Rightarrow> nat \<Rightarrow> nat \<Rightarrow> bytes \<Rightarrow> bytes list \<Rightarrow> (bytes \<times> bytes) set" where
  "consistency_pairs sha first second first_root path =
     (case (if is_power_of_two first then first_root # path else path) of
        [] \<Rightarrow> {}
      | head # rest \<Rightarrow> let (fnn, sn) = skip_odd (first - 1) (second - 1)
          in cclimb_pairs (board_node_hash sha) fnn sn rest head head)"

lemma bd_leaves_board_of [simp]: "bd_leaves (board_of sha entries) = map (board_leaf_hash sha) entries"
proof -
  have "bd_leaves (fold (\<lambda>entry b. snd (board_append sha entry b)) entries b) =
      bd_leaves b @ map (board_leaf_hash sha) entries" for b
    by (induction entries arbitrary: b) (simp_all add: board_append_def)
  then show ?thesis by (simp add: board_of_def board_new_def)
qed

lemma board_root_Ok:
  "board_root sha (board_of sha entries) sz = Ok root \<longleftrightarrow> sz \<le> length entries \<and>
     root = (if sz = 0 then board_empty_root sha
             else root_loop (board_node_hash sha) (map (board_leaf_hash sha) (take sz entries)))"
  by (cases "sz = 0"; cases "entries = []")
    (auto simp: board_root_def check_size_def res_bind_def take_map mth_root_loop)

lemma skip_odd_le: "i \<le> s \<Longrightarrow> skip_odd i s = (f, s') \<Longrightarrow> f \<le> s'"
proof (induction i s rule: skip_odd.induct)
  case (1 i s)
  then show ?case by (cases "odd i") (simp_all add: skip_odd.simps [of i] div_le_mono)
qed

lemma board_verify_inclusion_climb:
  "board_verify_inclusion sha index sz leaf path root \<longleftrightarrow>
     index < sz \<and> climb (board_node_hash sha) index (sz - 1) path leaf = Some root"
proof (cases "index < sz")
  case True
  then have "index \<le> sz - 1" by simp
  from inclusion_loop_climb [OF this, of "board_node_hash sha" path leaf root] show ?thesis
    using True by (auto simp: board_verify_inclusion_def split: option.splits)
qed (simp add: board_verify_inclusion_def)

lemma board_verify_consistency_climb:
  assumes "first < second" "0 < first" "skip_odd (first - 1) (second - 1) = (f, s)"
  shows "board_verify_consistency sha first second r1 r2 path \<longleftrightarrow>
    (\<exists>head rest. (if is_power_of_two first then r1 # path else path) = head # rest \<and>
      cclimb (board_node_hash sha) f s rest head head = Some (r1, r2))"
proof -
  have "first - 1 \<le> second - 1" using assms by simp
  then have "f \<le> s" using skip_odd_le assms(3) by blast
  note loop = consistency_loop_climb [OF this, of "board_node_hash sha" _ _ _ "(r1, r2)"]
  show ?thesis using assms
    by (auto simp: board_verify_consistency_def loop [symmetric] split: list.splits option.splits if_splits)
qed

lemma board_inclusion_complete:
  assumes "i < sz" "sz \<le> length entries"
  shows "\<exists>path root. board_inclusion_proof sha (board_of sha entries) i sz = Ok path \<and>
      board_root sha (board_of sha entries) sz = Ok root \<and>
      board_verify_inclusion sha i sz (board_leaf_hash sha (entries ! i)) path root"
  using assms audit_path_climbs [of i "map (board_leaf_hash sha) (take sz entries)" "board_node_hash sha"
      "board_empty_root sha"]
  by (auto simp: board_inclusion_proof_def check_size_def res_bind_def take_map board_root_Ok
      board_verify_inclusion_climb min_absorb2)

lemma board_inclusion_sound:
  assumes "board_root sha (board_of sha entries) sz = Ok root"
    and "board_verify_inclusion sha i sz leaf path root"
    and "inj_on (\<lambda>(l, r). board_node_hash sha l r) (board_pairs sha entries sz \<union> inclusion_pairs sha i sz leaf path)"
  shows "leaf = board_leaf_hash sha (entries ! i)"
  using assms climb_binds [of i "map (board_leaf_hash sha) (take sz entries)" "board_node_hash sha" path leaf]
  by (auto simp: board_root_Ok board_verify_inclusion_climb board_pairs_def inclusion_pairs_def min_absorb2)

lemma board_consistency_complete:
  assumes "0 < m" "m \<le> n" "n \<le> length entries"
  shows "\<exists>path r1 r2. board_consistency_proof sha (board_of sha entries) m n = Ok path \<and>
      board_root sha (board_of sha entries) m = Ok r1 \<and> board_root sha (board_of sha entries) n = Ok r2 \<and>
      board_verify_consistency sha m n r1 r2 path"
proof -
  let ?node = "board_node_hash sha" and ?e = "board_empty_root sha"
  let ?ys = "map (board_leaf_hash sha) (take n entries)"
  let ?path = "subproof ?node ?e m ?ys True"
  have len: "length ?ys = n" using assms by simp
  have proof_ok: "board_consistency_proof sha (board_of sha entries) m n = Ok ?path"
    using assms by (simp add: board_consistency_proof_def check_size_def res_bind_def take_map)
  have roots: "board_root sha (board_of sha entries) m = Ok (root_loop ?node (take m ?ys))"
    "board_root sha (board_of sha entries) n = Ok (root_loop ?node ?ys)"
    using assms by (auto simp: board_root_Ok take_map min_def)
  have "board_verify_consistency sha m n (root_loop ?node (take m ?ys)) (root_loop ?node ?ys) ?path"
  proof (cases "m = n")
    case True
    then show ?thesis using assms len subproof_same [of ?node ?e ?ys True] by (simp add: board_verify_consistency_def)
  next
    case False
    obtain f s where skip: "skip_odd (m - 1) (n - 1) = (f, s)" by fastforce
    obtain zs where zs: "length zs = Suc s" "f < s" "even f" "root_loop ?node zs = root_loop ?node ?ys"
      "root_loop ?node (take (Suc f) zs) = root_loop ?node (take m ?ys)"
      "is_power_of_two (Suc f) = is_power_of_two m" "?path = subproof ?node ?e (Suc f) zs True"
      using skip_odd_complete [of "m - 1" ?ys f s ?node ?e True] skip len assms False by auto
    have "cclimb ?node f s (audit_path ?node ?e f zs) (zs ! f) (zs ! f) =
        Some (root_loop ?node (take m ?ys), root_loop ?node ?ys)"
      using cclimb_complete [of "take (Suc f) zs" f zs ?node ?e] zs by simp
    moreover have "?path = (if f = 0 then [] else [zs ! f]) @ audit_path ?node ?e f zs"
      using zs subproof_odd [of "Suc f" zs ?node ?e True] by simp
    moreover have "is_power_of_two m \<longleftrightarrow> f = 0"
      using zs(3,6) by (subst zs(6) [symmetric], subst is_power_of_two.simps) auto
    moreover have "f = 0 \<Longrightarrow> root_loop ?node (take m ?ys) = zs ! 0"
      using zs(1,5) by (cases zs) (auto simp: root_loop.simps)
    ultimately show ?thesis
      using board_verify_consistency_climb [OF _ assms(1) skip] assms False by auto
  qed
  then show ?thesis using proof_ok roots by blast
qed

lemma board_consistency_sound:
  assumes "board_root sha (board_of sha ds) m = Ok r1" "board_root sha (board_of sha es) n = Ok r2"
    and ver: "board_verify_consistency sha m n r1 r2 path"
    and inj: "inj_on (\<lambda>(l, r). board_node_hash sha l r)
      (board_pairs sha ds m \<union> board_pairs sha es n \<union> consistency_pairs sha m n r1 path)"
  shows "map (board_leaf_hash sha) (take m ds) = map (board_leaf_hash sha) (take m es)"
proof -
  let ?node = "board_node_hash sha"
  let ?xs = "map (board_leaf_hash sha) (take m ds)" and ?ys = "map (board_leaf_hash sha) (take n es)"
  have mn: "0 < m" "m \<le> n" using ver by (auto simp: board_verify_consistency_def split: if_splits)
  have len: "length ?xs = m" "length ?ys = n" and roots: "r1 = root_loop ?node ?xs" "r2 = root_loop ?node ?ys"
    using assms(1,2) mn by (auto simp: board_root_Ok)
  have "?xs = take m ?ys"
  proof (cases "m = n")
    case True
    then have "r1 = r2" using ver mn by (simp add: board_verify_consistency_def)
    then have "?xs = ?ys"
      by (intro root_loop_inj [of _ _ ?node] inj_on_subset [OF inj])
        (use True roots len mn in \<open>auto simp: board_pairs_def\<close>)
    then show ?thesis using True len by simp
  next
    case False
    obtain f s where skip: "skip_odd (m - 1) (n - 1) = (f, s)" by fastforce
    obtain head rest where p: "(if is_power_of_two m then r1 # path else path) = head # rest"
      "cclimb ?node f s rest head head = Some (r1, r2)"
      using ver board_verify_consistency_climb [OF _ mn(1) skip] mn False by auto
    have "?xs = take (Suc (m - 1)) ?ys"
      by (rule skip_odd_binds [of "m - 1" ?ys f s ?xs ?node rest head], use skip len p roots mn in simp_all)
        (rule inj_on_subset [OF inj], use p skip in \<open>auto simp: board_pairs_def consistency_pairs_def\<close>)
    then show ?thesis using mn by simp
  qed
  then show ?thesis using mn by (simp add: take_map min_absorb1)
qed

text \<open>C12: inclusion proofs on the board are complete and sound. The path served for an entry of the log
  checks against the root of every size that covers it; and a path that checks against such a root at an
  index proves that the entry is the one the log holds there, unless SHA-256 collides on the nodes joined in
  the tree and in the check or on the two entries.\<close>

theorem board_inclusion_exact:
  assumes "i < sz" "sz \<le> length entries"
  shows "(\<exists>path root. board_inclusion_proof sha (board_of sha entries) i sz = Ok path \<and>
      board_root sha (board_of sha entries) sz = Ok root \<and>
      board_verify_inclusion sha i sz (board_leaf_hash sha (entries ! i)) path root) \<and>
    (\<forall>entry path root. board_root sha (board_of sha entries) sz = Ok root \<and>
      board_verify_inclusion sha i sz (board_leaf_hash sha entry) path root \<and>
      inj_on (\<lambda>(l, r). board_node_hash sha l r)
        (board_pairs sha entries sz \<union> inclusion_pairs sha i sz (board_leaf_hash sha entry) path) \<and>
      inj_on (board_leaf_hash sha) {entry, entries ! i} \<longrightarrow> entry = entries ! i)"
proof (intro conjI allI impI)
  show "\<exists>path root. board_inclusion_proof sha (board_of sha entries) i sz = Ok path \<and>
      board_root sha (board_of sha entries) sz = Ok root \<and>
      board_verify_inclusion sha i sz (board_leaf_hash sha (entries ! i)) path root"
    by (rule board_inclusion_complete [OF assms])
  fix entry path root
  assume a: "board_root sha (board_of sha entries) sz = Ok root \<and>
      board_verify_inclusion sha i sz (board_leaf_hash sha entry) path root \<and>
      inj_on (\<lambda>(l, r). board_node_hash sha l r)
        (board_pairs sha entries sz \<union> inclusion_pairs sha i sz (board_leaf_hash sha entry) path) \<and>
      inj_on (board_leaf_hash sha) {entry, entries ! i}"
  then have "board_leaf_hash sha entry = board_leaf_hash sha (entries ! i)" using board_inclusion_sound by blast
  then show "entry = entries ! i" using a inj_onD [of "board_leaf_hash sha" "{entry, entries ! i}"] by blast
qed

theorem board_inclusion_exact_witness:
  "board_verify_inclusion (\<lambda>x. x) 2 3 (board_leaf_hash (\<lambda>x. x) [3]) [[1, 0, 1, 0, 2]] [1, 1, 0, 1, 0, 2, 0, 3] \<and>
   (\<exists>path. board_inclusion_proof (\<lambda>x. x) (board_of (\<lambda>x. x) [[1], [2], [3]]) 2 3 = Ok path) \<and>
   [3] = [[1], [2], [3] :: bytes] ! 2"
proof -
  have ver: "board_verify_inclusion (\<lambda>x. x) 2 3 (board_leaf_hash (\<lambda>x. x) [3]) [[1, 0, 1, 0, 2]] [1, 1, 0, 1, 0, 2, 0, 3]"
    by (simp add: board_verify_inclusion_def board_leaf_hash_def board_node_hash_def skip_even.simps)
  have root: "board_root (\<lambda>x. x) (board_of (\<lambda>x. x) [[1], [2], [3]]) 3 = Ok [1, 1, 0, 1, 0, 2, 0, 3]"
    by (simp add: board_root_Ok root_loop.simps board_leaf_hash_def board_node_hash_def)
  have "inj_on (\<lambda>(l, r). board_node_hash (\<lambda>x. x) l r)
      (board_pairs (\<lambda>x. x) [[1], [2], [3]] 3 \<union>
       inclusion_pairs (\<lambda>x. x) 2 3 (board_leaf_hash (\<lambda>x. x) [3]) [[1, 0, 1, 0, 2]])"
    by (simp add: board_pairs_def inclusion_pairs_def level_pairs.simps climb_pairs.simps board_leaf_hash_def
        board_node_hash_def)
  then show ?thesis
    using ver root board_inclusion_exact [of 2 3 "[[1], [2], [3]]" "\<lambda>x. x"] by (auto simp: board_leaf_hash_def)
qed

text \<open>C11: the board is append-only, and its consistency proofs show exactly that. The proof served
  between two sizes of one log checks against the two roots; and whenever a proof checks between the root of
  a log at size \<open>m\<close> and the root of a log at size \<open>n\<close>, the second log starts with the first \<open>m\<close> entries of the
  first, unless SHA-256 collides on what is hashed. A board cannot be rewritten or forked between two heads.\<close>

theorem board_consistency_exact:
  assumes "0 < m" "m \<le> n"
  shows "(n \<le> length es \<longrightarrow> (\<exists>path r1 r2. board_consistency_proof sha (board_of sha es) m n = Ok path \<and>
      board_root sha (board_of sha es) m = Ok r1 \<and> board_root sha (board_of sha es) n = Ok r2 \<and>
      board_verify_consistency sha m n r1 r2 path)) \<and>
    (\<forall>ds path r1 r2. board_root sha (board_of sha ds) m = Ok r1 \<and> board_root sha (board_of sha es) n = Ok r2 \<and>
      board_verify_consistency sha m n r1 r2 path \<and>
      inj_on (\<lambda>(l, r). board_node_hash sha l r)
        (board_pairs sha ds m \<union> board_pairs sha es n \<union> consistency_pairs sha m n r1 path) \<and>
      inj_on (board_leaf_hash sha) (set ds \<union> set es) \<longrightarrow> take m ds = take m es)"
proof (intro conjI allI impI)
  fix ds path r1 r2
  assume a: "board_root sha (board_of sha ds) m = Ok r1 \<and> board_root sha (board_of sha es) n = Ok r2 \<and>
      board_verify_consistency sha m n r1 r2 path \<and>
      inj_on (\<lambda>(l, r). board_node_hash sha l r)
        (board_pairs sha ds m \<union> board_pairs sha es n \<union> consistency_pairs sha m n r1 path) \<and>
      inj_on (board_leaf_hash sha) (set ds \<union> set es)"
  then have "map (board_leaf_hash sha) (take m ds) = map (board_leaf_hash sha) (take m es)"
    using board_consistency_sound by blast
  then show "take m ds = take m es"
    by (rule map_inj_on) (rule inj_on_subset [of _ "set ds \<union> set es"], use a in \<open>auto dest: in_set_takeD\<close>)
qed (use assms board_consistency_complete in blast)

theorem board_consistency_exact_witness:
  "board_verify_consistency (\<lambda>x. x) 1 2 [0, 1] [1, 0, 1, 0, 2] [[0, 2]] \<and>
   (\<exists>path. board_consistency_proof (\<lambda>x. x) (board_of (\<lambda>x. x) [[1], [2]]) 1 2 = Ok path) \<and>
   take 1 [[1], [7] :: bytes] = take 1 [[1], [2]]"
proof -
  have ver: "board_verify_consistency (\<lambda>x. x) 1 2 [0, 1] [1, 0, 1, 0, 2] [[0, 2]]"
    by (simp add: board_verify_consistency_def is_power_of_two.simps skip_odd.simps board_node_hash_def)
  have roots: "board_root (\<lambda>x. x) (board_of (\<lambda>x. x) [[1], [7]]) 1 = Ok [0, 1]"
    "board_root (\<lambda>x. x) (board_of (\<lambda>x. x) [[1], [2]]) 2 = Ok [1, 0, 1, 0, 2]"
    by (simp_all add: board_root_Ok root_loop.simps board_leaf_hash_def board_node_hash_def)
  have "inj_on (\<lambda>(l, r). board_node_hash (\<lambda>x. x) l r)
      (board_pairs (\<lambda>x. x) [[1], [7]] 1 \<union> board_pairs (\<lambda>x. x) [[1], [2]] 2 \<union>
       consistency_pairs (\<lambda>x. x) 1 2 [0, 1] [[0, 2]])"
    by (simp add: board_pairs_def consistency_pairs_def level_pairs.simps cclimb_pairs.simps board_leaf_hash_def
        board_node_hash_def is_power_of_two.simps skip_odd.simps)
  moreover have "inj_on (board_leaf_hash (\<lambda>x. x)) (set [[1], [7]] \<union> set [[1], [2]])"
    by (auto simp: board_leaf_hash_def inj_on_def)
  ultimately show ?thesis
    using ver roots board_consistency_exact [of 1 2 "[[1], [2]]" "\<lambda>x. x"] by auto
qed

end
