(* ===== verification/Election.thy ===== *)
theory Election
  imports Context_Path
begin

text \<open>
  An election's public identity (\<open>vti-voting/src/election.rs\<close>): identifiers, and the framed bytes that
  bind a cast, a proof or a sealed payload to one election.  Hashing to the curve is a parameter; what is
  hashed is modelled.
\<close>

section \<open>Framing\<close>

definition frame :: "bytes \<Rightarrow> bytes \<Rightarrow> bytes" where
  "frame out field = out @ be_bytes (word_of_nat (length field) :: u64) @ field"

text \<open>A slice in memory is shorter than \<open>2\<^sup>6\<^sup>4\<close> bytes.\<close>

abbreviation fits :: "'a list \<Rightarrow> bool" where
  "fits xs \<equiv> length xs < 2 ^ 64"

lemma framed_inj:
  assumes "fits a" "fits b"
    and "be_bytes (word_of_nat (length a) :: u64) @ a @ x = be_bytes (word_of_nat (length b) :: u64) @ b @ y"
  shows "a = b \<and> x = y"
proof -
  have "(word_of_nat (length a) :: u64) = word_of_nat (length b)" and rest: "a @ x = b @ y"
    using assms(3) by (simp_all add: append_eq_append_conv)
  then have "unat (word_of_nat (length a) :: u64) = unat (word_of_nat (length b) :: u64)" by simp
  then have "length a = length b" using assms(1,2) by (simp add: unat_of_nat)
  then show ?thesis using rest by simp
qed

section \<open>Elections\<close>

datatype voting_error =
    Pcs | InvalidElectionId | InvalidCommunity | WrongCommunity | WrongElection | WrongClass
  | ProofRejected | AlreadyVoted | VSerialization | VStore

definition election_id_new :: "string \<Rightarrow> (voting_error, string) result" where
  "election_id_new s =
     (if (1 \<le> length s \<and> length s \<le> 128) \<and>
         list_all (\<lambda>b. is_ascii_alphanumeric b \<or> b = CHR ''.'' \<or> b = CHR ''_'' \<or> b = CHR ''-'') s
      then Ok s else Err InvalidElectionId)"

text \<open>\<open>char::is_control\<close> on the UTF-8 bytes: \<open>U+0000\<close> to \<open>U+001F\<close> and \<open>U+007F\<close> are one byte, \<open>U+0080\<close> to
  \<open>U+009F\<close> the byte \<open>0xC2\<close> and one more.\<close>

fun has_control :: "string \<Rightarrow> bool" where
  "has_control [] = False"
| "has_control (c # cs) \<longleftrightarrow>
     of_char c < (32 :: nat) \<or> of_char c = (127 :: nat) \<or>
     (of_char c = (194 :: nat) \<and> (case cs of d # _ \<Rightarrow> of_char d < (160 :: nat) | [] \<Rightarrow> False)) \<or>
     has_control cs"

definition check_community :: "string \<Rightarrow> (voting_error, unit) result" where
  "check_community community = (if community = [] \<or> has_control community then Err InvalidCommunity else Ok ())"

record election =
  el_community :: string
  el_id :: string
  el_manifest_digest :: bytes

definition election_new :: "string \<Rightarrow> string \<Rightarrow> bytes \<Rightarrow> (voting_error, election) result" where
  "election_new community eid manifest_digest =
     res_bind (check_community community) (\<lambda>_.
       Ok \<lparr>el_community = community, el_id = eid, el_manifest_digest = manifest_digest\<rparr>)"

definition BALLOT_CONTEXT_TAG :: bytes where
  "BALLOT_CONTEXT_TAG = as_bytes (''vti/vote/ballot/v1'' @ [CHR 0x00])"

definition trustee_context :: "election \<Rightarrow> bytes" where
  "trustee_context e =
     frame (frame (frame [] (as_bytes (el_community e))) (as_bytes (el_id e))) (el_manifest_digest e)"

definition election_point :: "(bytes \<Rightarrow> bytes \<Rightarrow> (voting_error, 'g) result) \<Rightarrow> election \<Rightarrow> (voting_error, 'g) result" where
  "election_point hash_to_curve e =
     hash_to_curve (as_bytes ''election'')
       (frame (frame (frame [] (as_bytes (el_community e))) (as_bytes (el_id e))) (el_manifest_digest e))"

definition ballot_context :: "election \<Rightarrow> bytes \<Rightarrow> bytes" where
  "ballot_context e ballot =
     frame (frame (frame (frame BALLOT_CONTEXT_TAG (as_bytes (el_community e))) (as_bytes (el_id e)))
       (el_manifest_digest e)) ballot"

section \<open>Contexts tell elections and ballots apart\<close>

definition election_fits :: "election \<Rightarrow> bool" where
  "election_fits e \<longleftrightarrow> fits (el_community e) \<and> fits (el_id e) \<and> fits (el_manifest_digest e)"

lemma election_frames_inj:
  assumes "election_fits e" "election_fits f"
    and "frame (frame (frame out (as_bytes (el_community e))) (as_bytes (el_id e))) (el_manifest_digest e) @ x =
      frame (frame (frame out (as_bytes (el_community f))) (as_bytes (el_id f))) (el_manifest_digest f) @ y"
  shows "e = f \<and> x = y"
proof -
  let ?b = "\<lambda>a :: bytes. be_bytes (word_of_nat (length a) :: u64) @ a"
  have "?b (as_bytes (el_community e)) @ ?b (as_bytes (el_id e)) @ ?b (el_manifest_digest e) @ x =
      ?b (as_bytes (el_community f)) @ ?b (as_bytes (el_id f)) @ ?b (el_manifest_digest f) @ y"
    using assms(3) by (simp add: frame_def)
  then have "as_bytes (el_community e) = as_bytes (el_community f) \<and>
      as_bytes (el_id e) = as_bytes (el_id f) \<and> el_manifest_digest e = el_manifest_digest f \<and> x = y"
    using framed_inj assms(1,2) unfolding election_fits_def by (metis append.assoc length_as_bytes)
  then show ?thesis by (auto intro: election.equality)
qed

lemma trustee_context_inj:
  "election_fits e \<Longrightarrow> election_fits f \<Longrightarrow> trustee_context e = trustee_context f \<Longrightarrow> e = f"
  using election_frames_inj [of e f "[]" "[]" "[]"] by (simp add: trustee_context_def)

lemma ballot_context_inj:
  assumes "election_fits e" "election_fits f" "fits b" "fits c" "ballot_context e b = ballot_context f c"
  shows "e = f \<and> b = c"
proof -
  let ?b = "\<lambda>a :: bytes. be_bytes (word_of_nat (length a) :: u64) @ a"
  have "e = f \<and> ?b b = ?b c"
    by (rule election_frames_inj [OF assms(1,2), of BALLOT_CONTEXT_TAG])
      (use assms(5) in \<open>simp add: ballot_context_def frame_def\<close>)
  then show ?thesis using framed_inj [OF assms(3,4), of "[]" "[]"] by simp
qed

end
