(* ===== verification/Trustee_Group.thy ===== *)
theory Trustee_Group
  imports Kv_Store Election "HOL-Library.Stream"
begin

text \<open>
  The ground the trustees' cryptography stands on (\<open>vti-voting/src/trustees.rs\<close>): encodings, the Fiat-Shamir
  transcript, Schnorr and Chaum-Pedersen proofs, polynomials and Lagrange interpolation.  The group, its
  scalars, the hashes and the ciphers come from other crates: scalars are a field, points an abelian group,
  and the rest of their interface is the record \<open>group_env\<close>, which every definition takes.  A random number
  generator is the stream of the 64-byte blocks it will return.
\<close>

section \<open>The group and the primitives\<close>

datatype multibase = Base58Btc | OtherBase nat

record ('s, 'p) group_env =
  smul :: "'s \<Rightarrow> 'p \<Rightarrow> 'p"
  gen :: 'p
  compress :: "'p \<Rightarrow> bytes"
  decompress :: "bytes \<Rightarrow> 'p option"
  wide :: "bytes \<Rightarrow> 's"
  scalar_bytes :: "'s \<Rightarrow> bytes"
  canonical :: "bytes \<Rightarrow> 's option"
  sha512 :: "bytes \<Rightarrow> bytes"
  sha256 :: "bytes \<Rightarrow> bytes"
  mb_encode :: "multibase \<Rightarrow> bytes \<Rightarrow> string"
  mb_decode :: "string \<Rightarrow> (multibase \<times> bytes) option"
  aead_encrypt :: "bytes \<Rightarrow> bytes \<Rightarrow> bytes \<Rightarrow> bytes \<Rightarrow> bytes option"
  aead_decrypt :: "bytes \<Rightarrow> bytes \<Rightarrow> bytes \<Rightarrow> bytes \<Rightarrow> bytes option"

type_synonym rng = "bytes stream"

text \<open>What \<open>curve25519-dalek\<close> documents of the Ristretto group: a group of prime order generated by its
  base point, far more than \<open>2\<^sup>6\<^sup>4\<close> scalars, and one compression per point.\<close>

definition prime_order_group :: "('s::field, 'p::ab_group_add) group_env \<Rightarrow> bool" where
  "prime_order_group E \<longleftrightarrow>
     (\<forall>x P Q. smul E x (P + Q) = smul E x P + smul E x Q) \<and>
     (\<forall>x y P. smul E (x + y) P = smul E x P + smul E y P) \<and>
     (\<forall>x y P. smul E x (smul E y P) = smul E (x * y) P) \<and>
     (\<forall>P. smul E 1 P = P) \<and>
     (\<forall>P. \<exists>x. P = smul E x (gen E)) \<and>
     (\<forall>x. smul E x (gen E) = 0 \<longrightarrow> x = 0) \<and>
     inj (compress E) \<and>
     inj_on (of_nat :: nat \<Rightarrow> 's) {..< 2 ^ 64}"

text \<open>\<open>Scalar::from\<close> of an unsigned integer.\<close>

definition sc :: "'w::len word \<Rightarrow> 's::field" where
  "sc w = of_nat (unat w)"

datatype trustee_error =
    TDealingInvalid | TShareInvalid | TPartialInvalid | TooFewPartials nat nat | TBallotInvalid
  | TSealedInvalid | TotalOutOfRange | TEncoding | TParameters

section \<open>Encodings\<close>

definition tr_point_text :: "('s, 'p) group_env \<Rightarrow> 'p \<Rightarrow> string" where
  "tr_point_text E p = mb_encode E Base58Btc (compress E p)"

definition b58_decode :: "('s, 'p) group_env \<Rightarrow> string \<Rightarrow> (trustee_error, bytes) result" where
  "b58_decode E text =
     (case mb_decode E text of
        None \<Rightarrow> Err TEncoding
      | Some (base, bs) \<Rightarrow> if base \<noteq> Base58Btc then Err TEncoding else Ok bs)"

definition point_from_text :: "('s, 'p::zero) group_env \<Rightarrow> string \<Rightarrow> (trustee_error, 'p) result" where
  "point_from_text E text =
     res_bind (b58_decode E text) (\<lambda>bs.
       if length bs \<noteq> 32 then Err TEncoding
       else case decompress E bs of
         None \<Rightarrow> Err TEncoding
       | Some p \<Rightarrow> if p = 0 then Err TEncoding else Ok p)"

definition scalar_text :: "('s, 'p) group_env \<Rightarrow> 's \<Rightarrow> string" where
  "scalar_text E s = mb_encode E Base58Btc (scalar_bytes E s)"

definition scalar_from_text :: "('s, 'p) group_env \<Rightarrow> string \<Rightarrow> (trustee_error, 's) result" where
  "scalar_from_text E text =
     res_bind (b58_decode E text) (\<lambda>bs.
       if length bs \<noteq> 32 then Err TEncoding
       else case canonical E bs of None \<Rightarrow> Err TEncoding | Some s \<Rightarrow> Ok s)"

definition random_scalar :: "('s, 'p) group_env \<Rightarrow> rng \<Rightarrow> 's \<times> rng" where
  "random_scalar E rng = (wide E (shd rng), stl rng)"

section \<open>Transcripts and proofs\<close>

type_synonym transcript = bytes

definition t_bytes :: "transcript \<Rightarrow> bytes \<Rightarrow> transcript" where
  "t_bytes t b = t @ be_bytes (word_of_nat (length b) :: u64) @ b"

definition t_new :: "string \<Rightarrow> bytes \<Rightarrow> transcript" where
  "t_new domain ctx = t_bytes (t_bytes [] (as_bytes domain)) ctx"

definition t_point :: "('s, 'p) group_env \<Rightarrow> 'p \<Rightarrow> transcript \<Rightarrow> transcript" where
  "t_point E p t = t_bytes t (compress E p)"

definition challenge :: "('s, 'p) group_env \<Rightarrow> transcript \<Rightarrow> 's" where
  "challenge E t = wide E (sha512 E t)"

text \<open>\<open>Schnorr\<close> and \<open>ChaumPedersen\<close> are both a challenge and a response.\<close>

record 's sigma_proof =
  sp_c :: 's
  sp_z :: 's

definition schnorr_prove ::
    "('s::field, 'p::ab_group_add) group_env \<Rightarrow> 's \<Rightarrow> 'p \<Rightarrow> string \<Rightarrow> bytes \<Rightarrow> rng \<Rightarrow> 's sigma_proof \<times> rng" where
  "schnorr_prove E x big_x domain ctx rng =
     (let (w, rng') = random_scalar E rng;
          a = smul E w (gen E);
          c = challenge E (t_point E a (t_point E big_x (t_new domain ctx)))
      in (\<lparr>sp_c = c, sp_z = w + c * x\<rparr>, rng'))"

definition schnorr_verify ::
    "('s::field, 'p::ab_group_add) group_env \<Rightarrow> 'p \<Rightarrow> 's sigma_proof \<Rightarrow> string \<Rightarrow> bytes \<Rightarrow> bool" where
  "schnorr_verify E big_x p domain ctx =
     (let a = smul E (sp_z p) (gen E) - smul E (sp_c p) big_x
      in challenge E (t_point E a (t_point E big_x (t_new domain ctx))) = sp_c p)"

definition DOMAIN_POK :: string where "DOMAIN_POK = ''vti/vote/trustee/pok/v1''"
definition DOMAIN_TRANSPORT :: string where "DOMAIN_TRANSPORT = ''vti/vote/trustee/transport/v1''"
definition DOMAIN_PARTIAL :: string where "DOMAIN_PARTIAL = ''vti/vote/trustee/partial/v1''"
definition DOMAIN_BIT :: string where "DOMAIN_BIT = ''vti/vote/encrypted/option/v1''"
definition DOMAIN_SUM :: string where "DOMAIN_SUM = ''vti/vote/encrypted/question/v1''"
definition DOMAIN_SEAL :: string where "DOMAIN_SEAL = ''vti/vote/sealed/key/v1''"

definition cp_transcript :: "('s, 'p) group_env \<Rightarrow> 'p \<Rightarrow> 'p \<Rightarrow> 'p \<Rightarrow> 'p \<Rightarrow> 'p \<Rightarrow> string \<Rightarrow> bytes \<Rightarrow> transcript" where
  "cp_transcript E y base d a1 a2 domain ctx = fold (t_point E) [y, base, d, a1, a2] (t_new domain ctx)"

definition cp_prove ::
    "('s::field, 'p::ab_group_add) group_env \<Rightarrow> 's \<Rightarrow> 'p \<Rightarrow> 'p \<Rightarrow> 'p \<Rightarrow> string \<Rightarrow> bytes \<Rightarrow> rng \<Rightarrow> 's sigma_proof \<times> rng" where
  "cp_prove E x base y d domain ctx rng =
     (let (w, rng') = random_scalar E rng;
          a1 = smul E w (gen E); a2 = smul E w base;
          c = challenge E (cp_transcript E y base d a1 a2 domain ctx)
      in (\<lparr>sp_c = c, sp_z = w + c * x\<rparr>, rng'))"

definition cp_verify ::
    "('s::field, 'p::ab_group_add) group_env \<Rightarrow> 'p \<Rightarrow> 'p \<Rightarrow> 'p \<Rightarrow> 's sigma_proof \<Rightarrow> string \<Rightarrow> bytes \<Rightarrow> bool" where
  "cp_verify E base y d p domain ctx =
     (let a1 = smul E (sp_z p) (gen E) - smul E (sp_c p) y;
          a2 = smul E (sp_z p) base - smul E (sp_c p) d
      in challenge E (cp_transcript E y base d a1 a2 domain ctx) = sp_c p)"

section \<open>Polynomials\<close>

definition eval :: "'s::field list \<Rightarrow> u32 \<Rightarrow> 's" where
  "eval coeffs at = (let x = sc at in fold (\<lambda>a acc. acc * x + a) (rev coeffs) 0)"

definition eval_commitments :: "('s::field, 'p::ab_group_add) group_env \<Rightarrow> 'p list \<Rightarrow> u32 \<Rightarrow> 'p" where
  "eval_commitments E commitments at = (let x = sc at in fold (\<lambda>c acc. smul E x acc + c) (rev commitments) 0)"

definition lagrange_at_zero :: "u32 \<Rightarrow> u32 list \<Rightarrow> 's::field" where
  "lagrange_at_zero j ks =
     (let xj = sc j;
          (num, den) = fold (\<lambda>k (num, den). if k \<noteq> j then (num * sc k, den * (sc k - xj)) else (num, den)) ks (1, 1)
      in num * inverse den)"

section \<open>The group's laws\<close>

lemma smul_add: "prime_order_group E \<Longrightarrow> smul E x (P + Q) = smul E x P + smul E x Q"
  and smul_plus: "prime_order_group E \<Longrightarrow> smul E (x + y) P = smul E x P + smul E y P"
  and smul_smul: "prime_order_group E \<Longrightarrow> smul E x (smul E y P) = smul E (x * y) P"
  and smul_one: "prime_order_group E \<Longrightarrow> smul E 1 P = P"
  and generated: "prime_order_group E \<Longrightarrow> \<exists>x. P = smul E x (gen E)"
  and smul_gen_0: "prime_order_group E \<Longrightarrow> smul E x (gen E) = 0 \<Longrightarrow> x = 0"
  and compress_inj: "prime_order_group E \<Longrightarrow> compress E P = compress E Q \<longleftrightarrow> P = Q"
  by (simp_all add: prime_order_group_def inj_eq)

lemma of_nat_scalar_inj:
  "prime_order_group (E :: ('s::field, 'p::ab_group_add) group_env) \<Longrightarrow> inj_on (of_nat :: nat \<Rightarrow> 's) {..< 2 ^ 64}"
  unfolding prime_order_group_def by blast

lemma smul_zero:
  assumes "prime_order_group E"
  shows smul_zero_left: "smul E 0 P = 0" and smul_zero_right: "smul E x 0 = 0"
  using smul_plus [OF assms, of 0 0 P] smul_add [OF assms, of x 0 0] by simp_all

lemma smul_minus:
  assumes "prime_order_group E"
  shows smul_minus_left: "smul E (x - y) P = smul E x P - smul E y P"
    and smul_minus_right: "smul E x (P - Q) = smul E x P - smul E x Q"
proof -
  show "smul E (x - y) P = smul E x P - smul E y P"
    using smul_plus [OF assms, of "x - y" y P] by (simp add: algebra_simps)
  show "smul E x (P - Q) = smul E x P - smul E x Q"
    using smul_add [OF assms, of x "P - Q" Q] by (simp add: algebra_simps)
qed

lemma smul_uminus: "prime_order_group E \<Longrightarrow> smul E (- x) P = - smul E x P"
  using smul_minus_left [of E 0 x P] smul_zero_left [of E P] by simp

lemma smul_gen_inj: "prime_order_group E \<Longrightarrow> smul E x (gen E) = smul E y (gen E) \<longleftrightarrow> x = y"
  using smul_gen_0 [of E "x - y"] smul_minus_left [of E x y "gen E"] by auto

lemma smul_sum: "prime_order_group E \<Longrightarrow> (\<Sum>i\<in>A. smul E (f i) P) = smul E (\<Sum>i\<in>A. f i) P"
  by (induction A rule: infinite_finite_induct) (simp_all add: smul_zero_left smul_plus)

lemma smul_sum_list: "prime_order_group E \<Longrightarrow> sum_list (map (\<lambda>i. smul E (f i) P) xs) = smul E (sum_list (map f xs)) P"
  by (induction xs) (simp_all add: smul_zero_left smul_plus)

lemmas smul_simps = smul_add smul_plus smul_smul smul_minus_left smul_minus_right smul_uminus smul_zero_left smul_zero_right

text \<open>The discrete logarithm to the base point.\<close>

definition dlog :: "('s::field, 'p::ab_group_add) group_env \<Rightarrow> 'p \<Rightarrow> 's" where
  "dlog E P = (THE x. P = smul E x (gen E))"

lemma dlog_gen: "prime_order_group E \<Longrightarrow> dlog E (smul E x (gen E)) = x"
  unfolding dlog_def by (rule the_equality) (auto simp: smul_gen_inj)

lemma smul_dlog: "prime_order_group E \<Longrightarrow> smul E (dlog E P) (gen E) = P"
  using generated [of E P] by (auto simp: dlog_gen)

lemma sc_inj:
  fixes v w :: u32
  assumes "prime_order_group (E :: ('s::field, 'p::ab_group_add) group_env)"
  shows "(sc v :: 's) = sc w \<longleftrightarrow> v = w"
proof
  assume "(sc v :: 's) = sc w"
  moreover have "unat v \<in> {..< 2 ^ 64}" "unat w \<in> {..< 2 ^ 64}"
    using unsigned_less [of v, where 'a = nat] unsigned_less [of w, where 'a = nat] by simp_all
  ultimately have "unat v = unat w"
    using inj_onD [OF of_nat_scalar_inj [OF assms], of "unat v" "unat w"] by (simp add: sc_def)
  then show "v = w" by (simp add: word_eq_iff_unsigned [where 'a = nat])
qed simp

section \<open>Proofs that verify\<close>

lemma schnorr_complete:
  "prime_order_group E \<Longrightarrow>
   schnorr_verify E (smul E x (gen E)) (fst (schnorr_prove E x (smul E x (gen E)) domain ctx rng)) domain ctx"
  by (simp add: schnorr_prove_def schnorr_verify_def random_scalar_def Let_def smul_simps)

lemma cp_complete:
  "prime_order_group E \<Longrightarrow>
   cp_verify E base (smul E x (gen E)) (smul E x base)
     (fst (cp_prove E x base (smul E x (gen E)) (smul E x base) domain ctx rng)) domain ctx"
  by (simp add: cp_prove_def cp_verify_def random_scalar_def Let_def smul_simps)

text \<open>A false statement leaves, for each pair of commitments, one challenge that can be answered.  The
  transcript of an accepted proof of a false statement hashes to exactly that challenge.\<close>

definition cp_lucky :: "('s::field, 'p::ab_group_add) group_env \<Rightarrow> 'p \<Rightarrow> 'p \<Rightarrow> 'p \<Rightarrow> 's sigma_proof \<Rightarrow> string \<Rightarrow> bytes \<Rightarrow> bool" where
  "cp_lucky E base y d p domain ctx =
     (let a1 = smul E (sp_z p) (gen E) - smul E (sp_c p) y;
          a2 = smul E (sp_z p) base - smul E (sp_c p) d
      in dlog E y * dlog E base \<noteq> dlog E d \<and>
         challenge E (cp_transcript E y base d a1 a2 domain ctx) =
           (dlog E a2 - dlog E a1 * dlog E base) / (dlog E y * dlog E base - dlog E d))"

lemma dlog_simps:
  assumes "prime_order_group E"
  shows "dlog E (smul E x P) = x * dlog E P" "dlog E (P - Q) = dlog E P - dlog E Q" "dlog E (P + Q) = dlog E P + dlog E Q"
    "dlog E (gen E) = 1" "dlog E 0 = 0" "dlog E P = dlog E Q \<longleftrightarrow> P = Q"
proof -
  have P: "P = smul E (dlog E P) (gen E)" and Q: "Q = smul E (dlog E Q) (gen E)" using smul_dlog [OF assms] by simp_all
  show "dlog E (smul E x P) = x * dlog E P" by (subst P) (simp add: assms smul_smul dlog_gen)
  show "dlog E (P - Q) = dlog E P - dlog E Q"
    by (subst P, subst Q) (simp add: assms smul_minus_left [symmetric] dlog_gen)
  show "dlog E (P + Q) = dlog E P + dlog E Q"
    by (subst P, subst Q) (simp add: assms smul_plus [symmetric] dlog_gen)
  show "dlog E (gen E) = 1" using dlog_gen [OF assms, of 1] by (simp add: assms smul_one)
  show "dlog E 0 = 0" using dlog_gen [OF assms, of 0] by (simp add: assms smul_zero_left)
  show "dlog E P = dlog E Q \<longleftrightarrow> P = Q" by (metis P Q)
qed

lemma cp_sound:
  assumes E: "prime_order_group E"
    and "cp_verify E base y d p domain ctx" "\<not> cp_lucky E base y d p domain ctx"
  shows "d = smul E (dlog E y) base"
proof (rule ccontr)
  assume "d \<noteq> smul E (dlog E y) base"
  then have ne: "dlog E y * dlog E base \<noteq> dlog E d" using dlog_simps(1,6) [OF E] by metis
  let ?a1 = "smul E (sp_z p) (gen E) - smul E (sp_c p) y" and ?a2 = "smul E (sp_z p) base - smul E (sp_c p) d"
  have "dlog E ?a2 - dlog E ?a1 * dlog E base = sp_c p * (dlog E y * dlog E base - dlog E d)"
    by (simp add: dlog_simps [OF E] algebra_simps)
  then have "sp_c p = (dlog E ?a2 - dlog E ?a1 * dlog E base) / (dlog E y * dlog E base - dlog E d)"
    using ne by simp
  then show False using assms(2,3) ne by (simp add: cp_verify_def cp_lucky_def Let_def)
qed

section \<open>Interpolation\<close>

primrec horner :: "'s::field list \<Rightarrow> 's \<Rightarrow> 's" where
  "horner [] x = 0"
| "horner (a # as) x = horner as x * x + a"

lemma eval_horner: "eval coeffs at = horner coeffs (sc at)"
  by (induction coeffs) (simp_all add: eval_def Let_def)

lemma eval_commitments_dlog:
  assumes E: "prime_order_group E"
  shows "dlog E (eval_commitments E cs at) = horner (map (dlog E) cs) (sc at)"
  by (induction cs) (simp_all add: eval_commitments_def Let_def dlog_simps [OF E] mult.commute)

lemma horner_split:
  "\<exists>q. length q = length p - 1 \<and> (\<forall>x. horner p x = horner p a + (x - a) * horner q x)"
proof (induction p)
  case (Cons c cs)
  then obtain q where q: "length q = length cs - 1" "\<forall>x. horner cs x = horner cs a + (x - a) * horner q x" by blast
  show ?case
  proof (cases "cs = []")
    case True
    then show ?thesis by (intro exI [of _ "[]"]) simp
  next
    case False
    have "horner (c # cs) x = horner (c # cs) a + (x - a) * horner (horner cs a # q) x" for x
    proof -
      have eq: "horner cs x = horner cs a + (x - a) * horner q x" using q(2) by blast
      show ?thesis unfolding horner.simps by (subst eq) (simp add: algebra_simps)
    qed
    moreover have "length (horner cs a # q) = length (c # cs) - 1" using q(1) False by simp
    ultimately show ?thesis by blast
  qed
qed simp

definition lam :: "'s::field set \<Rightarrow> 's \<Rightarrow> 's" where
  "lam S j = (\<Prod>k\<in>S - {j}. k / (k - j))"

lemma lam_remove:
  assumes "finite S" "j \<in> S" "k \<in> S" "k \<noteq> j"
  shows "lam S j * (k - j) = k * lam (S - {k}) j"
proof -
  have "S - {j} = insert k (S - {k} - {j})" using assms by auto
  then have "lam S j = k / (k - j) * lam (S - {k}) j"
    unfolding lam_def using assms(1) by (simp add: insert_absorb)
  then show ?thesis using assms(4) by simp
qed

lemma lam_sum_one:
  assumes "finite S" "S \<noteq> {}"
  shows "(\<Sum>j\<in>S. lam S j) = (1 :: 's::field)"
  using assms
proof (induction "card S" arbitrary: S rule: less_induct)
  case less
  show ?case
  proof (cases "\<exists>a b. a \<in> S \<and> b \<in> S \<and> a \<noteq> b")
    case True
    then obtain a b where ab: "a \<in> S" "b \<in> S" "a \<noteq> b" by blast
    then have ne: "S - {a} \<noteq> {}" "S - {b} \<noteq> {}" by auto
    have IH: "(\<Sum>j\<in>S - {x}. lam (S - {x}) j) = 1" if "x \<in> S" "S - {x} \<noteq> {}" for x
      using less.hyps [of "S - {x}"] less.prems that by (simp add: card_gt_0_iff)
    have "(\<Sum>j\<in>S. lam S j) * (b - a) =
        (\<Sum>j\<in>S. (if j = b then 0 else b * lam (S - {b}) j) - (if j = a then 0 else a * lam (S - {a}) j))"
      unfolding sum_distrib_right
    proof (rule sum.cong [OF refl])
      fix j assume j: "j \<in> S"
      have "j \<noteq> b \<Longrightarrow> lam S j * (b - j) = b * lam (S - {b}) j" "j \<noteq> a \<Longrightarrow> lam S j * (a - j) = a * lam (S - {a}) j"
        using lam_remove [of S j] less.prems(1) j ab by auto
      then show "lam S j * (b - a) =
          (if j = b then 0 else b * lam (S - {b}) j) - (if j = a then 0 else a * lam (S - {a}) j)"
        using ab(3) by (auto simp: algebra_simps)
    qed
    also have "\<dots> = b * (\<Sum>j\<in>S - {b}. lam (S - {b}) j) - a * (\<Sum>j\<in>S - {a}. lam (S - {a}) j)"
      using less.prems(1) by (simp add: sum_subtractf sum.If_cases sum_distrib_left Diff_eq)
    also have "\<dots> = b - a" using IH [of b] IH [of a] ab ne by simp
    finally show ?thesis using ab(3) by simp
  next
    case False
    then obtain a where "S = {a}" using less.prems(2) by blast
    then show ?thesis by (simp add: lam_def)
  qed
qed

lemma lagrange:
  "finite S \<Longrightarrow> length p \<le> card S \<Longrightarrow> (\<Sum>j\<in>S. lam S j * horner p j) = horner p 0"
proof (induction "length p" arbitrary: p S)
  case (Suc n)
  then have "S \<noteq> {}" by auto
  then obtain a where a: "a \<in> S" by blast
  obtain q where q: "length q = n" "\<And>x. horner p x = horner p a + (x - a) * horner q x"
    using horner_split [of p a] Suc.hyps(2) by (metis diff_Suc_1)
  have "(\<Sum>j\<in>S. lam S j * horner p j) = (\<Sum>j\<in>S. lam S j) * horner p a + (\<Sum>j\<in>S. lam S j * (j - a) * horner q j)"
    unfolding sum_distrib_right sum.distrib [symmetric]
    by (rule sum.cong [OF refl], subst q(2)) (simp only: distrib_left mult.assoc)
  also have "(\<Sum>j\<in>S. lam S j * (j - a) * horner q j) = (\<Sum>j\<in>S - {a}. lam S j * (j - a) * horner q j)"
    using Suc.prems(1) a by (intro sum.mono_neutral_right) auto
  also have "\<dots> = (\<Sum>j\<in>S - {a}. - a * (lam (S - {a}) j * horner q j))"
  proof (rule sum.cong [OF refl])
    fix j assume "j \<in> S - {a}"
    then have "lam S j * (a - j) = a * lam (S - {a}) j" using lam_remove [of S j a] Suc.prems(1) a by auto
    then have "lam S j * (j - a) = - a * lam (S - {a}) j" by (simp add: algebra_simps)
    then show "lam S j * (j - a) * horner q j = - a * (lam (S - {a}) j * horner q j)" by simp
  qed
  also have "\<dots> = - a * horner q 0"
    using Suc.hyps(1) [of q "S - {a}"] q(1) Suc.prems Suc.hyps(2) a by (simp add: sum_distrib_left [symmetric] sum_negf)
  finally show ?case using lam_sum_one [OF Suc.prems(1) \<open>S \<noteq> {}\<close>] q(2) [of 0] by simp
qed simp

lemma lagrange_at_zero_lam:
  assumes E: "prime_order_group (E :: ('s::field, 'p::ab_group_add) group_env)" and "distinct ks"
  shows "(lagrange_at_zero j ks :: 's) = lam (sc ` set ks) (sc j)"
proof -
  let ?x = "sc :: u32 \<Rightarrow> 's"
  let ?ks = "filter (\<lambda>k. k \<noteq> j) ks"
  have "fold (\<lambda>k (num, den). if k \<noteq> j then (num * ?x k, den * (?x k - ?x j)) else (num, den)) ks (n, d) =
      (n * prod_list (map ?x (filter (\<lambda>k. k \<noteq> j) ks)), d * prod_list (map (\<lambda>k. ?x k - ?x j) (filter (\<lambda>k. k \<noteq> j) ks)))" for n d
    by (induction ks arbitrary: n d) (simp_all add: mult.assoc)
  then have "lagrange_at_zero j ks = prod_list (map ?x ?ks) * inverse (prod_list (map (\<lambda>k. ?x k - ?x j) ?ks))"
    by (simp add: lagrange_at_zero_def Let_def)
  also have "\<dots> = prod_list (map (\<lambda>k. ?x k / (?x k - ?x j)) ?ks)"
    by (induction ks) (simp_all add: divide_inverse ac_simps)
  also have "\<dots> = (\<Prod>k\<in>set ?ks. ?x k / (?x k - ?x j))"
    using assms(2) by (simp add: prod.distinct_set_conv_list [symmetric])
  also have "\<dots> = (\<Prod>k\<in>?x ` set ks - {?x j}. k / (k - ?x j))"
    by (rule prod.reindex_cong [of ?x, symmetric]) (auto simp: inj_on_def sc_inj [OF E])
  finally show ?thesis by (simp add: lam_def)
qed

end
