(* ===== verification/Trustees.thy ===== *)
theory Trustees
  imports Complex_Main "HOL-Library.Countable" Trustee_Group
begin

text \<open>
  Joint key generation, threshold decryption and sealed payloads (\<open>vti-voting/src/trustees.rs\<close>).  Any \<open>t\<close>
  verified partial decryptions give the same plaintext, the one that was encrypted; keys made from verified
  shares produce partials that verify; a sealed payload opens to what was sealed.
\<close>

section \<open>Joint key generation\<close>

record threshold =
  th_t :: u32
  th_n :: u32

definition threshold_new :: "u32 \<Rightarrow> u32 \<Rightarrow> (trustee_error, threshold) result" where
  "threshold_new t n = (if t < 2 \<or> t > n then Err TParameters else Ok \<lparr>th_t = t, th_n = n\<rparr>)"

record ('s, 'p) dealing =
  dl_dealer :: u32
  dl_commitments :: "'p list"
  dl_pok :: "'s sigma_proof"

record 's share =
  sh_dealer :: u32
  sh_recipient :: u32
  sh_value :: 's

text \<open>\<open>1..=n\<close>.\<close>

definition up_to :: "u32 \<Rightarrow> u32 list" where
  "up_to n = map word_of_nat [1..<Suc (unat n)]"

primrec draw_scalars :: "('s, 'p) group_env \<Rightarrow> nat \<Rightarrow> rng \<Rightarrow> 's list \<times> rng" where
  "draw_scalars E 0 rng = ([], rng)"
| "draw_scalars E (Suc n) rng =
     (let (x, rng') = random_scalar E rng; (xs, rng'') = draw_scalars E n rng' in (x # xs, rng''))"

definition dealer_ctx :: "bytes \<Rightarrow> u32 \<Rightarrow> bytes" where
  "dealer_ctx ctx dealer = ctx @ be_bytes dealer"

definition deal ::
    "('s::field, 'p::ab_group_add) group_env \<Rightarrow> u32 \<Rightarrow> threshold \<Rightarrow> bytes \<Rightarrow> rng \<Rightarrow>
     (trustee_error, ('s, 'p) dealing \<times> 's share list) result \<times> rng" where
  "deal E dealer th ctx rng =
     (if dealer = 0 \<or> dealer > th_n th then (Err TParameters, rng)
      else
        let (coeffs, rng1) = draw_scalars E (unat (th_t th)) rng;
            commitments = map (\<lambda>a. smul E a (gen E)) coeffs;
            (pok, rng2) = schnorr_prove E (coeffs ! 0) (commitments ! 0) DOMAIN_POK (dealer_ctx ctx dealer) rng1;
            shares = map (\<lambda>j. \<lparr>sh_dealer = dealer, sh_recipient = j, sh_value = eval coeffs j\<rparr>) (up_to (th_n th))
        in (Ok (\<lparr>dl_dealer = dealer, dl_commitments = commitments, dl_pok = pok\<rparr>, shares), rng2))"

definition cast_ctx :: "bytes \<Rightarrow> string \<Rightarrow> bytes" where
  "cast_ctx ctx tag = frame ctx (as_bytes tag)"

definition question_ctx :: "bytes \<Rightarrow> string \<Rightarrow> bytes" where
  "question_ctx ctx question = frame ctx (as_bytes question)"

definition verify_dealing ::
    "('s::field, 'p::ab_group_add) group_env \<Rightarrow> ('s, 'p) dealing \<Rightarrow> threshold \<Rightarrow> bytes \<Rightarrow> (trustee_error, unit) result" where
  "verify_dealing E d th ctx =
     (if dl_dealer d = 0 \<or> dl_dealer d > th_n th then Err TDealingInvalid
      else if length (dl_commitments d) \<noteq> unat (th_t th) then Err TDealingInvalid
      else if list_ex (\<lambda>c. c = 0) (dl_commitments d) then Err TDealingInvalid
      else if \<not> schnorr_verify E (dl_commitments d ! 0) (dl_pok d) DOMAIN_POK (dealer_ctx ctx (dl_dealer d))
        then Err TDealingInvalid
      else Ok ())"

definition verify_share ::
    "('s::field, 'p::ab_group_add) group_env \<Rightarrow> ('s, 'p) dealing \<Rightarrow> 's share \<Rightarrow> (trustee_error, unit) result" where
  "verify_share E d s =
     (if sh_dealer s \<noteq> dl_dealer d \<or>
         smul E (sh_value s) (gen E) \<noteq> eval_commitments E (dl_commitments d) (sh_recipient s)
      then Err TShareInvalid else Ok ())"

record 'p election_key =
  ek_threshold :: threshold
  ek_key :: 'p
  ek_qualified :: "u32 list"
  ek_verification :: "(u32, 'p) keyspace"

definition from_dealings ::
    "('s::field, 'p::ab_group_add) group_env \<Rightarrow> ('s, 'p) dealing list \<Rightarrow> threshold \<Rightarrow> bytes \<Rightarrow>
     (trustee_error, 'p election_key) result" where
  "from_dealings E dealings th ctx =
     (let dealers = sorted_list_of_set (set (map dl_dealer dealings))
      in if length dealers \<noteq> length dealings \<or> length dealings < unat (th_t th) then Err TDealingInvalid
         else res_bind (res_all (\<lambda>d. verify_dealing E d th ctx) dealings) (\<lambda>_.
           Ok \<lparr> ek_threshold = th,
                ek_key = sum_list (map (\<lambda>d. dl_commitments d ! 0) dealings),
                ek_qualified = dealers,
                ek_verification =
                  map (\<lambda>j. (j, sum_list (map (\<lambda>d. eval_commitments E (dl_commitments d) j) dealings)))
                    (up_to (th_n th)) \<rparr>))"

record 's trustee_key =
  tk_index :: u32
  tk_secret :: 's

primrec from_shares_loop ::
    "('s::field, 'p::ab_group_add) group_env \<Rightarrow> u32 \<Rightarrow> (u32 \<Rightarrow> ('s, 'p) dealing option) \<Rightarrow> 's share list \<Rightarrow> 's \<Rightarrow>
     (trustee_error, 's) result" where
  "from_shares_loop E index by_dealer [] secret = Ok secret"
| "from_shares_loop E index by_dealer (s # ss) secret =
     (if sh_recipient s \<noteq> index then Err TShareInvalid
      else case by_dealer (sh_dealer s) of
        None \<Rightarrow> Err TShareInvalid
      | Some d \<Rightarrow> res_bind (verify_share E d s) (\<lambda>_. from_shares_loop E index by_dealer ss (secret + sh_value s)))"

definition from_shares ::
    "('s::field, 'p::ab_group_add) group_env \<Rightarrow> u32 \<Rightarrow> 's share list \<Rightarrow> ('s, 'p) dealing list \<Rightarrow> 'p election_key \<Rightarrow>
     (trustee_error, 's trustee_key) result" where
  "from_shares E index shares dealings ek =
     (let by_dealer = map_of (rev (map (\<lambda>d. (dl_dealer d, d)) dealings));
          dealers = sorted_list_of_set (set (map sh_dealer shares))
      in if length dealers \<noteq> length shares \<or> length dealers \<noteq> card (set (map dl_dealer dealings)) \<or>
            dealers \<noteq> ek_qualified ek
         then Err TShareInvalid
         else res_bind (from_shares_loop E index by_dealer shares 0) (\<lambda>secret.
           if get_raw (ek_verification ek) index \<noteq> Some (smul E secret (gen E)) then Err TShareInvalid
           else Ok \<lparr>tk_index = index, tk_secret = secret\<rparr>))"

section \<open>Ciphertexts and threshold decryption\<close>

record 'p ciphertext =
  ct_a :: 'p
  ct_b :: 'p

definition ct_add :: "'p::ab_group_add ciphertext \<Rightarrow> 'p ciphertext \<Rightarrow> 'p ciphertext" where
  "ct_add c d = \<lparr>ct_a = ct_a c + ct_a d, ct_b = ct_b c + ct_b d\<rparr>"

definition ct_zero :: "'p::ab_group_add ciphertext" where
  "ct_zero = \<lparr>ct_a = 0, ct_b = 0\<rparr>"

record ('s, 'p) partial_decryption =
  pd_trustee :: u32
  pd_d :: 'p
  pd_proof :: "'s sigma_proof"

definition partial_decrypt ::
    "('s::field, 'p::ab_group_add) group_env \<Rightarrow> 's trustee_key \<Rightarrow> 'p ciphertext \<Rightarrow> bytes \<Rightarrow> rng \<Rightarrow>
     ('s, 'p) partial_decryption \<times> rng" where
  "partial_decrypt E key ct ctx rng =
     (let d = smul E (tk_secret key) (ct_a ct);
          y = smul E (tk_secret key) (gen E);
          (pf, rng') = cp_prove E (tk_secret key) (ct_a ct) y d DOMAIN_PARTIAL ctx rng
      in (\<lparr>pd_trustee = tk_index key, pd_d = d, pd_proof = pf\<rparr>, rng'))"

definition verify_partial ::
    "('s::field, 'p::ab_group_add) group_env \<Rightarrow> 'p election_key \<Rightarrow> 'p ciphertext \<Rightarrow> ('s, 'p) partial_decryption \<Rightarrow> bytes \<Rightarrow>
     (trustee_error, unit) result" where
  "verify_partial E ek ct p ctx =
     (case get_raw (ek_verification ek) (pd_trustee p) of
        None \<Rightarrow> Err TPartialInvalid
      | Some y \<Rightarrow> if cp_verify E (ct_a ct) y (pd_d p) (pd_proof p) DOMAIN_PARTIAL ctx then Ok () else Err TPartialInvalid)"

primrec choose_partials ::
    "('s::field, 'p::ab_group_add) group_env \<Rightarrow> 'p election_key \<Rightarrow> 'p ciphertext \<Rightarrow> bytes \<Rightarrow> ('s, 'p) partial_decryption list \<Rightarrow>
     (u32, 'p) keyspace \<Rightarrow> (trustee_error, (u32, 'p) keyspace) result" where
  "choose_partials E ek ct ctx [] chosen = Ok chosen"
| "choose_partials E ek ct ctx (p # ps) chosen =
     res_bind (verify_partial E ek ct p ctx) (\<lambda>_.
       choose_partials E ek ct ctx ps
         (if get_raw chosen (pd_trustee p) = None then insert_raw (pd_trustee p) (pd_d p) chosen else chosen))"

definition combine ::
    "('s::field, 'p::ab_group_add) group_env \<Rightarrow> 'p election_key \<Rightarrow> 'p ciphertext \<Rightarrow> ('s, 'p) partial_decryption list \<Rightarrow> bytes \<Rightarrow>
     (trustee_error, 'p) result" where
  "combine E ek ct partials ctx =
     res_bind (choose_partials E ek ct ctx partials []) (\<lambda>chosen.
       let need = unat (th_t (ek_threshold ek))
       in if length chosen < need then Err (TooFewPartials (length chosen) need)
          else
            let idx = take need (map fst chosen);
                xa = fold (\<lambda>j xa. xa + smul E (lagrange_at_zero j idx) (the (get_raw chosen j))) idx 0
            in Ok (ct_b ct - xa))"

section \<open>Sealed payloads\<close>

record 'p sealed =
  sl_kem :: "'p ciphertext"
  sl_body :: bytes

definition seal_key :: "('s, 'p) group_env \<Rightarrow> 'p \<Rightarrow> bytes" where
  "seal_key E r = sha256 E (be_bytes (word_of_nat (length DOMAIN_SEAL) :: u64) @ as_bytes DOMAIN_SEAL @ compress E r)"

definition seal_aad :: "('s, 'p) group_env \<Rightarrow> bytes \<Rightarrow> 'p ciphertext \<Rightarrow> bytes" where
  "seal_aad E ctx kem =
     be_bytes (word_of_nat (length ctx) :: u64) @ ctx @ compress E (ct_a kem) @ compress E (ct_b kem)"

definition NONCE :: bytes where "NONCE = replicate 12 0"

definition seal_to ::
    "('s::field, 'p::ab_group_add) group_env \<Rightarrow> 'p \<Rightarrow> bytes \<Rightarrow> bytes \<Rightarrow> rng \<Rightarrow> (trustee_error, 'p sealed) result \<times> rng" where
  "seal_to E to msg aad_ctx rng =
     (let (x, rng1) = random_scalar E rng;
          r_elem = smul E x (gen E);
          (r, rng2) = random_scalar E rng1;
          kem = \<lparr>ct_a = smul E r (gen E), ct_b = r_elem + smul E r to\<rparr>
      in (case aead_encrypt E (seal_key E r_elem) NONCE msg (seal_aad E aad_ctx kem) of
            None \<Rightarrow> Err TEncoding
          | Some body \<Rightarrow> Ok \<lparr>sl_kem = kem, sl_body = body\<rparr>, rng2))"

definition seal ::
    "('s::field, 'p::ab_group_add) group_env \<Rightarrow> 'p election_key \<Rightarrow> bytes \<Rightarrow> bytes \<Rightarrow> rng \<Rightarrow> (trustee_error, 'p sealed) result \<times> rng" where
  "seal E ek ballot ctx rng = seal_to E (ek_key ek) ballot ctx rng"

definition open_with :: "('s, 'p) group_env \<Rightarrow> 'p \<Rightarrow> 'p sealed \<Rightarrow> bytes \<Rightarrow> (trustee_error, bytes) result" where
  "open_with E r_elem s aad_ctx =
     (case aead_decrypt E (seal_key E r_elem) NONCE (sl_body s) (seal_aad E aad_ctx (sl_kem s)) of
        None \<Rightarrow> Err TSealedInvalid
      | Some m \<Rightarrow> Ok m)"

definition open_sealed ::
    "('s::field, 'p::ab_group_add) group_env \<Rightarrow> 'p election_key \<Rightarrow> 'p sealed \<Rightarrow> ('s, 'p) partial_decryption list \<Rightarrow> bytes \<Rightarrow>
     (trustee_error, bytes) result" where
  "open_sealed E ek s partials ctx =
     res_bind (combine E ek (sl_kem s) partials ctx) (\<lambda>r_elem. open_with E r_elem s ctx)"

section \<open>Transport keys and sealed shares\<close>

record ('s, 'p) transport_key =
  tp_trustee :: u32
  tp_key :: 'p
  tp_pok :: "'s sigma_proof"

record 's transport_secret =
  ts_trustee :: u32
  ts_secret :: 's

definition transport_generate :: "('s, 'p) group_env \<Rightarrow> u32 \<Rightarrow> rng \<Rightarrow> 's transport_secret \<times> rng" where
  "transport_generate E trustee rng =
     (let (x, rng') = random_scalar E rng in (\<lparr>ts_trustee = trustee, ts_secret = x\<rparr>, rng'))"

definition transport_from_bytes ::
    "('s::field, 'p) group_env \<Rightarrow> u32 \<Rightarrow> bytes \<Rightarrow> (trustee_error, 's transport_secret) result" where
  "transport_from_bytes E trustee bs =
     (case canonical E bs of
        None \<Rightarrow> Err TEncoding
      | Some x \<Rightarrow> if x = 0 then Err TEncoding else Ok \<lparr>ts_trustee = trustee, ts_secret = x\<rparr>)"

definition transport_from_wide ::
    "('s::field, 'p) group_env \<Rightarrow> u32 \<Rightarrow> bytes \<Rightarrow> (trustee_error, 's transport_secret) result" where
  "transport_from_wide E trustee w = transport_from_bytes E trustee (scalar_bytes E (wide E w))"

definition transport_publish ::
    "('s::field, 'p::ab_group_add) group_env \<Rightarrow> 's transport_secret \<Rightarrow> bytes \<Rightarrow> rng \<Rightarrow> ('s, 'p) transport_key \<times> rng" where
  "transport_publish E ts ctx rng =
     (let key = smul E (ts_secret ts) (gen E);
          (pok, rng') = schnorr_prove E (ts_secret ts) key DOMAIN_TRANSPORT (dealer_ctx ctx (ts_trustee ts)) rng
      in (\<lparr>tp_trustee = ts_trustee ts, tp_key = key, tp_pok = pok\<rparr>, rng'))"

definition verify_transport_key ::
    "('s::field, 'p::ab_group_add) group_env \<Rightarrow> ('s, 'p) transport_key \<Rightarrow> threshold \<Rightarrow> bytes \<Rightarrow> (trustee_error, unit) result" where
  "verify_transport_key E tk th ctx =
     (if tp_trustee tk = 0 \<or> tp_trustee tk > th_n th then Err TParameters
      else if tp_key tk = 0 \<or>
        \<not> schnorr_verify E (tp_key tk) (tp_pok tk) DOMAIN_TRANSPORT (dealer_ctx ctx (tp_trustee tk))
      then Err TDealingInvalid
      else Ok ())"

definition share_ctx :: "bytes \<Rightarrow> u32 \<Rightarrow> u32 \<Rightarrow> bytes" where
  "share_ctx ctx dealer recipient = ctx @ as_bytes ''share'' @ be_bytes dealer @ be_bytes recipient"

definition seal_share ::
    "('s::field, 'p::ab_group_add) group_env \<Rightarrow> 's share \<Rightarrow> ('s, 'p) transport_key \<Rightarrow> bytes \<Rightarrow> rng \<Rightarrow>
     (trustee_error, 'p sealed) result \<times> rng" where
  "seal_share E share to ctx rng =
     (if tp_trustee to \<noteq> sh_recipient share then (Err TParameters, rng)
      else seal_to E (tp_key to) (scalar_bytes E (sh_value share))
        (share_ctx ctx (sh_dealer share) (sh_recipient share)) rng)"

definition open_share ::
    "('s::field, 'p::ab_group_add) group_env \<Rightarrow> 's transport_secret \<Rightarrow> u32 \<Rightarrow> 'p sealed \<Rightarrow> bytes \<Rightarrow> (trustee_error, 's share) result" where
  "open_share E secret dealer sealed ctx =
     (let r_elem = ct_b (sl_kem sealed) - smul E (ts_secret secret) (ct_a (sl_kem sealed))
      in case open_with E r_elem sealed (share_ctx ctx dealer (ts_trustee secret)) of
           Err _ \<Rightarrow> Err TShareInvalid
         | Ok bs \<Rightarrow>
             if length bs \<noteq> 32 then Err TShareInvalid
             else case canonical E bs of
               None \<Rightarrow> Err TShareInvalid
             | Some v \<Rightarrow> Ok \<lparr>sh_dealer = dealer, sh_recipient = ts_trustee secret, sh_value = v\<rparr>)"

section \<open>Helpers\<close>

lemma unat_u32_less: "unat (w :: u32) < 4294967296"
  using unsigned_less [of w, where 'a = nat] by simp

lemma set_up_to: "j \<in> set (up_to n) \<longleftrightarrow> j \<noteq> 0 \<and> j \<le> n"
proof
  assume "j \<in> set (up_to n)"
  then obtain k where k: "j = word_of_nat k" "1 \<le> k" "k \<le> unat n" by (auto simp: up_to_def)
  have "k < 4294967296" using k(3) unat_u32_less [of n] by linarith
  then have "unat (word_of_nat k :: u32) = k" by (simp add: unat_of_nat)
  then show "j \<noteq> 0 \<and> j \<le> n" using k by (auto simp: word_le_nat_alt)
next
  assume "j \<noteq> 0 \<and> j \<le> n"
  then have "unat j \<in> {1..<Suc (unat n)}" by (auto simp: word_le_nat_alt unat_gt_0 Suc_le_eq)
  moreover have "j = word_of_nat (unat j)" by simp
  ultimately show "j \<in> set (up_to n)" unfolding up_to_def set_map set_upt by (metis imageI)
qed

lemma get_raw_map_keys:
  "get_raw (map (\<lambda>j. (j, f j)) js) k = (if k \<in> set js then Some (f k) else None)"
  by (induction js) (auto simp: get_raw_def)

lemma fold_add_sum_list: "fold (\<lambda>j acc. acc + f j) js (z :: 'p::ab_group_add) = z + sum_list (map f js)"
  by (induction js arbitrary: z) (simp_all add: add.assoc)

text \<open>The key polynomials of a set of dealings, in the exponent.\<close>

definition joint :: "('s::field, 'p::ab_group_add) group_env \<Rightarrow> ('s, 'p) dealing list \<Rightarrow> 's \<Rightarrow> 's" where
  "joint E dealings x = sum_list (map (\<lambda>d. horner (map (dlog E) (dl_commitments d)) x) dealings)"

lemma dlog_sum_list: "prime_order_group E \<Longrightarrow> dlog E (sum_list (map f xs)) = sum_list (map (\<lambda>x. dlog E (f x)) xs)"
  by (induction xs) (simp_all add: dlog_simps)

lemma from_dealings_Ok:
  assumes E: "prime_order_group E" and "from_dealings E dealings th ctx = Ok ek" "0 < th_t th"
  shows "ek_threshold ek = th" "dlog E (ek_key ek) = joint E dealings 0"
    "get_raw (ek_verification ek) j = (if j \<noteq> 0 \<and> j \<le> th_n th then Some (smul E (joint E dealings (sc j)) (gen E)) else None)"
    "\<forall>d\<in>set dealings. length (dl_commitments d) = unat (th_t th)"
    "ek_qualified ek = sorted_list_of_set (set (map dl_dealer dealings))"
    "unat (th_t th) \<le> length (ek_qualified ek)"
proof -
  note ok = assms(2) [unfolded from_dealings_def Let_def]
  show "ek_threshold ek = th" "ek_qualified ek = sorted_list_of_set (set (map dl_dealer dealings))"
    "unat (th_t th) \<le> length (ek_qualified ek)"
    using ok by (auto simp: res_bind_Ok_iff split: if_splits)
  show len: "\<forall>d\<in>set dealings. length (dl_commitments d) = unat (th_t th)"
    using ok by (auto simp: res_bind_Ok_iff res_all_Ok_iff verify_dealing_def split: if_splits)
  have key: "ek_key ek = sum_list (map (\<lambda>d. dl_commitments d ! 0) dealings)"
    and ver: "ek_verification ek =
      map (\<lambda>j. (j, sum_list (map (\<lambda>d. eval_commitments E (dl_commitments d) j) dealings))) (up_to (th_n th))"
    using ok by (auto simp: res_bind_Ok_iff split: if_splits)
  have "0 < unat (th_t th)" using assms(3) by (simp add: word_gt_0 unat_gt_0)
  then have "horner (map (dlog E) (dl_commitments d)) 0 = dlog E (dl_commitments d ! 0)" if "d \<in> set dealings" for d
    using len that by (cases "dl_commitments d") auto
  then show "dlog E (ek_key ek) = joint E dealings 0"
    by (simp add: key joint_def dlog_sum_list [OF E] cong: map_cong)
  have "sum_list (map (\<lambda>d. eval_commitments E (dl_commitments d) j) dealings) = smul E (joint E dealings (sc j)) (gen E)"
    using smul_dlog [OF E, of "sum_list (map (\<lambda>d. eval_commitments E (dl_commitments d) j) dealings)"]
    by (simp add: dlog_sum_list [OF E] eval_commitments_dlog [OF E] joint_def)
  then show "get_raw (ek_verification ek) j = (if j \<noteq> 0 \<and> j \<le> th_n th then Some (smul E (joint E dealings (sc j)) (gen E)) else None)"
    by (simp add: ver get_raw_map_keys set_up_to)
qed

section \<open>Threshold decryption is correct\<close>

lemma choose_partials_Ok:
  assumes "choose_partials E ek ct ctx ps chosen = Ok final" "ks_ordered chosen"
  shows "ks_ordered final \<and> (\<forall>p\<in>set ps. verify_partial E ek ct p ctx = Ok ()) \<and>
    keys_of final = keys_of chosen \<union> pd_trustee ` set ps \<and>
    (\<forall>j d. get_raw final j = Some d \<longrightarrow> get_raw chosen j = Some d \<or> (\<exists>p\<in>set ps. pd_trustee p = j \<and> pd_d p = d))"
  using assms
proof (induction ps arbitrary: chosen)
  case (Cons p ps)
  let ?next = "if get_raw chosen (pd_trustee p) = None then insert_raw (pd_trustee p) (pd_d p) chosen else chosen"
  have v: "verify_partial E ek ct p ctx = Ok ()" and rest: "choose_partials E ek ct ctx ps ?next = Ok final"
    using Cons.prems(1) by (auto simp: res_bind_Ok_iff)
  have "ks_ordered ?next" using Cons.prems(2) by (simp add: ordered_insert)
  note IH = Cons.IH [OF rest this]
  have "keys_of ?next = insert (pd_trustee p) (keys_of chosen)"
    by (auto simp: keys_of_insert get_raw_None_iff)
  moreover have "get_raw ?next j = Some d \<Longrightarrow> get_raw chosen j = Some d \<or> pd_trustee p = j \<and> pd_d p = d" for j d
    by (auto split: if_splits)
  ultimately show ?case using IH v by fastforce
qed auto

lemma choose_partials_all:
  "(\<forall>p\<in>set ps. verify_partial E ek ct p ctx = Ok ()) \<Longrightarrow> \<exists>final. choose_partials E ek ct ctx ps chosen = Ok final"
  by (induction ps arbitrary: chosen) auto

lemma joint_interpolates:
  assumes "finite S" "\<forall>d\<in>set dealings. length (dl_commitments d) \<le> card S"
  shows "(\<Sum>j\<in>S. lam S j * joint E dealings j) = joint E dealings 0"
  using assms(2)
proof (induction dealings)
  case (Cons d ds)
  have "(\<Sum>j\<in>S. lam S j * joint E (d # ds) j) =
      (\<Sum>j\<in>S. lam S j * horner (map (dlog E) (dl_commitments d)) j) + (\<Sum>j\<in>S. lam S j * joint E ds j)"
    by (simp add: joint_def distrib_left sum.distrib)
  then show ?case using Cons lagrange [OF assms(1), of "map (dlog E) (dl_commitments d)"] by (simp add: joint_def)
qed (simp add: joint_def)

lemma fold_interpolates:
  fixes E :: "('s::field, 'p::ab_group_add) group_env"
  assumes E: "prime_order_group E" and dist: "distinct idx"
    and val: "\<And>j. j \<in> set idx \<Longrightarrow> f j = smul E (joint E dealings (sc j)) A"
    and len: "\<forall>d\<in>set dealings. length (dl_commitments d) = length idx"
  shows "fold (\<lambda>j xa. xa + smul E (lagrange_at_zero j idx) (f j)) idx 0 = smul E (joint E dealings 0) A"
proof -
  let ?x = "sc :: u32 \<Rightarrow> 's"
  let ?S = "?x ` set idx"
  have inj: "inj_on ?x (set idx)" by (auto simp: inj_on_def sc_inj [OF E])
  have card: "card ?S = length idx" using dist by (simp add: card_image [OF inj] distinct_card)
  have "fold (\<lambda>j xa. xa + smul E (lagrange_at_zero j idx) (f j)) idx 0 =
      sum_list (map (\<lambda>j. smul E (lagrange_at_zero j idx) (f j)) idx)"
    by (simp add: fold_add_sum_list)
  also have "map (\<lambda>j. smul E (lagrange_at_zero j idx) (f j)) idx =
      map (\<lambda>j. smul E (lam ?S (?x j) * joint E dealings (?x j)) A) idx"
    by (rule map_cong [OF refl]) (simp add: val lagrange_at_zero_lam [OF E dist] smul_smul [OF E])
  also have "sum_list \<dots> = smul E (\<Sum>j\<in>set idx. lam ?S (?x j) * joint E dealings (?x j)) A"
    unfolding smul_sum_list [OF E] sum_list_distinct_conv_sum_set [OF dist] ..
  also have "(\<Sum>j\<in>set idx. lam ?S (?x j) * joint E dealings (?x j)) = (\<Sum>x\<in>?S. lam ?S x * joint E dealings x)"
    by (simp add: sum.reindex [OF inj])
  also have "\<dots> = joint E dealings 0"
    using joint_interpolates [of ?S dealings E] len card by simp
  finally show ?thesis .
qed

text \<open>Whichever verified partials are used, the plaintext is \<open>B - x A\<close> for the key's own \<open>x\<close>.\<close>

lemma combine_plaintext:
  assumes E: "prime_order_group E" and ek: "from_dealings E dealings th ctx0 = Ok ek" "0 < th_t th"
    and c: "combine E ek ct ps ctx = Ok m"
    and honest: "\<forall>p\<in>set ps. \<forall>y. get_raw (ek_verification ek) (pd_trustee p) = Some y \<longrightarrow>
      \<not> cp_lucky E (ct_a ct) y (pd_d p) (pd_proof p) DOMAIN_PARTIAL ctx"
  shows "m = ct_b ct - smul E (dlog E (ek_key ek)) (ct_a ct)"
proof -
  note K = from_dealings_Ok [OF E ek]
  let ?n = "unat (th_t th)"
  obtain chosen where ch: "choose_partials E ek ct ctx ps [] = Ok chosen" and len: "?n \<le> length chosen"
    and m: "m = ct_b ct - fold (\<lambda>j xa. xa + smul E (lagrange_at_zero j (take ?n (map fst chosen))) (the (get_raw chosen j)))
      (take ?n (map fst chosen)) 0"
    using c K(1) by (auto simp: combine_def Let_def res_bind_Ok_iff split: if_splits)
  let ?idx = "take ?n (map fst chosen)"
  have ch2: "ks_ordered chosen" "\<forall>p\<in>set ps. verify_partial E ek ct p ctx = Ok ()"
    "\<And>j d. get_raw chosen j = Some d \<Longrightarrow> \<exists>p\<in>set ps. pd_trustee p = j \<and> pd_d p = d"
    using choose_partials_Ok [OF ch] by (auto simp: ks_ordered_def get_raw_def)
  have dist: "distinct ?idx" using ordered_distinct [OF ch2(1)] by (simp add: distinct_take)
  have val: "the (get_raw chosen j) = smul E (joint E dealings (sc j)) (ct_a ct)" if "j \<in> set ?idx" for j
  proof -
    have "j \<in> keys_of chosen" using that by (auto simp: keys_of_def dest: in_set_takeD)
    then obtain d where d: "get_raw chosen j = Some d" by (metis get_raw_None_iff option.exhaust)
    then obtain p where p: "p \<in> set ps" "pd_trustee p = j" "pd_d p = d" using ch2(3) by blast
    then obtain y where y: "get_raw (ek_verification ek) j = Some y" "cp_verify E (ct_a ct) y d (pd_proof p) DOMAIN_PARTIAL ctx"
      using ch2(2) by (fastforce simp: verify_partial_def split: option.splits if_splits)
    then have "d = smul E (dlog E y) (ct_a ct)" using cp_sound [OF E y(2)] honest p by blast
    moreover have "dlog E y = joint E dealings (sc j)" using y(1) K(3) [of j] by (auto simp: dlog_gen [OF E] split: if_splits)
    ultimately show ?thesis using d by simp
  qed
  have "length ?idx = ?n" using len by simp
  then have "fold (\<lambda>j xa. xa + smul E (lagrange_at_zero j ?idx) (the (get_raw chosen j))) ?idx 0 =
      smul E (joint E dealings 0) (ct_a ct)"
    using K(4) by (intro fold_interpolates [OF E dist val]) simp_all
  then show ?thesis by (simp only: m K(2))
qed

section \<open>Honest parties succeed\<close>

lemma draw_scalars_length [simp]: "length (fst (draw_scalars E n rng)) = n"
  by (induction n arbitrary: rng) (simp_all add: case_prod_unfold Let_def)

lemma commitments_of_coeffs:
  "prime_order_group E \<Longrightarrow>
   eval_commitments E (map (\<lambda>a. smul E a (gen E)) coeffs) j = smul E (eval coeffs j) (gen E)"
  using smul_dlog [of E "eval_commitments E (map (\<lambda>a. smul E a (gen E)) coeffs) j"]
  by (simp add: eval_commitments_dlog eval_horner dlog_gen comp_def)

lemma deal_Ok:
  assumes "fst (deal E dealer th ctx rng) = Ok (d, shares)"
  shows "d = \<lparr>dl_dealer = dealer, dl_commitments = map (\<lambda>a. smul E a (gen E)) (fst (draw_scalars E (unat (th_t th)) rng)),
      dl_pok = fst (schnorr_prove E (fst (draw_scalars E (unat (th_t th)) rng) ! 0)
        (map (\<lambda>a. smul E a (gen E)) (fst (draw_scalars E (unat (th_t th)) rng)) ! 0) DOMAIN_POK (dealer_ctx ctx dealer)
        (snd (draw_scalars E (unat (th_t th)) rng)))\<rparr>"
    and "shares = map (\<lambda>j. \<lparr>sh_dealer = dealer, sh_recipient = j,
        sh_value = eval (fst (draw_scalars E (unat (th_t th)) rng)) j\<rparr>) (up_to (th_n th))"
    and "dealer \<noteq> 0 \<and> dealer \<le> th_n th"
  using assms by (auto simp: deal_def Let_def case_prod_unfold split: if_splits)

lemma deal_verifies:
  assumes E: "prime_order_group E" and d: "fst (deal E dealer th ctx rng) = Ok (d, shares)" and t: "0 < th_t th"
    and nz: "\<forall>a\<in>set (fst (draw_scalars E (unat (th_t th)) rng)). a \<noteq> 0"
  shows "verify_dealing E d th ctx = Ok ()" and "s \<in> set shares \<Longrightarrow> verify_share E d s = Ok ()"
proof -
  note D = deal_Ok [OF d]
  let ?cs = "fst (draw_scalars E (unat (th_t th)) rng)"
  have "0 < length ?cs" using t by (simp add: word_gt_0 unat_gt_0)
  moreover have "\<not> list_ex (\<lambda>c. c = 0) (map (\<lambda>a. smul E a (gen E)) ?cs)"
    using nz smul_gen_0 [OF E] by (auto simp: list_ex_iff)
  ultimately show "verify_dealing E d th ctx = Ok ()"
    using D(3) schnorr_complete [OF E, of "?cs ! 0"] unfolding verify_dealing_def D(1) by (auto simp: not_less)
  show "s \<in> set shares \<Longrightarrow> verify_share E d s = Ok ()"
    by (auto simp: verify_share_def D(1,2) commitments_of_coeffs [OF E])
qed

lemma get_raw_Some_verification:
  "from_shares E index shares dealings ek = Ok key \<Longrightarrow>
   tk_index key = index \<and> get_raw (ek_verification ek) index = Some (smul E (tk_secret key) (gen E))"
  by (auto simp: from_shares_def Let_def res_bind_Ok_iff split: if_splits)

lemma partial_decrypt_verifies:
  assumes E: "prime_order_group E" and "from_shares E index shares dealings ek = Ok key"
  shows "verify_partial E ek ct (fst (partial_decrypt E key ct ctx rng)) ctx = Ok ()"
    and "pd_trustee (fst (partial_decrypt E key ct ctx rng)) = index"
  using get_raw_Some_verification [OF assms(2)] cp_complete [OF E, of "ct_a ct" "tk_secret key"]
  by (simp_all add: verify_partial_def partial_decrypt_def Let_def case_prod_unfold)

lemma honest_not_lucky:
  assumes E: "prime_order_group E" and "from_shares E index shares dealings ek = Ok key"
    and "get_raw (ek_verification ek) index = Some y"
  shows "\<not> cp_lucky E (ct_a ct) y (pd_d (fst (partial_decrypt E key ct ctx rng))) p domain ctx'"
proof -
  have "y = smul E (tk_secret key) (gen E)" using get_raw_Some_verification [OF assms(2)] assms(3) by simp
  then show ?thesis
    by (simp add: cp_lucky_def partial_decrypt_def Let_def case_prod_unfold dlog_simps [OF E])
qed

text \<open>Partials made by the holders of at least \<open>t\<close> keys combine to the element that was encrypted.\<close>

lemma combine_honest:
  assumes E: "prime_order_group E" and ek: "from_dealings E dealings th ctx0 = Ok ek" "0 < th_t th"
    and keys: "\<forall>k\<in>set keys. \<exists>shares ds. from_shares E (tk_index k) shares ds ek = Ok k"
    and many: "unat (th_t th) \<le> card (tk_index ` set keys)"
  shows "combine E ek \<lparr>ct_a = smul E r (gen E), ct_b = M + smul E r (ek_key ek)\<rparr>
     (map (\<lambda>k. fst (partial_decrypt E k \<lparr>ct_a = smul E r (gen E), ct_b = M + smul E r (ek_key ek)\<rparr> ctx (rngs k))) keys) ctx = Ok M"
proof -
  let ?ct = "\<lparr>ct_a = smul E r (gen E), ct_b = M + smul E r (ek_key ek)\<rparr>"
  let ?ps = "map (\<lambda>k. fst (partial_decrypt E k ?ct ctx (rngs k))) keys"
  have ok: "\<forall>p\<in>set ?ps. verify_partial E ek ?ct p ctx = Ok ()"
  proof
    fix p assume "p \<in> set ?ps"
    then obtain k where k: "k \<in> set keys" "p = fst (partial_decrypt E k ?ct ctx (rngs k))" by auto
    obtain shares ds where "from_shares E (tk_index k) shares ds ek = Ok k" using keys k(1) by blast
    then show "verify_partial E ek ?ct p ctx = Ok ()" unfolding k(2) by (rule partial_decrypt_verifies(1) [OF E])
  qed
  have idx: "pd_trustee ` set ?ps = tk_index ` set keys"
    unfolding set_map image_image by (rule image_cong [OF refl]) (use keys partial_decrypt_verifies(2) [OF E] in blast)
  obtain chosen where ch: "choose_partials E ek ?ct ctx ?ps [] = Ok chosen" using choose_partials_all [OF ok] by blast
  have "ks_ordered chosen" "keys_of chosen = tk_index ` set keys"
    using choose_partials_Ok [OF ch] idx by (auto simp: ks_ordered_def keys_of_def)
  then have "length chosen = card (tk_index ` set keys)"
    using distinct_card [OF ordered_distinct, of chosen] by (simp add: keys_of_def)
  then obtain m where m: "combine E ek ?ct ?ps ctx = Ok m"
    using ch many from_dealings_Ok(1) [OF E ek] by (auto simp: combine_def Let_def)
  have "\<forall>p\<in>set ?ps. \<forall>y. get_raw (ek_verification ek) (pd_trustee p) = Some y \<longrightarrow>
      \<not> cp_lucky E (ct_a ?ct) y (pd_d p) (pd_proof p) DOMAIN_PARTIAL ctx"
  proof (intro ballI allI impI)
    fix p y assume "p \<in> set ?ps" and y: "get_raw (ek_verification ek) (pd_trustee p) = Some y"
    then obtain k where k: "k \<in> set keys" "p = fst (partial_decrypt E k ?ct ctx (rngs k))" by auto
    then obtain shares ds where s: "from_shares E (tk_index k) shares ds ek = Ok k" using keys by blast
    have "get_raw (ek_verification ek) (tk_index k) = Some y"
      using y partial_decrypt_verifies(2) [OF E s] k(2) by simp
    then show "\<not> cp_lucky E (ct_a ?ct) y (pd_d p) (pd_proof p) DOMAIN_PARTIAL ctx"
      unfolding k(2) by (rule honest_not_lucky [OF E s])
  qed
  from combine_plaintext [OF E ek m this] have "m = M + smul E r (ek_key ek) - smul E (dlog E (ek_key ek)) (smul E r (gen E))"
    by simp
  also have "smul E (dlog E (ek_key ek)) (smul E r (gen E)) = smul E r (ek_key ek)"
    using smul_dlog [OF E, of "ek_key ek"] by (metis smul_smul [OF E] mult.commute)
  finally show ?thesis using m by simp
qed

lemma map_of_rev_dealings:
  assumes "distinct (map dl_dealer ds)" "d \<in> set ds"
  shows "map_of (rev (map (\<lambda>d. (dl_dealer d, d)) ds)) (dl_dealer d) = Some d"
proof (rule map_of_is_SomeI)
  have "map fst (map (\<lambda>d. (dl_dealer d, d)) ds) = map dl_dealer ds" by (simp add: comp_def)
  then show "distinct (map fst (rev (map (\<lambda>d. (dl_dealer d, d)) ds)))" using assms(1) by (simp only: rev_map [symmetric] distinct_rev)
qed (use assms(2) in simp)

lemma from_shares_loop_sum:
  assumes "list_all2 (\<lambda>d s. verify_share E d s = Ok () \<and> sh_recipient s = j) ds ss"
    and "\<forall>d\<in>set ds. by_dealer (dl_dealer d) = Some d"
  shows "from_shares_loop E j by_dealer ss acc = Ok (acc + sum_list (map sh_value ss))"
  using assms
proof (induction arbitrary: acc rule: list_all2_induct)
  case (Cons d ds s ss)
  then have "sh_dealer s = dl_dealer d" by (auto simp: verify_share_def split: if_splits)
  then show ?case using Cons by (simp add: add.assoc)
qed simp

lemma verified_shares:
  assumes "prime_order_group E" and "list_all2 (\<lambda>d s. verify_share E d s = Ok () \<and> sh_recipient s = j) ds ss"
  shows "map sh_dealer ss = map dl_dealer ds"
    and "smul E (sum_list (map sh_value ss)) (gen E) = sum_list (map (\<lambda>d. eval_commitments E (dl_commitments d) j) ds)"
  using assms(2)
  by (induction rule: list_all2_induct)
    (auto simp: verify_share_def smul_plus [OF assms(1)] smul_zero_left [OF assms(1)] split: if_splits)

text \<open>A trustee that holds a verified share from every qualified dealer obtains its key.\<close>

lemma from_shares_complete:
  assumes E: "prime_order_group E" and ek: "from_dealings E ds th ctx = Ok ek" "0 < th_t th"
    and j: "j \<noteq> 0" "j \<le> th_n th"
    and ss: "list_all2 (\<lambda>d s. verify_share E d s = Ok () \<and> sh_recipient s = j) ds ss"
  shows "from_shares E j ss ds ek = Ok \<lparr>tk_index = j, tk_secret = sum_list (map sh_value ss)\<rparr>"
proof -
  have "length (sorted_list_of_set (set (map dl_dealer ds))) = length ds"
    using ek(1) by (auto simp: from_dealings_def Let_def split: if_splits)
  then have dist: "distinct (map dl_dealer ds)" by (simp add: distinct_card card_distinct)
  have loop: "from_shares_loop E j (map_of (rev (map (\<lambda>d. (dl_dealer d, d)) ds))) ss 0 = Ok (sum_list (map sh_value ss))"
    using from_shares_loop_sum [OF ss] map_of_rev_dealings [OF dist] by simp
  have ver: "get_raw (ek_verification ek) j = Some (smul E (sum_list (map sh_value ss)) (gen E))"
    using ek(1) j
    by (auto simp: verified_shares(2) [OF E ss] from_dealings_def Let_def res_bind_Ok_iff get_raw_map_keys set_up_to split: if_splits)
  have "length ss = length ds" using list_all2_lengthD [OF ss] by simp
  then show ?thesis
    using loop ver from_dealings_Ok(5) [OF E ek] verified_shares(1) [OF E ss] distinct_card [OF dist]
    by (simp add: from_shares_def Let_def)
qed

section \<open>Sealed payloads\<close>

definition aead_round_trip :: "('s, 'p) group_env \<Rightarrow> bool" where
  "aead_round_trip E \<longleftrightarrow> (\<forall>k n m a c. aead_encrypt E k n m a = Some c \<longrightarrow> aead_decrypt E k n c a = Some m)"

lemma seal_to_Ok:
  assumes "fst (seal_to E to msg ctx rng) = Ok s"
  shows "\<exists>x r. sl_kem s = \<lparr>ct_a = smul E r (gen E), ct_b = smul E x (gen E) + smul E r to\<rparr> \<and>
    aead_encrypt E (seal_key E (smul E x (gen E))) NONCE msg (seal_aad E ctx (sl_kem s)) = Some (sl_body s)"
  using assms
  by (intro exI [of _ "fst (random_scalar E rng)"] exI [of _ "fst (random_scalar E (snd (random_scalar E rng)))"])
    (auto simp: seal_to_def Let_def case_prod_unfold split: option.splits)

lemma open_sealed_payload:
  assumes "aead_round_trip E"
    and "aead_encrypt E (seal_key E r_elem) NONCE msg (seal_aad E ctx (sl_kem s)) = Some (sl_body s)"
  shows "open_with E r_elem s ctx = Ok msg"
  using assms by (auto simp: open_with_def aead_round_trip_def split: option.splits)

lemma open_share_seals:
  assumes E: "prime_order_group E" and A: "aead_round_trip E"
    and enc: "canonical E (scalar_bytes E (sh_value share)) = Some (sh_value share)" "length (scalar_bytes E (sh_value share)) = 32"
    and to: "tp_key to = smul E (ts_secret secret) (gen E)" "tp_trustee to = ts_trustee secret"
    and s: "fst (seal_share E share to ctx rng) = Ok s"
  shows "open_share E secret (sh_dealer share) s ctx = Ok share"
proof -
  have r: "sh_recipient share = ts_trustee secret" using s to(2) by (auto simp: seal_share_def split: if_splits)
  obtain x r where kem: "sl_kem s = \<lparr>ct_a = smul E r (gen E), ct_b = smul E x (gen E) + smul E r (tp_key to)\<rparr>"
    and body: "aead_encrypt E (seal_key E (smul E x (gen E))) NONCE (scalar_bytes E (sh_value share))
      (seal_aad E (share_ctx ctx (sh_dealer share) (sh_recipient share)) (sl_kem s)) = Some (sl_body s)"
    using s to(2) r seal_to_Ok [of E "tp_key to"] by (fastforce simp: seal_share_def split: if_splits)
  have "ct_b (sl_kem s) - smul E (ts_secret secret) (ct_a (sl_kem s)) = smul E x (gen E)"
    by (simp add: kem to(1) smul_smul [OF E] mult.commute)
  then show ?thesis
    using open_sealed_payload [OF A body] enc r by (simp add: open_share_def Let_def)
qed

section \<open>What the trustees are promised\<close>

text \<open>The holders of keys made from verified shares of the election key.\<close>

definition holds_key :: "('s::field, 'p::ab_group_add) group_env \<Rightarrow> 'p election_key \<Rightarrow> 's trustee_key \<Rightarrow> bool" where
  "holds_key E ek k \<longleftrightarrow> (\<exists>shares ds. from_shares E (tk_index k) shares ds ek = Ok k)"

definition unlucky :: "('s::field, 'p::ab_group_add) group_env \<Rightarrow> 'p election_key \<Rightarrow> 'p ciphertext \<Rightarrow> bytes \<Rightarrow> ('s, 'p) partial_decryption \<Rightarrow> bool" where
  "unlucky E ek ct ctx p \<longleftrightarrow> (\<forall>y. get_raw (ek_verification ek) (pd_trustee p) = Some y \<longrightarrow>
     \<not> cp_lucky E (ct_a ct) y (pd_d p) (pd_proof p) DOMAIN_PARTIAL ctx)"

definition encryption :: "('s::field, 'p::ab_group_add) group_env \<Rightarrow> 'p \<Rightarrow> 's \<Rightarrow> 'p \<Rightarrow> 'p ciphertext" where
  "encryption E key r M = \<lparr>ct_a = smul E r (gen E), ct_b = M + smul E r key\<rparr>"

text \<open>C13: threshold decryption. The partials of any \<open>t\<close> or more distinct key holders are accepted and
  combine to the element that was encrypted; and whatever set of partials is accepted, the element combined
  from it is the same, the one the election key decrypts, unless a proof of a false statement was met by
  the one challenge that makes it pass.\<close>

theorem threshold_decryption_correct:
  assumes "prime_order_group E" "from_dealings E dealings th ctx0 = Ok ek" "0 < th_t th"
  shows "(\<forall>keys rngs r M ctx. (\<forall>k\<in>set keys. holds_key E ek k) \<and> unat (th_t th) \<le> card (tk_index ` set keys) \<longrightarrow>
      combine E ek (encryption E (ek_key ek) r M)
        (map (\<lambda>k. fst (partial_decrypt E k (encryption E (ek_key ek) r M) ctx (rngs k))) keys) ctx = Ok M) \<and>
    (\<forall>ps r M ctx m. combine E ek (encryption E (ek_key ek) r M) ps ctx = Ok m \<and>
      (\<forall>p\<in>set ps. unlucky E ek (encryption E (ek_key ek) r M) ctx p) \<longrightarrow> m = M)"
proof (intro conjI allI impI)
  fix keys rngs r M ctx
  assume "(\<forall>k\<in>set keys. holds_key E ek k) \<and> unat (th_t th) \<le> card (tk_index ` set keys)"
  then show "combine E ek (encryption E (ek_key ek) r M)
        (map (\<lambda>k. fst (partial_decrypt E k (encryption E (ek_key ek) r M) ctx (rngs k))) keys) ctx = Ok M"
    unfolding encryption_def by (intro combine_honest [OF assms]) (auto simp: holds_key_def)
next
  fix ps r M ctx m
  assume a: "combine E ek (encryption E (ek_key ek) r M) ps ctx = Ok m \<and>
      (\<forall>p\<in>set ps. unlucky E ek (encryption E (ek_key ek) r M) ctx p)"
  then have "m = ct_b (encryption E (ek_key ek) r M) - smul E (dlog E (ek_key ek)) (ct_a (encryption E (ek_key ek) r M))"
    by (intro combine_plaintext [OF assms]) (auto simp: unlucky_def)
  moreover have "smul E (dlog E (ek_key ek)) (smul E r (gen E)) = smul E r (ek_key ek)"
    using smul_dlog [OF assms(1), of "ek_key ek"] by (metis smul_smul [OF assms(1)] mult.commute)
  ultimately show "m = M" by (simp add: encryption_def)
qed

text \<open>A group to compute in: the rationals, with every hash equal to one.\<close>

definition example_env :: "(rat, rat) group_env" where
  "example_env = \<lparr> smul = (*), gen = 1, compress = (\<lambda>p. replicate (to_nat p) 0), decompress = (\<lambda>_. None),
     wide = (\<lambda>_. 1), scalar_bytes = (\<lambda>_. replicate 32 0), canonical = (\<lambda>_. Some 2), sha512 = (\<lambda>_. []),
     sha256 = (\<lambda>_. []), mb_encode = (\<lambda>_ _. []), mb_decode = (\<lambda>_. None),
     aead_encrypt = (\<lambda>_ _ m _. Some m), aead_decrypt = (\<lambda>_ _ c _. Some c) \<rparr>"

lemma example_group [simp]: "prime_order_group example_env"
proof -
  have "inj (\<lambda>p :: rat. replicate (to_nat p) (0 :: u8))"
    by (rule injI) (metis length_replicate to_nat_split from_nat_to_nat)
  then show ?thesis
    by (auto simp: prime_order_group_def example_env_def algebra_simps inj_on_def)
qed

definition example_dealing :: "u32 \<Rightarrow> (rat, rat) dealing" where
  "example_dealing i = \<lparr>dl_dealer = i, dl_commitments = [1, 1], dl_pok = \<lparr>sp_c = 1, sp_z = 2\<rparr>\<rparr>"

definition example_threshold :: threshold where
  "example_threshold = \<lparr>th_t = 2, th_n = 2\<rparr>"

definition example_ek :: "rat election_key" where
  "example_ek = \<lparr>ek_threshold = example_threshold, ek_key = 2, ek_qualified = [1, 2], ek_verification = [(1, 4), (2, 6)]\<rparr>"

lemma example_key: "from_dealings example_env [example_dealing 1, example_dealing 2] example_threshold ctx = Ok example_ek"
  by (simp add: from_dealings_def example_dealing_def example_threshold_def example_ek_def verify_dealing_def
      schnorr_verify_def challenge_def example_env_def up_to_def eval_commitments_def sc_def Let_def upt_rec)

lemma example_holder:
  "holds_key example_env example_ek \<lparr>tk_index = 1, tk_secret = 4\<rparr>"
  "holds_key example_env example_ek \<lparr>tk_index = 2, tk_secret = 6\<rparr>"
proof -
  let ?ss = "\<lambda>j v. [\<lparr>sh_dealer = 1, sh_recipient = j, sh_value = v\<rparr>, \<lparr>sh_dealer = 2, sh_recipient = j, sh_value = v\<rparr>]"
  let ?ds = "[example_dealing 1, example_dealing 2]"
  have "from_shares example_env 1 (?ss 1 2) ?ds example_ek = Ok \<lparr>tk_index = 1, tk_secret = 4\<rparr>"
    "from_shares example_env 2 (?ss 2 3) ?ds example_ek = Ok \<lparr>tk_index = 2, tk_secret = 6\<rparr>"
    by (simp_all add: from_shares_def verify_share_def example_dealing_def example_env_def example_ek_def get_raw_def
        eval_commitments_def sc_def Let_def)
  then show "holds_key example_env example_ek \<lparr>tk_index = 1, tk_secret = 4\<rparr>"
    "holds_key example_env example_ek \<lparr>tk_index = 2, tk_secret = 6\<rparr>"
    unfolding holds_key_def by (metis trustee_key.select_convs(1))+
qed

theorem threshold_decryption_correct_witness:
  "combine example_env example_ek (encryption example_env 2 5 7)
     (map (\<lambda>k. fst (partial_decrypt example_env k (encryption example_env 2 5 7) [] (sconst [])))
        [\<lparr>tk_index = 1, tk_secret = 4\<rparr>, \<lparr>tk_index = 2, tk_secret = 6\<rparr>]) [] = Ok 7"
proof -
  let ?keys = "[\<lparr>tk_index = 1, tk_secret = 4\<rparr>, \<lparr>tk_index = 2, tk_secret = 6 :: rat\<rparr>]"
  have k: "\<forall>k\<in>set ?keys. holds_key example_env example_ek k" using example_holder by simp
  have n: "unat (th_t example_threshold) \<le> card (tk_index ` set ?keys)" "0 < th_t example_threshold"
    by (simp_all add: example_threshold_def)
  have key: "ek_key example_ek = 2" by (simp add: example_ek_def)
  from threshold_decryption_correct [OF example_group example_key [of "[]"] n(2), THEN conjunct1, THEN spec [of _ ?keys],
    THEN spec [of _ "\<lambda>_. sconst []"], THEN spec [of _ 5], THEN spec [of _ 7], THEN spec [of _ "[]"]]
  show ?thesis unfolding key using k n(1) by blast
qed

text \<open>C16: sealed ballots. A ballot sealed to the election key opens, for any \<open>t\<close> or more key holders, to
  exactly the bytes that were sealed; a share dealt and sealed to a trustee's transport key opens for that
  trustee to the share that was dealt.\<close>

theorem sealed_round_trip:
  assumes "prime_order_group E" "aead_round_trip E" "from_dealings E dealings th ctx0 = Ok ek" "0 < th_t th"
  shows "(\<forall>ballot ctx rng s keys rngs. fst (seal E ek ballot ctx rng) = Ok s \<and> (\<forall>k\<in>set keys. holds_key E ek k) \<and>
      unat (th_t th) \<le> card (tk_index ` set keys) \<longrightarrow>
      open_sealed E ek s (map (\<lambda>k. fst (partial_decrypt E k (sl_kem s) ctx (rngs k))) keys) ctx = Ok ballot) \<and>
    (\<forall>share secret ctx rng rng' s. canonical E (scalar_bytes E (sh_value share)) = Some (sh_value share) \<and>
      length (scalar_bytes E (sh_value share)) = 32 \<and>
      fst (seal_share E share (fst (transport_publish E secret ctx rng)) ctx rng') = Ok s \<longrightarrow>
      open_share E secret (sh_dealer share) s ctx = Ok share)"
proof (intro conjI allI impI)
  fix ballot ctx rng s keys rngs
  assume a: "fst (seal E ek ballot ctx rng) = Ok s \<and> (\<forall>k\<in>set keys. holds_key E ek k) \<and>
      unat (th_t th) \<le> card (tk_index ` set keys)"
  then obtain x r where kem: "sl_kem s = \<lparr>ct_a = smul E r (gen E), ct_b = smul E x (gen E) + smul E r (ek_key ek)\<rparr>"
    and body: "aead_encrypt E (seal_key E (smul E x (gen E))) NONCE ballot (seal_aad E ctx (sl_kem s)) = Some (sl_body s)"
    using seal_to_Ok [of E "ek_key ek"] by (fastforce simp: seal_def)
  have "combine E ek (sl_kem s) (map (\<lambda>k. fst (partial_decrypt E k (sl_kem s) ctx (rngs k))) keys) ctx = Ok (smul E x (gen E))"
    unfolding kem using a by (intro combine_honest [OF assms(1,3,4)]) (auto simp: holds_key_def)
  then show "open_sealed E ek s (map (\<lambda>k. fst (partial_decrypt E k (sl_kem s) ctx (rngs k))) keys) ctx = Ok ballot"
    using open_sealed_payload [OF assms(2) body] by (simp add: open_sealed_def)
next
  fix share secret ctx rng rng' s
  assume "canonical E (scalar_bytes E (sh_value share)) = Some (sh_value share) \<and>
      length (scalar_bytes E (sh_value share)) = 32 \<and>
      fst (seal_share E share (fst (transport_publish E secret ctx rng)) ctx rng') = Ok s"
  then show "open_share E secret (sh_dealer share) s ctx = Ok share"
    by (intro open_share_seals [OF assms(1,2)]) (auto simp: transport_publish_def Let_def case_prod_unfold)
qed

theorem sealed_round_trip_witness:
  "let s = \<lparr>sl_kem = \<lparr>ct_a = 1, ct_b = 3\<rparr>, sl_body = [42]\<rparr> in
   fst (seal example_env example_ek [42] [] (sconst [])) = Ok s \<and>
   open_sealed example_env example_ek s
     (map (\<lambda>k. fst (partial_decrypt example_env k (sl_kem s) [] (sconst [])))
       [\<lparr>tk_index = 1, tk_secret = 4\<rparr>, \<lparr>tk_index = 2, tk_secret = 6\<rparr>]) [] = Ok [42]"
proof -
  let ?s = "\<lparr>sl_kem = \<lparr>ct_a = 1, ct_b = 3\<rparr>, sl_body = [42]\<rparr> :: rat sealed"
  let ?keys = "[\<lparr>tk_index = 1, tk_secret = 4\<rparr>, \<lparr>tk_index = 2, tk_secret = 6 :: rat\<rparr>]"
  have s: "fst (seal example_env example_ek [42] [] (sconst [])) = Ok ?s"
    by (simp add: seal_def seal_to_def random_scalar_def example_env_def example_ek_def)
  have k: "\<forall>k\<in>set ?keys. holds_key example_env example_ek k" using example_holder by simp
  have n: "unat (th_t example_threshold) \<le> card (tk_index ` set ?keys)" "0 < th_t example_threshold"
    by (simp_all add: example_threshold_def)
  have "aead_round_trip example_env" by (simp add: aead_round_trip_def example_env_def)
  from sealed_round_trip [OF example_group this example_key [of "[]"] n(2), THEN conjunct1, THEN spec [of _ "[42]"],
    THEN spec [of _ "[]"], THEN spec [of _ "sconst []"], THEN spec [of _ ?s], THEN spec [of _ ?keys], THEN spec [of _ "\<lambda>_. sconst []"]]
  have "open_sealed example_env example_ek ?s (map (\<lambda>k. fst (partial_decrypt example_env k (sl_kem ?s) [] (sconst []))) ?keys) [] = Ok [42]"
    using s k n(1) by blast
  then show ?thesis using s by (simp only: Let_def simp_thms)
qed

end
