(* ===== verification/Encrypted_Ballots.thy ===== *)
theory Encrypted_Ballots
  imports Trustees
begin

text \<open>
  Tallied-encrypted ballots (\<open>vti-voting/src/trustees.rs\<close>): disjunctive proofs, the encryption and the check of
  one question, the homomorphic total and its baby-step giant-step reading.  A ballot that passes the check
  contributes 0 or 1 to each option and an admitted count to the question, and the total that is decrypted
  and read back is the number of ballots that chose the option.
\<close>

section \<open>Disjunctive proofs\<close>

record 's one_of =
  oo_parts :: "('s \<times> 's) list"

primrec one_of_loop ::
    "('s::field, 'p::ab_group_add) group_env \<Rightarrow> 'p \<Rightarrow> 'p ciphertext \<Rightarrow> 's \<Rightarrow> nat \<Rightarrow> nat \<Rightarrow> u64 list \<Rightarrow> rng \<Rightarrow>
     's list \<times> 's list \<times> ('p \<times> 'p) list \<times> rng" where
  "one_of_loop E ek ct w actual i [] rng = ([], [], [], rng)"
| "one_of_loop E ek ct w actual i (v # vs) rng =
     (let bv = ct_b ct - smul E (sc v) (gen E)
      in if i = actual then
           let (cs, zs, commits, rng') = one_of_loop E ek ct w actual (Suc i) vs rng
           in (0 # cs, 0 # zs, (smul E w (gen E), smul E w ek) # commits, rng')
         else
           let (c, rng1) = random_scalar E rng;
               (z, rng2) = random_scalar E rng1;
               (cs, zs, commits, rng') = one_of_loop E ek ct w actual (Suc i) vs rng2
           in (c # cs, z # zs,
               (smul E z (gen E) - smul E c (ct_a ct), smul E z ek - smul E c bv) # commits, rng'))"

definition one_of_challenge ::
    "('s, 'p) group_env \<Rightarrow> 'p \<Rightarrow> 'p ciphertext \<Rightarrow> u64 list \<Rightarrow> ('p \<times> 'p) list \<Rightarrow> string \<Rightarrow> bytes \<Rightarrow> 's" where
  "one_of_challenge E ek ct vals commits domain ctx =
     (let t = t_point E (ct_b ct) (t_point E (ct_a ct) (t_point E ek (t_new domain ctx)));
          t = fold (\<lambda>v t. t_bytes t (be_bytes v)) vals t;
          t = fold (\<lambda>(a1, a2) t. t_point E a2 (t_point E a1 t)) commits t
      in challenge E t)"

definition one_of_prove ::
    "('s::field, 'p::ab_group_add) group_env \<Rightarrow> 'p \<Rightarrow> 'p ciphertext \<Rightarrow> 's \<Rightarrow> u64 list \<Rightarrow> nat \<Rightarrow> string \<Rightarrow> bytes \<Rightarrow> rng \<Rightarrow>
     's one_of \<times> rng" where
  "one_of_prove E ek ct r vals actual domain ctx rng =
     (let (w, rng1) = random_scalar E rng;
          (cs, zs, commits, rng2) = one_of_loop E ek ct w actual 0 vals rng1;
          c = one_of_challenge E ek ct vals commits domain ctx;
          others = sum_list (map snd (filter (\<lambda>(i, _). i \<noteq> actual) (enumerate 0 cs)));
          cs = cs[actual := c - others];
          zs = zs[actual := w + cs ! actual * r]
      in (\<lparr>oo_parts = zip cs zs\<rparr>, rng2))"

definition one_of_commits ::
    "('s::field, 'p::ab_group_add) group_env \<Rightarrow> 'p \<Rightarrow> 'p ciphertext \<Rightarrow> u64 list \<Rightarrow> ('s \<times> 's) list \<Rightarrow> ('p \<times> 'p) list" where
  "one_of_commits E ek ct vals parts =
     map (\<lambda>(v, (c, z)). let bv = ct_b ct - smul E (sc v) (gen E)
        in (smul E z (gen E) - smul E c (ct_a ct), smul E z ek - smul E c bv)) (zip vals parts)"

definition one_of_verify ::
    "('s::field, 'p::ab_group_add) group_env \<Rightarrow> 'p \<Rightarrow> 'p ciphertext \<Rightarrow> u64 list \<Rightarrow> 's one_of \<Rightarrow> string \<Rightarrow> bytes \<Rightarrow> bool" where
  "one_of_verify E ek ct vals p domain ctx =
     (if length (oo_parts p) \<noteq> length vals then False
      else one_of_challenge E ek ct vals (one_of_commits E ek ct vals (oo_parts p)) domain ctx =
        sum_list (map fst (oo_parts p)))"

section \<open>One question\<close>

record ('s, 'p) encrypted_question =
  eq_options :: "('p ciphertext \<times> 's one_of) list"
  eq_sum_proof :: "'s one_of"

definition admitted_counts :: "nat \<Rightarrow> u64 \<Rightarrow> u64 \<Rightarrow> bool \<Rightarrow> (trustee_error, u64 list) result" where
  "admitted_counts options mn mx optional =
     (if mn > mx \<or> unat mx > options \<or> options = 0 then Err TParameters
      else Ok (sorted_list_of_set (set (map word_of_nat [unat mn..<Suc (unat mx)]) \<union> (if optional then {0} else {}))))"

definition option_ctx :: "bytes \<Rightarrow> nat \<Rightarrow> bytes" where
  "option_ctx ctx i = ctx @ be_bytes (word_of_nat i :: u64)"

definition position :: "'a \<Rightarrow> 'a list \<Rightarrow> nat option" where
  "position x xs = (case filter (\<lambda>i. xs ! i = x) [0..<length xs] of [] \<Rightarrow> None | i # _ \<Rightarrow> Some i)"

primrec encrypt_options ::
    "('s::field, 'p::ab_group_add) group_env \<Rightarrow> 'p election_key \<Rightarrow> bytes \<Rightarrow> nat \<Rightarrow> bool list \<Rightarrow> 's \<Rightarrow> 'p ciphertext \<Rightarrow> rng \<Rightarrow>
     ('p ciphertext \<times> 's one_of) list \<times> 's \<times> 'p ciphertext \<times> rng" where
  "encrypt_options E ek ctx i [] r_sum ct_sum rng = ([], r_sum, ct_sum, rng)"
| "encrypt_options E ek ctx i (on # ons) r_sum ct_sum rng =
     (let m = (if on then 1 else 0) :: nat;
          (r, rng1) = random_scalar E rng;
          ct = \<lparr>ct_a = smul E r (gen E), ct_b = smul E (of_nat m) (gen E) + smul E r (ek_key ek)\<rparr>;
          (pf, rng2) = one_of_prove E (ek_key ek) ct r [0, 1] m DOMAIN_BIT (option_ctx ctx i) rng1;
          (options, r_sum', ct_sum', rng') = encrypt_options E ek ctx (Suc i) ons (r_sum + r) (ct_add ct_sum ct) rng2
      in ((ct, pf) # options, r_sum', ct_sum', rng'))"

definition encrypt_vote ::
    "('s::field, 'p::ab_group_add) group_env \<Rightarrow> 'p election_key \<Rightarrow> bool list \<Rightarrow> u64 list \<Rightarrow> bytes \<Rightarrow> rng \<Rightarrow>
     (trustee_error, ('s, 'p) encrypted_question) result \<times> rng" where
  "encrypt_vote E ek chosen counts ctx rng =
     (case position (word_of_nat (length (filter id chosen))) counts of
        None \<Rightarrow> (Err TBallotInvalid, rng)
      | Some actual_sum \<Rightarrow>
          let (options, r_sum, ct_sum, rng1) = encrypt_options E ek ctx 0 chosen 0 ct_zero rng;
              (sum_proof, rng2) = one_of_prove E (ek_key ek) ct_sum r_sum counts actual_sum DOMAIN_SUM ctx rng1
          in (Ok \<lparr>eq_options = options, eq_sum_proof = sum_proof\<rparr>, rng2))"

primrec verify_options ::
    "('s::field, 'p::ab_group_add) group_env \<Rightarrow> 'p election_key \<Rightarrow> bytes \<Rightarrow> nat \<Rightarrow> ('p ciphertext \<times> 's one_of) list \<Rightarrow> 'p ciphertext \<Rightarrow>
     (trustee_error, 'p ciphertext) result" where
  "verify_options E ek ctx i [] sm = Ok sm"
| "verify_options E ek ctx i (o' # os) sm =
     (let (ct, p) = o'
      in if \<not> one_of_verify E (ek_key ek) ct [0, 1] p DOMAIN_BIT (option_ctx ctx i) then Err TBallotInvalid
         else verify_options E ek ctx (Suc i) os (ct_add sm ct))"

definition verify_vote ::
    "('s::field, 'p::ab_group_add) group_env \<Rightarrow> 'p election_key \<Rightarrow> ('s, 'p) encrypted_question \<Rightarrow> nat \<Rightarrow> u64 list \<Rightarrow> bytes \<Rightarrow>
     (trustee_error, unit) result" where
  "verify_vote E ek q options counts ctx =
     (if length (eq_options q) \<noteq> options then Err TBallotInvalid
      else res_bind (verify_options E ek ctx 0 (eq_options q) ct_zero) (\<lambda>sm.
        if \<not> one_of_verify E (ek_key ek) sm counts (eq_sum_proof q) DOMAIN_SUM ctx then Err TBallotInvalid
        else Ok ()))"

section \<open>Totals\<close>

definition total :: "'p::ab_group_add ciphertext list \<Rightarrow> 'p ciphertext" where
  "total cts = fold (\<lambda>c acc. ct_add acc c) cts ct_zero"

text \<open>The step is \<open>ceil(sqrt(max))\<close>, at least one.  Below \<open>2\<^sup>5\<^sup>0\<close>, where the claims stand, the floating point
  square root and its ceiling are exact and no product overflows a \<open>u64\<close>.\<close>

function sqrt_ceil_from :: "nat \<Rightarrow> nat \<Rightarrow> nat" where
  "sqrt_ceil_from n s = (if n \<le> s * s then s else sqrt_ceil_from n (Suc s))"
  by pat_completeness auto
termination
proof (relation "measure (\<lambda>(n, s). n - s)")
  fix n s :: nat
  assume "\<not> n \<le> s * s"
  moreover have "s \<le> s * s" by (cases s) auto
  ultimately have "s < n" by linarith
  then show "((n, Suc s), n, s) \<in> measure (\<lambda>(n, s). n - s)" by simp
qed simp

primrec baby_steps :: "('s, 'p::ab_group_add) group_env \<Rightarrow> nat \<Rightarrow> nat \<Rightarrow> 'p \<Rightarrow> (bytes \<times> nat) list" where
  "baby_steps E 0 j p = []"
| "baby_steps E (Suc n) j p = (compress E p, j) # baby_steps E n (Suc j) (p + gen E)"

text \<open>The caller's step is never zero.\<close>

function giant_steps ::
    "('s, 'p::ab_group_add) group_env \<Rightarrow> (bytes \<times> nat) list \<Rightarrow> nat \<Rightarrow> 'p \<Rightarrow> nat \<Rightarrow> 'p \<Rightarrow> nat \<Rightarrow> (trustee_error, nat) result" where
  "giant_steps E baby step giant mx gamma i =
     (if step = 0 \<or> \<not> i * step \<le> mx then Err TotalOutOfRange
      else case map_of baby (compress E gamma) of
        Some j \<Rightarrow>
          if i * step + j \<le> mx then Ok (i * step + j)
          else giant_steps E baby step giant mx (gamma - giant) (Suc i)
      | None \<Rightarrow> giant_steps E baby step giant mx (gamma - giant) (Suc i))"
  by pat_completeness auto
termination
  by (relation "measure (\<lambda>(_, _, step, _, mx, _, i). Suc mx - i * step)") (auto simp: diff_less_mono2)

declare sqrt_ceil_from.simps [simp del] giant_steps.simps [simp del]

definition bsgs_tally :: "('s::field, 'p::ab_group_add) group_env \<Rightarrow> 'p \<Rightarrow> u64 \<Rightarrow> (trustee_error, u64) result" where
  "bsgs_tally E m_g mx =
     (let step = max 1 (sqrt_ceil_from (unat mx) 0);
          baby = baby_steps E (Suc step) 0 0;
          giant = smul E (of_nat step) (gen E)
      in map_sum id word_of_nat (giant_steps E baby step giant (unat mx) m_g 0))"

section \<open>What a disjunctive proof shows\<close>

text \<open>The value under a ciphertext, as a scalar.\<close>

definition plain :: "('s::field, 'p::ab_group_add) group_env \<Rightarrow> 'p \<Rightarrow> 'p ciphertext \<Rightarrow> 's" where
  "plain E ek ct = dlog E (ct_b ct) - dlog E ek * dlog E (ct_a ct)"

definition oo_share :: "('s::field, 'p::ab_group_add) group_env \<Rightarrow> 'p \<Rightarrow> 'p ciphertext \<Rightarrow> u64 \<Rightarrow> 'p \<times> 'p \<Rightarrow> 's" where
  "oo_share E ek ct v commit =
     (dlog E (snd commit) - dlog E (fst commit) * dlog E ek) / (dlog E (ct_a ct) * dlog E ek - dlog E (ct_b ct - smul E (sc v) (gen E)))"

text \<open>A proof for a ciphertext of no listed value is answered by one challenge only, fixed by its commitments.\<close>

definition one_of_lucky ::
    "('s::field, 'p::ab_group_add) group_env \<Rightarrow> 'p \<Rightarrow> 'p ciphertext \<Rightarrow> u64 list \<Rightarrow> 's one_of \<Rightarrow> string \<Rightarrow> bytes \<Rightarrow> bool" where
  "one_of_lucky E ek ct vals p domain ctx =
     (let commits = one_of_commits E ek ct vals (oo_parts p)
      in plain E ek ct \<notin> sc ` set vals \<and>
         one_of_challenge E ek ct vals commits domain ctx =
           sum_list (map (\<lambda>(v, c). oo_share E ek ct v c) (zip vals commits)))"

lemma oo_share_is_challenge:
  assumes E: "prime_order_group E" and "plain E ek ct \<noteq> sc v"
  shows "oo_share E ek ct v (smul E z (gen E) - smul E c (ct_a ct), smul E z ek - smul E c (ct_b ct - smul E (sc v) (gen E))) = c"
proof -
  have "dlog E (ct_a ct) * dlog E ek - (dlog E (ct_b ct) - sc v) \<noteq> 0"
    using assms(2) by (auto simp: plain_def algebra_simps)
  then show ?thesis by (simp add: oo_share_def dlog_simps [OF E] field_simps)
qed

lemma one_of_sound:
  assumes E: "prime_order_group E" and "one_of_verify E ek ct vals p domain ctx"
    and "\<not> one_of_lucky E ek ct vals p domain ctx"
  shows "plain E ek ct \<in> sc ` set vals"
proof (rule ccontr)
  assume no: "plain E ek ct \<notin> sc ` set vals"
  have "length parts = length vals \<Longrightarrow>
      map (\<lambda>(v, c). oo_share E ek ct v c) (zip vals (one_of_commits E ek ct vals parts)) = map fst parts" for parts
    using no
  proof (induction vals arbitrary: parts)
    case (Cons v vs)
    then obtain c z ps where "parts = (c, z) # ps" by (cases parts) auto
    then show ?case using Cons oo_share_is_challenge [OF E, of ek ct v z c] by (auto simp: one_of_commits_def Let_def)
  qed simp
  then show False using assms(2,3) no by (simp add: one_of_verify_def one_of_lucky_def Let_def split: if_splits)
qed

lemma one_of_loop_length:
  "length (fst (one_of_loop E ek ct w actual i vs rng)) = length vs \<and>
   length (fst (snd (one_of_loop E ek ct w actual i vs rng))) = length vs"
  by (induction vs arbitrary: i rng) (simp_all add: Let_def case_prod_unfold)

text \<open>The prover's commitments are those the verifier recomputes, once the real branch is filled in.\<close>

lemma one_of_loop_commits:
  assumes E: "prime_order_group E" and ct: "ct_a ct = smul E r (gen E)"
  shows "i \<le> actual \<Longrightarrow> actual - i < length vs \<Longrightarrow>
     ct_b ct = smul E (sc (vs ! (actual - i))) (gen E) + smul E r ek \<Longrightarrow>
     one_of_commits E ek ct vs
       (zip ((fst (one_of_loop E ek ct w actual i vs rng))[actual - i := c])
            ((fst (snd (one_of_loop E ek ct w actual i vs rng)))[actual - i := w + c * r])) =
       fst (snd (snd (one_of_loop E ek ct w actual i vs rng)))"
    and "actual < i \<Longrightarrow> one_of_commits E ek ct vs
       (zip (fst (one_of_loop E ek ct w actual i vs rng)) (fst (snd (one_of_loop E ek ct w actual i vs rng)))) =
       fst (snd (snd (one_of_loop E ek ct w actual i vs rng)))"
proof -
  have tail: "actual < i \<Longrightarrow> one_of_commits E ek ct vs
       (zip (fst (one_of_loop E ek ct w actual i vs rng)) (fst (snd (one_of_loop E ek ct w actual i vs rng)))) =
       fst (snd (snd (one_of_loop E ek ct w actual i vs rng)))" for i vs rng
    by (induction vs arbitrary: i rng) (simp_all add: one_of_commits_def Let_def case_prod_unfold)
  then show "actual < i \<Longrightarrow> one_of_commits E ek ct vs
       (zip (fst (one_of_loop E ek ct w actual i vs rng)) (fst (snd (one_of_loop E ek ct w actual i vs rng)))) =
       fst (snd (snd (one_of_loop E ek ct w actual i vs rng)))" .
  show "i \<le> actual \<Longrightarrow> actual - i < length vs \<Longrightarrow>
     ct_b ct = smul E (sc (vs ! (actual - i))) (gen E) + smul E r ek \<Longrightarrow>
     one_of_commits E ek ct vs
       (zip ((fst (one_of_loop E ek ct w actual i vs rng))[actual - i := c])
            ((fst (snd (one_of_loop E ek ct w actual i vs rng)))[actual - i := w + c * r])) =
       fst (snd (snd (one_of_loop E ek ct w actual i vs rng)))"
  proof (induction vs arbitrary: i rng)
    case (Cons v vs)
    show ?case
    proof (cases "i = actual")
      case True
      have "smul E (w + c * r) (gen E) - smul E c (ct_a ct) = smul E w (gen E)"
        "smul E (w + c * r) ek - smul E c (ct_b ct - smul E (sc v) (gen E)) = smul E w ek"
        using Cons.prems(3) True by (simp_all add: ct smul_plus [OF E] smul_smul [OF E] smul_add [OF E])
      then show ?thesis using True tail [of "Suc i" vs rng] by (simp add: one_of_commits_def Let_def case_prod_unfold)
    next
      case False
      then have "actual - i = Suc (actual - Suc i)" using Cons.prems(1) by simp
      then show ?thesis using Cons False by (simp add: one_of_commits_def Let_def case_prod_unfold)
    qed
  qed simp
qed

lemma sum_others:
  fixes cs :: "'s::field list"
  assumes "k < length cs"
  shows "sum_list (cs[k := c - sum_list (map snd (filter (\<lambda>(i, _). i \<noteq> k) (enumerate 0 cs)))]) = c"
proof -
  let ?f = "\<lambda>xs n. sum_list (map snd (filter (\<lambda>(i, _). i \<noteq> k) (enumerate n xs)))"
  have high: "?f xs n = sum_list xs" if "k < n \<or> n + length xs \<le> k" for xs :: "'s list" and n
    using that by (induction xs arbitrary: n) auto
  have "?f cs 0 = ?f (take k cs) 0 + ?f (drop (Suc k) cs) (Suc k)"
  proof -
    have "enumerate 0 cs = enumerate 0 (take k cs) @ (k, cs ! k) # enumerate (Suc k) (drop (Suc k) cs)"
      using assms by (subst id_take_nth_drop [OF assms]) (simp add: enumerate_append_eq min_absorb2)
    then show ?thesis by simp
  qed
  also have "\<dots> = sum_list (take k cs) + sum_list (drop (Suc k) cs)" using high by simp
  finally have "?f cs 0 = sum_list (take k cs) + sum_list (drop (Suc k) cs)" .
  then show ?thesis using assms by (simp add: upd_conv_take_nth_drop)
qed

lemma one_of_complete:
  assumes E: "prime_order_group E" and k: "actual < length vals"
    and ct: "ct_a ct = smul E r (gen E)" "ct_b ct = smul E (sc (vals ! actual)) (gen E) + smul E r ek"
  shows "one_of_verify E ek ct vals (fst (one_of_prove E ek ct r vals actual domain ctx rng)) domain ctx"
proof -
  let ?w = "fst (random_scalar E rng)"
  let ?l = "one_of_loop E ek ct ?w actual 0 vals (snd (random_scalar E rng))"
  let ?c = "one_of_challenge E ek ct vals (fst (snd (snd ?l))) domain ctx"
  let ?a = "?c - sum_list (map snd (filter (\<lambda>(i, _). i \<noteq> actual) (enumerate 0 (fst ?l))))"
  let ?cs = "(fst ?l)[actual := ?a]" and ?zs = "(fst (snd ?l))[actual := ?w + ?a * r]"
  have len: "length (fst ?l) = length vals" "length (fst (snd ?l)) = length vals"
    using one_of_loop_length [of E ek ct ?w actual 0 vals "snd (random_scalar E rng)"] by simp_all
  have p: "fst (one_of_prove E ek ct r vals actual domain ctx rng) = \<lparr>oo_parts = zip ?cs ?zs\<rparr>"
    using k len by (simp add: one_of_prove_def Let_def case_prod_unfold)
  have "one_of_commits E ek ct vals (zip ?cs ?zs) = fst (snd (snd ?l))"
    using one_of_loop_commits(1) [OF E ct(1), of 0 actual vals ek ?w _ ?a] k ct(2) by simp
  moreover have "sum_list (map fst (zip ?cs ?zs)) = ?c" using sum_others [of actual "fst ?l" ?c] k len by simp
  ultimately show ?thesis using len by (simp add: one_of_verify_def p)
qed

section \<open>What a checked question contains\<close>

lemma plain_ct_add: "prime_order_group E \<Longrightarrow> plain E ek (ct_add c d) = plain E ek c + plain E ek d"
  by (simp add: plain_def ct_add_def dlog_simps algebra_simps)

lemma plain_ct_zero: "prime_order_group E \<Longrightarrow> plain E ek ct_zero = 0"
  by (simp add: plain_def ct_zero_def dlog_simps)

lemma plain_total: "prime_order_group E \<Longrightarrow> plain E ek (total cts) = sum_list (map (plain E ek) cts)"
proof -
  assume E: "prime_order_group E"
  have "plain E ek (fold (\<lambda>c acc. ct_add acc c) cts z) = plain E ek z + sum_list (map (plain E ek) cts)" for z
    by (induction cts arbitrary: z) (simp_all add: plain_ct_add [OF E] add.assoc)
  then show ?thesis by (simp add: total_def plain_ct_zero [OF E])
qed

lemma verify_options_Ok:
  "verify_options E ek ctx i os sm = Ok sm' \<longleftrightarrow>
     sm' = fold (\<lambda>c acc. ct_add acc c) (map fst os) sm \<and>
     (\<forall>j < length os. one_of_verify E (ek_key ek) (fst (os ! j)) [0, 1] (snd (os ! j)) DOMAIN_BIT (option_ctx ctx (i + j)))"
proof (induction os arbitrary: i sm)
  case (Cons o' os)
  then show ?case by (auto simp: Let_def case_prod_unfold less_Suc_eq_0_disj)
qed auto

text \<open>No proof of the question was met by the one challenge that would let it lie.\<close>

definition vote_unlucky ::
    "('s::field, 'p::ab_group_add) group_env \<Rightarrow> 'p election_key \<Rightarrow> ('s, 'p) encrypted_question \<Rightarrow> u64 list \<Rightarrow> bytes \<Rightarrow> bool" where
  "vote_unlucky E ek q counts ctx \<longleftrightarrow>
     (\<forall>j < length (eq_options q). \<not> one_of_lucky E (ek_key ek) (fst (eq_options q ! j)) [0, 1] (snd (eq_options q ! j))
        DOMAIN_BIT (option_ctx ctx j)) \<and>
     \<not> one_of_lucky E (ek_key ek) (total (map fst (eq_options q))) counts (eq_sum_proof q) DOMAIN_SUM ctx"

definition chose :: "('s::field, 'p::ab_group_add) group_env \<Rightarrow> 'p election_key \<Rightarrow> nat \<Rightarrow> ('s, 'p) encrypted_question \<Rightarrow> bool" where
  "chose E ek j q \<longleftrightarrow> plain E (ek_key ek) (fst (eq_options q ! j)) = 1"

lemma verify_vote_options:
  assumes E: "prime_order_group E" and "verify_vote E ek q options counts ctx = Ok ()" "vote_unlucky E ek q counts ctx"
  shows "length (eq_options q) = options"
    and "j < options \<Longrightarrow> plain E (ek_key ek) (fst (eq_options q ! j)) = of_nat (if chose E ek j q then 1 else 0)"
    and "plain E (ek_key ek) (total (map fst (eq_options q))) \<in> sc ` set counts"
proof -
  show len: "length (eq_options q) = options"
    using assms(2) by (auto simp: verify_vote_def split: if_splits)
  have ok: "\<forall>j < options. one_of_verify E (ek_key ek) (fst (eq_options q ! j)) [0, 1] (snd (eq_options q ! j)) DOMAIN_BIT (option_ctx ctx j)"
    "one_of_verify E (ek_key ek) (total (map fst (eq_options q))) counts (eq_sum_proof q) DOMAIN_SUM ctx"
    using assms(2) len by (auto simp: verify_vote_def res_bind_Ok_iff verify_options_Ok total_def split: if_splits)
  show "plain E (ek_key ek) (total (map fst (eq_options q))) \<in> sc ` set counts"
    using one_of_sound [OF E ok(2)] assms(3) by (simp add: vote_unlucky_def)
  assume j: "j < options"
  then have "plain E (ek_key ek) (fst (eq_options q ! j)) \<in> sc ` set [0 :: u64, 1]"
    using one_of_sound [OF E] ok(1) assms(3) len unfolding vote_unlucky_def by blast
  then show "plain E (ek_key ek) (fst (eq_options q ! j)) = of_nat (if chose E ek j q then 1 else 0)"
    by (auto simp: chose_def sc_def)
qed

lemma scalar_of_nat_inj:
  assumes "prime_order_group (E :: ('s::field, 'p::ab_group_add) group_env)" "m < 2 ^ 64" "n < 2 ^ 64"
  shows "(of_nat m :: 's) = of_nat n \<longleftrightarrow> m = n"
  using inj_on_eq_iff [OF of_nat_scalar_inj [OF assms(1)], of m n] assms(2,3) by simp

lemma verify_vote_count:
  assumes E: "prime_order_group E" and "verify_vote E ek q options counts ctx = Ok ()" "vote_unlucky E ek q counts ctx"
    and "options < 2 ^ 64"
  shows "word_of_nat (card {j. j < options \<and> chose E ek j q}) \<in> set counts"
proof -
  note V = verify_vote_options [OF assms(1-3)]
  have "plain E (ek_key ek) (total (map fst (eq_options q))) =
      (\<Sum>j<options. plain E (ek_key ek) (fst (eq_options q ! j)))"
    using V(1) by (simp add: plain_total [OF E] comp_def sum_list_sum_nth atLeast0LessThan)
  also have "\<dots> = (\<Sum>j<options. of_nat (if chose E ek j q then 1 else 0))" using V(2) by simp
  also have "\<dots> = of_nat (card {j. j < options \<and> chose E ek j q})"
    by (simp add: of_nat_sum [symmetric] sum.If_cases Int_def del: of_nat_sum)
  finally have "of_nat (card {j. j < options \<and> chose E ek j q}) \<in> (sc :: u64 \<Rightarrow> 'a) ` set counts" using V(3) by (simp only:)
  then obtain v where v: "v \<in> set counts" "of_nat (card {j. j < options \<and> chose E ek j q}) = (sc v :: 'a)" ..
  have "{j. j < options \<and> chose E ek j q} \<subseteq> {..<options}" by auto
  then have "card {j. j < options \<and> chose E ek j q} \<le> options" using card_mono [of "{..<options}"] by fastforce
  then have "card {j. j < options \<and> chose E ek j q} < 2 ^ 64" using assms(4) by (rule le_less_trans)
  moreover have "unat v < 2 ^ 64" using unsigned_less [of v, where 'a = nat] by simp
  ultimately have "card {j. j < options \<and> chose E ek j q} = unat v"
    using scalar_of_nat_inj [OF E] v(2) unfolding sc_def by blast
  then show ?thesis using v(1) by simp
qed

section \<open>What the encrypter produces\<close>

lemma encrypt_options_Ok:
  assumes E: "prime_order_group E"
  shows "ct_sum = \<lparr>ct_a = smul E rs (gen E), ct_b = smul E (of_nat n) (gen E) + smul E rs (ek_key ek)\<rparr> \<Longrightarrow>
    (case encrypt_options E ek ctx i ons rs ct_sum rng of (os, rs', ct', rng') \<Rightarrow>
      verify_options E ek ctx i os ct_sum = Ok ct' \<and> length os = length ons \<and>
      ct' = \<lparr>ct_a = smul E rs' (gen E), ct_b = smul E (of_nat (n + length (filter id ons))) (gen E) + smul E rs' (ek_key ek)\<rparr>)"
proof (induction ons arbitrary: i rs ct_sum rng n)
  case (Cons on ons)
  let ?m = "(if on then 1 else 0) :: nat"
  let ?r = "fst (random_scalar E rng)"
  let ?ct = "\<lparr>ct_a = smul E ?r (gen E), ct_b = smul E (of_nat ?m) (gen E) + smul E ?r (ek_key ek)\<rparr>"
  have pf: "one_of_verify E (ek_key ek) ?ct [0, 1]
      (fst (one_of_prove E (ek_key ek) ?ct ?r [0, 1] ?m DOMAIN_BIT (option_ctx ctx i) (snd (random_scalar E rng)))) DOMAIN_BIT (option_ctx ctx i)"
    by (rule one_of_complete [OF E]) (auto simp: sc_def)
  have "ct_add ct_sum ?ct =
      \<lparr>ct_a = smul E (rs + ?r) (gen E), ct_b = smul E (of_nat (n + ?m)) (gen E) + smul E (rs + ?r) (ek_key ek)\<rparr>"
    by (simp add: Cons.prems ct_add_def smul_plus [OF E] algebra_simps)
  from Cons.IH [OF this, of "Suc i" "snd (one_of_prove E (ek_key ek) ?ct ?r [0, 1] ?m DOMAIN_BIT (option_ctx ctx i) (snd (random_scalar E rng)))"]
  show ?case using pf by (cases on) (simp_all add: Let_def case_prod_unfold)
qed (simp add: ct_zero_def)

lemma position_Some: "position x xs = Some i \<Longrightarrow> i < length xs \<and> xs ! i = x"
proof -
  assume "position x xs = Some i"
  then have "\<exists>ys. filter (\<lambda>i. xs ! i = x) [0..<length xs] = i # ys" by (simp add: position_def split: list.splits)
  then have "i \<in> set (filter (\<lambda>i. xs ! i = x) [0..<length xs])" by (metis list.set_intros(1))
  then show ?thesis by simp
qed

lemma encrypt_vote_verifies:
  assumes E: "prime_order_group E" and "length chosen < 2 ^ 64" and "fst (encrypt_vote E ek chosen counts ctx rng) = Ok q"
  shows "verify_vote E ek q (length chosen) counts ctx = Ok ()"
proof -
  let ?k = "length (filter id chosen)"
  obtain a where a: "position (word_of_nat ?k) counts = Some a"
    using assms(3) by (auto simp: encrypt_vote_def split: option.splits)
  obtain os rs ct rng' where e: "encrypt_options E ek ctx 0 chosen 0 ct_zero rng = (os, rs, ct, rng')" by (metis prod_cases4)
  have z: "ct_zero = \<lparr>ct_a = smul E 0 (gen E), ct_b = smul E (of_nat 0) (gen E) + smul E 0 (ek_key ek)\<rparr>"
    by (simp add: ct_zero_def smul_zero_left [OF E])
  have o: "verify_options E ek ctx 0 os ct_zero = Ok ct" "length os = length chosen"
    "ct = \<lparr>ct_a = smul E rs (gen E), ct_b = smul E (of_nat ?k) (gen E) + smul E rs (ek_key ek)\<rparr>"
    using encrypt_options_Ok [OF E z, of ctx 0 chosen rng] e by simp_all
  have "?k < 2 ^ 64" using assms(2) length_filter_le [of id chosen] by linarith
  then have "(sc (counts ! a) :: 'a) = of_nat ?k" using position_Some [OF a] by (simp add: sc_def unat_of_nat)
  then have "one_of_verify E (ek_key ek) ct counts (fst (one_of_prove E (ek_key ek) ct rs counts a DOMAIN_SUM ctx rng')) DOMAIN_SUM ctx"
    using position_Some [OF a] o(3) by (intro one_of_complete [OF E]) simp_all
  then show ?thesis using assms(3) a e o by (auto simp: encrypt_vote_def verify_vote_def Let_def case_prod_unfold)
qed

section \<open>Reading a total\<close>

lemma baby_steps_set:
  assumes "prime_order_group E" "p = smul E (of_nat j) (gen E)"
  shows "set (baby_steps E n j p) = (\<lambda>k. (compress E (smul E (of_nat k) (gen E)), k)) ` {j..<j + n}"
  using assms(2)
proof (induction n arbitrary: j p)
  case (Suc n)
  have "p + gen E = smul E (of_nat (Suc j)) (gen E)"
    by (simp add: Suc.prems smul_plus [OF assms(1)] smul_one [OF assms(1)])
  moreover have "{j..<j + Suc n} = insert j {Suc j..<Suc j + n}" by auto
  ultimately show ?case using Suc.IH [of "p + gen E" "Suc j"] Suc.prems by simp
qed simp

lemma baby_lookup:
  assumes E: "prime_order_group E"
  shows "map_of (baby_steps E n 0 0) (compress E P) = Some j \<Longrightarrow> j < n \<and> P = smul E (of_nat j) (gen E)"
    and "P = smul E (of_nat j) (gen E) \<Longrightarrow> j < n \<Longrightarrow> map_of (baby_steps E n 0 0) (compress E P) \<noteq> None"
proof -
  have b: "set (baby_steps E n 0 0) = (\<lambda>k. (compress E (smul E (of_nat k) (gen E)), k)) ` {0..<n}"
    using baby_steps_set [OF E, of 0 0 n] by (simp add: smul_zero_left [OF E])
  show "map_of (baby_steps E n 0 0) (compress E P) = Some j \<Longrightarrow> j < n \<and> P = smul E (of_nat j) (gen E)"
    using map_of_SomeD [of "baby_steps E n 0 0" "compress E P" j] by (auto simp: b compress_inj [OF E])
  assume "P = smul E (of_nat j) (gen E)" "j < n"
  then have "(compress E P, j) \<in> set (baby_steps E n 0 0)" by (auto simp: b)
  then show "map_of (baby_steps E n 0 0) (compress E P) \<noteq> None" by (metis map_of_eq_None_iff fst_conv image_eqI)
qed

lemma giant_steps_sound:
  assumes E: "prime_order_group E"
  shows "gamma = P - smul E (of_nat (i * step)) (gen E) \<Longrightarrow>
    giant_steps E (baby_steps E n 0 0) step (smul E (of_nat step) (gen E)) mx gamma i = Ok m \<Longrightarrow>
    m \<le> mx \<and> P = smul E (of_nat m) (gen E)"
proof (induction "Suc mx - i * step" arbitrary: gamma i rule: less_induct)
  case less
  let ?b = "baby_steps E n 0 0" and ?g = "smul E (of_nat step) (gen E)"
  have c: "step \<noteq> 0" "i * step \<le> mx" using less.prems(2) by (auto simp: giant_steps.simps [of E ?b] split: if_splits)
  have next': "gamma - ?g = P - smul E (of_nat (Suc i * step)) (gen E)"
    by (simp add: less.prems(1) smul_plus [OF E])
  have "Suc mx - Suc i * step < Suc mx - i * step" using c by simp
  note IH = less.hyps [OF this next']
  show ?case
  proof (cases "\<exists>j. map_of ?b (compress E gamma) = Some j \<and> i * step + j \<le> mx")
    case True
    then obtain j where j: "map_of ?b (compress E gamma) = Some j" "i * step + j \<le> mx" by blast
    then have "m = i * step + j" using less.prems(2) c by (simp add: giant_steps.simps [of E ?b])
    moreover have "P = gamma + smul E (of_nat (i * step)) (gen E)" by (simp add: less.prems(1))
    ultimately show ?thesis using baby_lookup(1) [OF E j(1)] j(2) by (simp add: smul_plus [OF E] add.commute)
  next
    case False
    then show ?thesis using IH less.prems(2) c by (auto simp: giant_steps.simps [of E ?b step ?g mx gamma] split: option.splits)
  qed
qed

lemma giant_steps_complete:
  assumes E: "prime_order_group E" and step: "0 < step" "step < n" "n \<le> 2 ^ 64" and m: "m \<le> mx"
  shows "i \<le> m div step \<Longrightarrow> gamma = smul E (of_nat m) (gen E) - smul E (of_nat (i * step)) (gen E) \<Longrightarrow>
    \<exists>r. giant_steps E (baby_steps E n 0 0) step (smul E (of_nat step) (gen E)) mx gamma i = Ok r"
proof (induction "m div step - i" arbitrary: gamma i)
  case 0
  let ?b = "baby_steps E n 0 0"
  have "i = m div step" using 0 by simp
  then have me: "m = i * step + m mod step" by simp
  then have g: "gamma = smul E (of_nat (m mod step)) (gen E)"
    using 0(3) smul_minus_left [OF E, of "of_nat m" "of_nat (i * step)"] by (metis add_diff_cancel_left' of_nat_add)
  have small: "m mod step < n" using step by (meson less_trans mod_less_divisor)
  then obtain j where j: "map_of ?b (compress E gamma) = Some j" using baby_lookup(2) [OF E g] by auto
  then have "j < n" "(of_nat j :: 'a) = of_nat (m mod step)" using baby_lookup(1) [OF E j] g by (simp_all add: smul_gen_inj [OF E])
  then have "j = m mod step" using scalar_of_nat_inj [OF E, of j "m mod step"] small step(3) by (simp add: less_le_trans)
  then have "i * step + j \<le> mx" using me m by linarith
  then show ?case using j step(1) by (subst giant_steps.simps) auto
next
  case (Suc k)
  let ?b = "baby_steps E n 0 0" and ?g = "smul E (of_nat step) (gen E)"
  have i: "Suc i \<le> m div step" using Suc by linarith
  have "i * step \<le> mx" using Suc(3) m by (meson div_times_less_eq_dividend mult_le_mono1 order_trans)
  moreover have "\<exists>r. giant_steps E ?b step ?g mx (gamma - ?g) (Suc i) = Ok r"
    using Suc(1) [of "Suc i" "gamma - ?g"] Suc(2,4) i by (simp add: smul_plus [OF E])
  ultimately show ?case using step(1) by (subst giant_steps.simps) (auto split: option.splits)
qed

lemma sqrt_ceil_le: "s \<le> n \<Longrightarrow> sqrt_ceil_from n s \<le> n"
proof (induction n s rule: sqrt_ceil_from.induct)
  case (1 n s)
  show ?case
  proof (cases "n \<le> s * s")
    case False
    moreover have "s \<le> s * s" by (cases s) auto
    ultimately have "Suc s \<le> n" by linarith
    then show ?thesis using 1(1) [OF False] False by (subst sqrt_ceil_from.simps) simp
  qed (use 1 in \<open>subst sqrt_ceil_from.simps, simp\<close>)
qed

lemma giant_steps_err: "giant_steps E b st g x \<gamma> i = Err e \<Longrightarrow> e = TotalOutOfRange"
  by (induction E b st g x \<gamma> i rule: giant_steps.induct)
    (subst (asm) (3) giant_steps.simps, auto split: if_splits option.splits)

lemma bsgs_tally_exact:
  assumes E: "prime_order_group E" and mx: "unat mx < 2 ^ 50"
  shows "m \<le> unat mx \<Longrightarrow> bsgs_tally E (smul E (of_nat m) (gen E)) mx = Ok (word_of_nat m)"
    and "\<forall>m \<le> unat mx. P \<noteq> smul E (of_nat m) (gen E) \<Longrightarrow> bsgs_tally E P mx = Err TotalOutOfRange"
proof -
  let ?step = "max 1 (sqrt_ceil_from (unat mx) 0)"
  let ?run = "\<lambda>P. giant_steps E (baby_steps E (Suc ?step) 0 0) ?step (smul E (of_nat ?step) (gen E)) (unat mx) P 0"
  have step: "0 < ?step" "?step < Suc ?step" "Suc ?step \<le> 2 ^ 64"
    using sqrt_ceil_le [of 0 "unat mx"] mx by auto
  have sound: "r \<le> unat mx \<and> P = smul E (of_nat r) (gen E)" if "?run P = Ok r" for r P
    by (rule giant_steps_sound [OF E _ that]) (simp add: smul_zero_left [OF E])
  show "bsgs_tally E (smul E (of_nat m) (gen E)) mx = Ok (word_of_nat m)" if m: "m \<le> unat mx"
  proof -
    have z: "smul E (of_nat m) (gen E) = smul E (of_nat m) (gen E) - smul E (of_nat (0 * ?step)) (gen E)"
      by (simp add: smul_zero_left [OF E])
    obtain r where r: "?run (smul E (of_nat m) (gen E)) = Ok r"
      using giant_steps_complete [OF E step m le0 z] by blast
    then have "r \<le> unat mx" "(of_nat m :: 'a) = of_nat r" using sound [OF r] by (simp_all add: smul_gen_inj [OF E])
    then have "r = m" using scalar_of_nat_inj [OF E, of m r] m mx by simp
    then show ?thesis unfolding bsgs_tally_def Let_def r by simp
  qed
  show "bsgs_tally E P mx = Err TotalOutOfRange" if "\<forall>m \<le> unat mx. P \<noteq> smul E (of_nat m) (gen E)"
  proof (cases "?run P")
    case (Inl e)
    then show ?thesis using giant_steps_err [OF Inl] unfolding bsgs_tally_def Let_def Inl by simp
  next
    case (Inr r)
    then show ?thesis using sound [OF Inr] that by blast
  qed
qed

section \<open>What an encrypted tally promises\<close>

text \<open>C15: encrypted ballots are well formed, exactly. A question encrypted with an admitted number of
  selections passes the check; and a question that passes it holds 0 or 1 in every option and an admitted
  number of selections in all, unless one of its proofs was met by the single challenge that lets it lie.\<close>

theorem checked_vote_is_a_vote:
  assumes "prime_order_group E" "options < 2 ^ 64"
  shows "(\<forall>chosen counts ctx rng q. length chosen = options \<and> fst (encrypt_vote E ek chosen counts ctx rng) = Ok q \<longrightarrow>
      verify_vote E ek q options counts ctx = Ok ()) \<and>
    (\<forall>q counts ctx. verify_vote E ek q options counts ctx = Ok () \<and> vote_unlucky E ek q counts ctx \<longrightarrow>
      (\<forall>j < options. plain E (ek_key ek) (fst (eq_options q ! j)) \<in> {0, 1}) \<and>
      word_of_nat (card {j. j < options \<and> plain E (ek_key ek) (fst (eq_options q ! j)) = 1}) \<in> set counts)"
proof (intro conjI allI impI)
  fix chosen counts ctx rng q
  assume "length chosen = options \<and> fst (encrypt_vote E ek chosen counts ctx rng) = Ok q"
  then show "verify_vote E ek q options counts ctx = Ok ()"
    using encrypt_vote_verifies [OF assms(1)] assms(2) by blast
next
  fix q counts ctx
  assume a: "verify_vote E ek q options counts ctx = Ok () \<and> vote_unlucky E ek q counts ctx"
  then show "word_of_nat (card {j. j < options \<and> plain E (ek_key ek) (fst (eq_options q ! j)) = 1}) \<in> set counts"
    using verify_vote_count [OF assms(1) _ _ assms(2)] unfolding chose_def by blast
  fix j assume "j < options"
  then have "plain E (ek_key ek) (fst (eq_options q ! j)) = of_nat (if chose E ek j q then 1 else 0)"
    using verify_vote_options(2) [OF assms(1)] a by blast
  then show "plain E (ek_key ek) (fst (eq_options q ! j)) \<in> {0, 1}" by simp
qed

theorem checked_vote_is_a_vote_witness:
  "\<exists>q. fst (encrypt_vote example_env example_ek [True, False] [1] [] (sconst [])) = Ok q \<and>
     verify_vote example_env example_ek q 2 [1] [] = Ok ()"
proof -
  have "position (word_of_nat (length (filter id [True, False]))) [1 :: u64] = Some 0" by (simp add: position_def)
  then obtain q where "fst (encrypt_vote example_env example_ek [True, False] [1] [] (sconst [])) = Ok q"
    by (simp add: encrypt_vote_def Let_def case_prod_unfold)
  moreover from this have "verify_vote example_env example_ek q 2 [1] [] = Ok ()"
    using checked_vote_is_a_vote [OF example_group, of 2 example_ek, THEN conjunct1, THEN spec [of _ "[True, False]"],
      THEN spec [of _ "[1]"], THEN spec [of _ "[]"], THEN spec [of _ "sconst []"], THEN spec [of _ q]] by simp
  ultimately show ?thesis by blast
qed

text \<open>C14: the encrypted tally is right. When every counted ballot passed the check, the total of an option,
  decrypted by any accepted partials and read back by the search, is the number of ballots that encrypt one for the
  option. This is up to the proofs' soundness: no ballot and no partial carries a proof of a false statement whose
  challenge happens to be the single one that lets it pass. The search's bound is at least the number of ballots and
  below two to the fiftieth, where its floating point square root is exact; within such a bound the search finds every
  total from zero to the bound, and it reports an error for every element that is no such total.\<close>

theorem encrypted_tally_counts:
  assumes "prime_order_group E" "from_dealings E dealings th ctx0 = Ok ek" "0 < th_t th"
    and "\<forall>(q, ctx) \<in> set ballots. verify_vote E ek q options counts ctx = Ok () \<and> vote_unlucky E ek q counts ctx"
    and "j < options" "length ballots \<le> unat mx" "unat mx < 2 ^ 50"
    and "combine E ek (total (map (\<lambda>(q, _). fst (eq_options q ! j)) ballots)) ps tctx = Ok m"
    and "\<forall>p\<in>set ps. unlucky E ek (total (map (\<lambda>(q, _). fst (eq_options q ! j)) ballots)) tctx p"
  shows "bsgs_tally E m mx = Ok (word_of_nat (length (filter (\<lambda>(q, _). plain E (ek_key ek) (fst (eq_options q ! j)) = 1) ballots))) \<and>
    (\<forall>k \<le> unat mx. bsgs_tally E (smul E (of_nat k) (gen E)) mx = Ok (word_of_nat k)) \<and>
    (\<forall>P. (\<forall>k \<le> unat mx. P \<noteq> smul E (of_nat k) (gen E)) \<longrightarrow> bsgs_tally E P mx = Err TotalOutOfRange)"
proof -
  note E = assms(1)
  let ?T = "total (map (\<lambda>(q, _). fst (eq_options q ! j)) ballots)"
  let ?n = "length (filter (\<lambda>(q, _). plain E (ek_key ek) (fst (eq_options q ! j)) = 1) ballots)"
  have "plain E (ek_key ek) ?T = (\<Sum>(q, _) \<leftarrow> ballots. plain E (ek_key ek) (fst (eq_options q ! j)))"
    by (simp add: plain_total [OF E] comp_def case_prod_unfold)
  also have "\<dots> = of_nat ?n"
    using assms(4)
  proof (induction ballots)
    case (Cons b bs)
    have "plain E (ek_key ek) (fst (eq_options (fst b) ! j)) = of_nat (if chose E ek j (fst b) then 1 else 0)"
      using verify_vote_options(2) [OF E _ _ assms(5), of ek "fst b" counts "snd b"] Cons.prems by (cases b) simp
    then show ?case using Cons by (auto simp: case_prod_unfold chose_def)
  qed simp
  finally have n: "plain E (ek_key ek) ?T = of_nat ?n" .
  have "m = ct_b ?T - smul E (dlog E (ek_key ek)) (ct_a ?T)"
    using combine_plaintext [OF assms(1-3) assms(8)] assms(9) by (simp add: unlucky_def)
  then have "dlog E m = of_nat ?n" using n by (simp add: plain_def dlog_simps [OF E])
  then have "m = smul E (of_nat ?n) (gen E)" using smul_dlog [OF E, of m] by simp
  moreover have "?n \<le> unat mx" using assms(6) length_filter_le order_trans by blast
  ultimately have "bsgs_tally E m mx = Ok (word_of_nat ?n)" using bsgs_tally_exact(1) [OF E assms(7)] by blast
  then show ?thesis using bsgs_tally_exact [OF E assms(7)] by blast
qed

definition example_vote :: "(rat, rat) encrypted_question" where
  "example_vote = \<lparr>eq_options = [(\<lparr>ct_a = 1, ct_b = 3\<rparr>, \<lparr>oo_parts = [(0, 0), (1, 0)]\<rparr>)], eq_sum_proof = \<lparr>oo_parts = [(1, 0)]\<rparr>\<rparr>"

lemma dlog_example: "dlog example_env x = x"
  using dlog_gen [OF example_group, of x] by (simp add: example_env_def)

lemma example_vote_checked:
  "verify_vote example_env example_ek example_vote 1 [1] ctx = Ok ()"
  "plain example_env 2 \<lparr>ct_a = 1, ct_b = 3\<rparr> = 1" "vote_unlucky example_env example_ek example_vote [1] ctx"
proof -
  show "verify_vote example_env example_ek example_vote 1 [1] ctx = Ok ()"
    by (simp add: verify_vote_def example_vote_def one_of_verify_def one_of_challenge_def challenge_def example_env_def Let_def)
  show p: "plain example_env 2 \<lparr>ct_a = 1, ct_b = 3\<rparr> = 1" by (simp add: plain_def dlog_example)
  have "total [\<lparr>ct_a = 1, ct_b = 3\<rparr>] = (\<lparr>ct_a = 1, ct_b = 3\<rparr> :: rat ciphertext)" by (simp add: total_def ct_add_def ct_zero_def)
  then show "vote_unlucky example_env example_ek example_vote [1] ctx"
    using p by (simp add: vote_unlucky_def example_vote_def one_of_lucky_def Let_def example_ek_def sc_def)
qed

theorem encrypted_tally_counts_witness:
  "\<exists>m. combine example_env example_ek (total [\<lparr>ct_a = 1, ct_b = 3\<rparr>])
     (map (\<lambda>k. fst (partial_decrypt example_env k \<lparr>ct_a = 1, ct_b = 3\<rparr> [] (sconst [])))
       [\<lparr>tk_index = 1, tk_secret = 4\<rparr>, \<lparr>tk_index = 2, tk_secret = 6\<rparr>]) [] = Ok m \<and>
   bsgs_tally example_env m 5 = Ok 1"
proof -
  let ?ct = "\<lparr>ct_a = 1, ct_b = 3\<rparr> :: rat ciphertext"
  let ?keys = "[\<lparr>tk_index = 1, tk_secret = 4\<rparr>, \<lparr>tk_index = 2, tk_secret = 6 :: rat\<rparr>]"
  let ?ps = "map (\<lambda>k. fst (partial_decrypt example_env k ?ct [] (sconst []))) ?keys"
  have t: "total [?ct] = ?ct" by (simp add: total_def ct_add_def ct_zero_def)
  have pos: "0 < th_t example_threshold" by (simp add: example_threshold_def)
  have keys: "\<forall>k\<in>set ?keys. \<exists>shares ds. from_shares example_env (tk_index k) shares ds example_ek = Ok k"
    using example_holder by (simp add: holds_key_def)
  have c: "combine example_env example_ek ?ct ?ps [] = Ok 1"
    using combine_honest [OF example_group example_key [of "[]"] pos keys, of 1 1 "[]" "\<lambda>_. sconst []"]
    by (simp add: example_threshold_def example_env_def example_ek_def)
  have u: "\<forall>p\<in>set ?ps. unlucky example_env example_ek ?ct [] p"
  proof
    fix p assume "p \<in> set ?ps"
    then obtain k where k: "k \<in> set ?keys" "p = fst (partial_decrypt example_env k ?ct [] (sconst []))" by auto
    then obtain shares ds where fs: "from_shares example_env (tk_index k) shares ds example_ek = Ok k" using keys by blast
    then show "unlucky example_env example_ek ?ct [] p"
      using honest_not_lucky [OF example_group fs] partial_decrypt_verifies(2) [OF example_group fs]
      unfolding unlucky_def k(2) by metis
  qed
  have "bsgs_tally example_env 1 5 = Ok 1"
    using encrypted_tally_counts [where ballots = "[(example_vote, [])]" and options = 1 and counts = "[1]" and j = 0
        and mx = 5 and ps = ?ps and tctx = "[]" and m = 1, OF example_group example_key [of "[]"] pos]
      example_vote_checked(1,3) [of "[]"] example_vote_checked(2) c u t
    by (simp add: example_vote_def example_ek_def)
  then show ?thesis using c t by simp
qed

end
