(* ===== verification/Ceremony.thy ===== *)
theory Ceremony
  imports Encrypted_Ballots "HOL-Library.Product_Lexorder"
begin

text \<open>
  The trustees' ceremony as the ballot box runs it (\<open>vti-voting/src/ceremony.rs\<close>): the state machine that
  generates the election key on the board, and the decryption round after close.  \<open>BTreeMap\<close>s are ordered
  association lists and \<open>BTreeSet\<close>s sets; a refused step leaves the state as it was.  The invariant of the
  machine is proved for every reachable state; from it follow who stands behind a key, that the ceremony
  settles, and that a complete decryption round opens every target.
\<close>

section \<open>Key generation\<close>

datatype phase = Enrolling | Dealing | Confirming | Keyed | Failed

definition phase_wire :: "phase \<Rightarrow> string" where
  "phase_wire p =
     (case p of Enrolling \<Rightarrow> ''enrolling'' | Dealing \<Rightarrow> ''dealing'' | Confirming \<Rightarrow> ''confirming''
      | Keyed \<Rightarrow> ''keyed'' | Failed \<Rightarrow> ''failed'')"

datatype ceremony_error =
    NotEnrolling | AlreadyEnrolled | TransportKeyInvalid | NotDealing | AlreadyDealt | DealingInvalid
  | NotConfirming | AlreadyConfirmed | NoComplaint | ShareInvalid | NotDecrypting | PartialInvalid | Malformed

datatype step = Accepted | Repeat

record ('s, 'p) sealed_dealing =
  sd_dealing :: "('s, 'p) dealing"
  sd_shares :: "(u32, 'p sealed) keyspace"

record 's complaint =
  cm_dealer :: u32
  cm_recipient :: u32
  cm_justified :: "'s option"

record ('s, 'p) ceremony =
  c_threshold :: threshold
  c_ctx :: bytes
  c_phase :: phase
  c_transport :: "(u32, ('s, 'p) transport_key) keyspace"
  c_dealings :: "(u32, ('s, 'p) sealed_dealing) keyspace"
  c_confirmed :: "(u32, u32 set) keyspace"
  c_justified :: "(u32 \<times> u32, 's) keyspace"
  c_key :: "'p election_key option"

definition ceremony_new :: "threshold \<Rightarrow> bytes \<Rightarrow> ('s, 'p) ceremony" where
  "ceremony_new threshold ctx =
     \<lparr> c_threshold = threshold, c_ctx = ctx, c_phase = Enrolling, c_transport = [], c_dealings = [],
       c_confirmed = [], c_justified = [], c_key = None \<rparr>"

definition complaints :: "('s, 'p) ceremony \<Rightarrow> 's complaint list" where
  "complaints c =
     sort_key (\<lambda>m. (cm_dealer m, cm_recipient m))
       (concat (map (\<lambda>(recipient, against).
          map (\<lambda>dealer. \<lparr>cm_dealer = dealer, cm_recipient = recipient,
                 cm_justified = get_raw (c_justified c) (dealer, recipient)\<rparr>)
            (sorted_list_of_set against)) (c_confirmed c)))"

definition ceremony_index :: "('s, 'p) ceremony \<Rightarrow> u32 \<Rightarrow> (ceremony_error, unit) result" where
  "ceremony_index c i = (if i = 0 \<or> i > th_n (c_threshold c) then Err Malformed else Ok ())"

text \<open>A step answers with its result and the state it leaves.\<close>

type_synonym ('s, 'p) stepped = "(ceremony_error, step) result \<times> ('s, 'p) ceremony"

definition enrol ::
    "('s::field, 'p::ab_group_add) group_env \<Rightarrow> ('s, 'p) transport_key \<Rightarrow> ('s, 'p) ceremony \<Rightarrow> ('s, 'p) stepped" where
  "enrol E tk c =
     (case ceremony_index c (tp_trustee tk) of
        Err e \<Rightarrow> (Err e, c)
      | Ok _ \<Rightarrow>
          (case get_raw (c_transport c) (tp_trustee tk) of
             Some held \<Rightarrow> (if held = tk then (Ok Repeat, c) else (Err AlreadyEnrolled, c))
           | None \<Rightarrow>
               if c_phase c \<noteq> Enrolling then (Err NotEnrolling, c)
               else if \<not> is_ok (verify_transport_key E tk (c_threshold c) (c_ctx c)) then (Err TransportKeyInvalid, c)
               else
                 let c = c\<lparr>c_transport := insert_raw (tp_trustee tk) tk (c_transport c)\<rparr>;
                     c = (if length (c_transport c) = unat (th_n (c_threshold c)) then c\<lparr>c_phase := Dealing\<rparr> else c)
                 in (Ok Accepted, c)))"

definition ceremony_deal ::
    "('s::field, 'p::ab_group_add) group_env \<Rightarrow> ('s, 'p) sealed_dealing \<Rightarrow> ('s, 'p) ceremony \<Rightarrow> ('s, 'p) stepped" where
  "ceremony_deal E d c =
     (let dealer = dl_dealer (sd_dealing d)
      in case ceremony_index c dealer of
        Err e \<Rightarrow> (Err e, c)
      | Ok _ \<Rightarrow>
          (case get_raw (c_dealings c) dealer of
             Some held \<Rightarrow> (if held = d then (Ok Repeat, c) else (Err AlreadyDealt, c))
           | None \<Rightarrow>
               if c_phase c \<noteq> Dealing then (Err NotDealing, c)
               else if \<not> is_ok (verify_dealing E (sd_dealing d) (c_threshold c) (c_ctx c)) then (Err DealingInvalid, c)
               else if map fst (sd_shares d) \<noteq> up_to (th_n (c_threshold c)) then (Err DealingInvalid, c)
               else
                 let c = c\<lparr>c_dealings := insert_raw dealer d (c_dealings c)\<rparr>;
                     c = (if length (c_dealings c) = unat (th_n (c_threshold c)) then c\<lparr>c_phase := Confirming\<rparr> else c)
                 in (Ok Accepted, c)))"

definition qualified_dealers :: "('s, 'p) ceremony \<Rightarrow> u32 list" where
  "qualified_dealers c =
     (let unjustified = set (map cm_dealer (filter (\<lambda>m. cm_justified m = None) (complaints c)))
      in filter (\<lambda>d. d \<notin> unjustified) (map fst (c_dealings c)))"

definition form :: "('s::field, 'p::ab_group_add) group_env \<Rightarrow> ('s, 'p) ceremony \<Rightarrow> ('s, 'p) ceremony" where
  "form E c =
     (if length (c_confirmed c) < unat (th_t (c_threshold c)) then c\<lparr>c_phase := Failed\<rparr>
      else
        let q = qualified_dealers c;
            dealings = map (\<lambda>d. sd_dealing (the (get_raw (c_dealings c) d))) q
        in case from_dealings E dealings (c_threshold c) (c_ctx c) of
             Ok k \<Rightarrow> c\<lparr>c_key := Some k, c_phase := Keyed\<rparr>
           | Err _ \<Rightarrow> c\<lparr>c_phase := Failed\<rparr>)"

definition form_if_complete :: "('s::field, 'p::ab_group_add) group_env \<Rightarrow> ('s, 'p) ceremony \<Rightarrow> ('s, 'p) ceremony" where
  "form_if_complete E c =
     (let all_confirmed = (length (c_confirmed c) = unat (th_n (c_threshold c)));
          all_answered = list_all (\<lambda>m. cm_justified m \<noteq> None) (complaints c)
      in if all_confirmed \<and> all_answered then form E c else c)"

definition confirm ::
    "('s::field, 'p::ab_group_add) group_env \<Rightarrow> u32 \<Rightarrow> u32 set \<Rightarrow> ('s, 'p) ceremony \<Rightarrow> ('s, 'p) stepped" where
  "confirm E trustee against c =
     (case res_bind (ceremony_index c trustee) (\<lambda>_.
             res_all (\<lambda>m. res_bind (ceremony_index c m) (\<lambda>_. if m = trustee then Err Malformed else Ok ()))
               (sorted_list_of_set against)) of
        Err e \<Rightarrow> (Err e, c)
      | Ok _ \<Rightarrow>
          (case get_raw (c_confirmed c) trustee of
             Some held \<Rightarrow> (if held = against then (Ok Repeat, c) else (Err AlreadyConfirmed, c))
           | None \<Rightarrow>
               if c_phase c \<noteq> Confirming then (Err NotConfirming, c)
               else (Ok Accepted, form_if_complete E (c\<lparr>c_confirmed := insert_raw trustee against (c_confirmed c)\<rparr>))))"

definition justify ::
    "('s::field, 'p::ab_group_add) group_env \<Rightarrow> u32 \<Rightarrow> u32 \<Rightarrow> 's \<Rightarrow> ('s, 'p) ceremony \<Rightarrow> ('s, 'p) stepped" where
  "justify E dealer recipient v c =
     (case res_bind (ceremony_index c dealer) (\<lambda>_. ceremony_index c recipient) of
        Err e \<Rightarrow> (Err e, c)
      | Ok _ \<Rightarrow>
          (case get_raw (c_justified c) (dealer, recipient) of
             Some held \<Rightarrow> (if held = v then (Ok Repeat, c) else (Err ShareInvalid, c))
           | None \<Rightarrow>
               if c_phase c \<noteq> Confirming then (Err NotConfirming, c)
               else if \<not> (case get_raw (c_confirmed c) recipient of None \<Rightarrow> False | Some m \<Rightarrow> dealer \<in> m)
                 then (Err NoComplaint, c)
               else if \<not> is_ok (verify_share E (sd_dealing (the (get_raw (c_dealings c) dealer)))
                   \<lparr>sh_dealer = dealer, sh_recipient = recipient, sh_value = v\<rparr>) then (Err ShareInvalid, c)
               else (Ok Accepted, form_if_complete E (c\<lparr>c_justified := insert_raw (dealer, recipient) v (c_justified c)\<rparr>))))"

definition deadline :: "('s::field, 'p::ab_group_add) group_env \<Rightarrow> ('s, 'p) ceremony \<Rightarrow> bool \<times> ('s, 'p) ceremony" where
  "deadline E c =
     (let c' = (case c_phase c of
                  Keyed \<Rightarrow> c | Failed \<Rightarrow> c
                | Confirming \<Rightarrow> form E c
                | Enrolling \<Rightarrow> c\<lparr>c_phase := Failed\<rparr> | Dealing \<Rightarrow> c\<lparr>c_phase := Failed\<rparr>)
      in (c_phase c' \<noteq> c_phase c, c'))"

section \<open>The decryption round\<close>

record ('k, 's, 'p) decryption =
  d_key :: "'p election_key"
  d_ctx :: bytes
  d_targets :: "('k \<times> 'p ciphertext) list"
  d_partials :: "(u32, ('s, 'p) partial_decryption list) keyspace"

definition decryption_new :: "'p election_key \<Rightarrow> bytes \<Rightarrow> ('k \<times> 'p ciphertext) list \<Rightarrow> ('k, 's, 'p) decryption" where
  "decryption_new key ctx targets = \<lparr>d_key = key, d_ctx = ctx, d_targets = targets, d_partials = []\<rparr>"

definition complete :: "('k, 's, 'p) decryption \<Rightarrow> bool" where
  "complete d \<longleftrightarrow> length (d_partials d) \<ge> unat (th_t (ek_threshold (d_key d)))"

primrec accept_loop ::
    "('s::field, 'p::ab_group_add) group_env \<Rightarrow> 'p election_key \<Rightarrow> bytes \<Rightarrow> u32 \<Rightarrow>
     (('k \<times> 'p ciphertext \<times> ('s, 'p) partial_decryption) \<times> 'k \<times> 'p ciphertext) list \<Rightarrow> (ceremony_error, unit) result" where
  "accept_loop E key ctx trustee [] = Ok ()"
| "accept_loop E key ctx trustee (x # xs) =
     (let ((k, ct, p), (tk, tct)) = x
      in if k \<noteq> tk \<or> ct \<noteq> tct then Err PartialInvalid
         else if pd_trustee p \<noteq> trustee then Err PartialInvalid
         else if \<not> is_ok (verify_partial E key ct p ctx) then Err PartialInvalid
         else accept_loop E key ctx trustee xs)"

definition accept ::
    "('s::field, 'p::ab_group_add) group_env \<Rightarrow> u32 \<Rightarrow> ('k \<times> 'p ciphertext \<times> ('s, 'p) partial_decryption) list \<Rightarrow>
     ('k, 's, 'p) decryption \<Rightarrow> (ceremony_error, step) result \<times> ('k, 's, 'p) decryption" where
  "accept E trustee given d =
     (if trustee = 0 \<or> trustee > th_n (ek_threshold (d_key d)) then (Err Malformed, d)
      else
        let parts = map (\<lambda>(_, _, p). p) given
        in case get_raw (d_partials d) trustee of
          Some held \<Rightarrow> (if held = parts then (Ok Repeat, d) else (Err PartialInvalid, d))
        | None \<Rightarrow>
            if complete d then (Err NotDecrypting, d)
            else if length given \<noteq> length (d_targets d) then (Err PartialInvalid, d)
            else (case accept_loop E (d_key d) (d_ctx d) trustee (zip given (d_targets d)) of
                    Err e \<Rightarrow> (Err e, d)
                  | Ok _ \<Rightarrow> (Ok Accepted, d\<lparr>d_partials := insert_raw trustee parts (d_partials d)\<rparr>)))"

definition plaintexts ::
    "('s::field, 'p::ab_group_add) group_env \<Rightarrow> ('k, 's, 'p) decryption \<Rightarrow> (ceremony_error, ('k \<times> 'p) list) result" where
  "plaintexts E d =
     (if \<not> complete d then Err NotDecrypting
      else res_collect (\<lambda>(i, (k, ct)).
        let parts = map (\<lambda>(_, ps). ps ! i) (d_partials d)
        in case combine E (d_key d) ct parts (d_ctx d) of Ok m \<Rightarrow> Ok (k, m) | Err _ \<Rightarrow> Err PartialInvalid)
        (enumerate 0 (d_targets d)))"

section \<open>Runs of the ceremony\<close>

datatype ('s, 'p) ceremony_input =
    Enrol "('s, 'p) transport_key"
  | Deal "('s, 'p) sealed_dealing"
  | Confirm u32 "u32 set"
  | Justify u32 u32 's
  | Deadline

fun ceremony_step ::
    "('s::field, 'p::ab_group_add) group_env \<Rightarrow> ('s, 'p) ceremony_input \<Rightarrow> ('s, 'p) ceremony \<Rightarrow>
     (ceremony_error, step) result option \<times> ('s, 'p) ceremony" where
  "ceremony_step E (Enrol tk) c = map_prod Some id (enrol E tk c)"
| "ceremony_step E (Deal d) c = map_prod Some id (ceremony_deal E d c)"
| "ceremony_step E (Confirm i a) c = map_prod Some id (confirm E i a c)"
| "ceremony_step E (Justify d r v) c = map_prod Some id (justify E d r v c)"
| "ceremony_step E Deadline c = (None, snd (deadline E c))"

fun ceremony_run ::
    "('s::field, 'p::ab_group_add) group_env \<Rightarrow> ('s, 'p) ceremony_input list \<Rightarrow> ('s, 'p) ceremony \<Rightarrow> ('s, 'p) ceremony" where
  "ceremony_run E [] c = c"
| "ceremony_run E (i # is) c = ceremony_run E is (snd (ceremony_step E i c))"

abbreviation trustee_index :: "('s, 'p) ceremony \<Rightarrow> u32 \<Rightarrow> bool" where
  "trustee_index c i \<equiv> i \<noteq> 0 \<and> i \<le> th_n (c_threshold c)"

definition complained :: "('s, 'p) ceremony \<Rightarrow> u32 \<Rightarrow> u32 \<Rightarrow> bool" where
  "complained c dealer recipient \<longleftrightarrow> (\<exists>a. get_raw (c_confirmed c) recipient = Some a \<and> dealer \<in> a)"

definition unanswered :: "('s, 'p) ceremony \<Rightarrow> u32 \<Rightarrow> bool" where
  "unanswered c dealer \<longleftrightarrow> (\<exists>recipient. complained c dealer recipient \<and> get_raw (c_justified c) (dealer, recipient) = None)"

definition revealed :: "('s::field, 'p::ab_group_add) group_env \<Rightarrow> ('s, 'p) ceremony \<Rightarrow> u32 \<Rightarrow> u32 \<Rightarrow> 's \<Rightarrow> bool" where
  "revealed E c dealer recipient v \<longleftrightarrow> complained c dealer recipient \<and>
     (\<exists>sd. get_raw (c_dealings c) dealer = Some sd \<and>
        verify_share E (sd_dealing sd) \<lparr>sh_dealer = dealer, sh_recipient = recipient, sh_value = v\<rparr> = Ok ())"

definition chosen_dealings :: "('s, 'p) ceremony \<Rightarrow> ('s, 'p) dealing list" where
  "chosen_dealings c = map (\<lambda>d. sd_dealing (the (get_raw (c_dealings c) d))) (qualified_dealers c)"

definition phase_wf :: "('s::field, 'p::ab_group_add) group_env \<Rightarrow> ('s, 'p) ceremony \<Rightarrow> bool" where
  "phase_wf E c \<longleftrightarrow>
     (let n = unat (th_n (c_threshold c)); t = unat (th_t (c_threshold c))
      in case c_phase c of
        Enrolling \<Rightarrow> length (c_transport c) < n \<and> c_dealings c = [] \<and> c_confirmed c = [] \<and> c_justified c = [] \<and> c_key c = None
      | Dealing \<Rightarrow> length (c_transport c) = n \<and> length (c_dealings c) < n \<and> c_confirmed c = [] \<and> c_justified c = [] \<and> c_key c = None
      | Confirming \<Rightarrow> length (c_transport c) = n \<and> length (c_dealings c) = n \<and> c_key c = None \<and>
          \<not> (length (c_confirmed c) = n \<and> (\<forall>d. \<not> unanswered c d))
      | Keyed \<Rightarrow> length (c_transport c) = n \<and> length (c_dealings c) = n \<and> t \<le> length (c_confirmed c) \<and>
          (\<exists>k. c_key c = Some k \<and> from_dealings E (chosen_dealings c) (c_threshold c) (c_ctx c) = Ok k)
      | Failed \<Rightarrow> c_key c = None)"

definition records_wf :: "('s::field, 'p::ab_group_add) group_env \<Rightarrow> ('s, 'p) ceremony \<Rightarrow> bool" where
  "records_wf E c \<longleftrightarrow>
     2 \<le> th_t (c_threshold c) \<and> th_t (c_threshold c) \<le> th_n (c_threshold c) \<and>
     ks_ordered (c_transport c) \<and> ks_ordered (c_dealings c) \<and> ks_ordered (c_confirmed c) \<and> ks_ordered (c_justified c) \<and>
     (\<forall>i tk. get_raw (c_transport c) i = Some tk \<longrightarrow> tp_trustee tk = i \<and> trustee_index c i \<and>
        verify_transport_key E tk (c_threshold c) (c_ctx c) = Ok ()) \<and>
     (\<forall>i d. get_raw (c_dealings c) i = Some d \<longrightarrow> dl_dealer (sd_dealing d) = i \<and> trustee_index c i \<and>
        verify_dealing E (sd_dealing d) (c_threshold c) (c_ctx c) = Ok () \<and>
        map fst (sd_shares d) = up_to (th_n (c_threshold c))) \<and>
     (\<forall>i a. get_raw (c_confirmed c) i = Some a \<longrightarrow> trustee_index c i \<and> i \<notin> a \<and> (\<forall>m\<in>a. trustee_index c m)) \<and>
     (\<forall>d r v. get_raw (c_justified c) (d, r) = Some v \<longrightarrow> revealed E c d r v)"

definition ceremony_wf :: "('s::field, 'p::ab_group_add) group_env \<Rightarrow> ('s, 'p) ceremony \<Rightarrow> bool" where
  "ceremony_wf E c \<longleftrightarrow> records_wf E c \<and> phase_wf E c"

section \<open>Complaints and qualified dealers\<close>

lemma finite_u32 [simp]: "finite (A :: u32 set)"
  by (rule finite_subset [OF subset_UNIV]) simp

lemma complaints_set:
  assumes "ks_ordered (c_confirmed c)"
  shows "m \<in> set (complaints c) \<longleftrightarrow> complained c (cm_dealer m) (cm_recipient m) \<and>
    cm_justified m = get_raw (c_justified c) (cm_dealer m, cm_recipient m) \<and> complaint.more m = ()"
proof -
  have "m \<in> set (complaints c) \<longleftrightarrow> (\<exists>r a d. (r, a) \<in> set (c_confirmed c) \<and> d \<in> a \<and>
      m = \<lparr>cm_dealer = d, cm_recipient = r, cm_justified = get_raw (c_justified c) (d, r)\<rparr>)"
    by (auto simp: complaints_def image_iff)
  also have "\<dots> \<longleftrightarrow> complained c (cm_dealer m) (cm_recipient m) \<and>
      cm_justified m = get_raw (c_justified c) (cm_dealer m, cm_recipient m) \<and> complaint.more m = ()"
    unfolding ordered_get_raw [OF assms] complained_def by (cases m) auto
  finally show ?thesis .
qed

lemma all_answered:
  assumes "ks_ordered (c_confirmed c)"
  shows "list_all (\<lambda>m. cm_justified m \<noteq> None) (complaints c) \<longleftrightarrow> (\<forall>d. \<not> unanswered c d)"
proof
  assume l: "list_all (\<lambda>m. cm_justified m \<noteq> None) (complaints c)"
  show "\<forall>d. \<not> unanswered c d"
  proof (intro allI notI)
    fix d assume "unanswered c d"
    then obtain r where r: "complained c d r" "get_raw (c_justified c) (d, r) = None" by (auto simp: unanswered_def)
    then have "\<lparr>cm_dealer = d, cm_recipient = r, cm_justified = None\<rparr> \<in> set (complaints c)"
      by (simp add: complaints_set [OF assms])
    then show False using l by (auto simp: list_all_iff)
  qed
qed (auto simp: list_all_iff complaints_set [OF assms] unanswered_def)

lemma qualified_dealers_set:
  assumes "ks_ordered (c_confirmed c)"
  shows "qualified_dealers c = filter (\<lambda>d. \<not> unanswered c d) (map fst (c_dealings c))"
proof -
  have "d \<in> set (map cm_dealer (filter (\<lambda>m. cm_justified m = None) (complaints c))) \<longleftrightarrow> unanswered c d" for d
  proof
    assume "unanswered c d"
    then obtain r where "complained c d r" "get_raw (c_justified c) (d, r) = None" by (auto simp: unanswered_def)
    then have "\<lparr>cm_dealer = d, cm_recipient = r, cm_justified = None\<rparr> \<in> set (filter (\<lambda>m. cm_justified m = None) (complaints c))"
      by (simp add: complaints_set [OF assms])
    then show "d \<in> set (map cm_dealer (filter (\<lambda>m. cm_justified m = None) (complaints c)))" by force
  qed (auto simp: complaints_set [OF assms] unanswered_def)
  then show ?thesis by (simp add: qualified_dealers_def Let_def)
qed

section \<open>The invariant\<close>

lemma settle_simps [simp]:
  "complained (c\<lparr>c_phase := p\<rparr>) = complained c" "complained (c\<lparr>c_key := k\<rparr>) = complained c"
  "unanswered (c\<lparr>c_phase := p\<rparr>) = unanswered c" "unanswered (c\<lparr>c_key := k\<rparr>) = unanswered c"
  "revealed E (c\<lparr>c_phase := p\<rparr>) = revealed E c" "revealed E (c\<lparr>c_key := k\<rparr>) = revealed E c"
  "qualified_dealers (c\<lparr>c_phase := p\<rparr>) = qualified_dealers c" "qualified_dealers (c\<lparr>c_key := k\<rparr>) = qualified_dealers c"
  "chosen_dealings (c\<lparr>c_phase := p\<rparr>) = chosen_dealings c" "chosen_dealings (c\<lparr>c_key := k\<rparr>) = chosen_dealings c"
  "records_wf E (c\<lparr>c_phase := p\<rparr>) = records_wf E c" "records_wf E (c\<lparr>c_key := k\<rparr>) = records_wf E c"
  by (simp_all add: fun_eq_iff complained_def unanswered_def revealed_def qualified_dealers_def complaints_def
      chosen_dealings_def records_wf_def)

lemma records_wfD:
  assumes "records_wf E c"
  shows "2 \<le> th_t (c_threshold c)" "th_t (c_threshold c) \<le> th_n (c_threshold c)"
    "ks_ordered (c_transport c)" "ks_ordered (c_dealings c)" "ks_ordered (c_confirmed c)" "ks_ordered (c_justified c)"
    "get_raw (c_transport c) i = Some tk \<Longrightarrow> tp_trustee tk = i \<and> trustee_index c i \<and>
        verify_transport_key E tk (c_threshold c) (c_ctx c) = Ok ()"
    "get_raw (c_dealings c) i = Some d \<Longrightarrow> dl_dealer (sd_dealing d) = i \<and> trustee_index c i \<and>
        verify_dealing E (sd_dealing d) (c_threshold c) (c_ctx c) = Ok () \<and> map fst (sd_shares d) = up_to (th_n (c_threshold c))"
    "get_raw (c_confirmed c) i = Some a \<Longrightarrow> trustee_index c i \<and> i \<notin> a \<and> (\<forall>m\<in>a. trustee_index c m)"
    "get_raw (c_justified c) (j, r) = Some v \<Longrightarrow> revealed E c j r v"
  using assms by (simp_all add: records_wf_def)

lemma chosen_dealings_wf:
  assumes "records_wf E c"
  shows "map dl_dealer (chosen_dealings c) = qualified_dealers c" "distinct (qualified_dealers c)" "sorted (qualified_dealers c)"
    "\<forall>d\<in>set (chosen_dealings c). verify_dealing E d (c_threshold c) (c_ctx c) = Ok ()"
proof -
  note W = records_wfD [OF assms]
  have q: "qualified_dealers c = filter (\<lambda>d. \<not> unanswered c d) (map fst (c_dealings c))"
    by (rule qualified_dealers_set [OF W(5)])
  have "\<exists>sd. get_raw (c_dealings c) d = Some sd" if "d \<in> set (qualified_dealers c)" for d
    using that q get_raw_None_iff [of "c_dealings c" d] by (auto simp: keys_of_def)
  then show "map dl_dealer (chosen_dealings c) = qualified_dealers c"
    "\<forall>d\<in>set (chosen_dealings c). verify_dealing E d (c_threshold c) (c_ctx c) = Ok ()"
    using W(8) by (fastforce simp: chosen_dealings_def intro: map_idI)+
  show "distinct (qualified_dealers c)" using ordered_distinct [OF W(4)] by (simp add: q)
  have "sorted (map fst (c_dealings c))" using W(4) by (auto simp: ks_ordered_def sorted_map elim: sorted_wrt_mono_rel [rotated])
  then show "sorted (qualified_dealers c)" unfolding q by (rule sorted_wrt_filter)
qed

text \<open>Forming the key succeeds exactly with a quorum of confirmations and of qualified dealers.\<close>

definition quorum :: "('s, 'p) ceremony \<Rightarrow> bool" where
  "quorum c \<longleftrightarrow> unat (th_t (c_threshold c)) \<le> length (c_confirmed c) \<and>
     unat (th_t (c_threshold c)) \<le> length (qualified_dealers c)"

lemma from_chosen:
  assumes "records_wf E c"
  shows "unat (th_t (c_threshold c)) \<le> length (qualified_dealers c) \<Longrightarrow>
      \<exists>k. from_dealings E (chosen_dealings c) (c_threshold c) (c_ctx c) = Ok k \<and> ek_qualified k = qualified_dealers c \<and>
        ek_threshold k = c_threshold c"
    and "\<not> unat (th_t (c_threshold c)) \<le> length (qualified_dealers c) \<Longrightarrow>
      \<exists>e. from_dealings E (chosen_dealings c) (c_threshold c) (c_ctx c) = Err e"
proof -
  note C = chosen_dealings_wf [OF assms]
  have dealers: "sorted_list_of_set (set (map dl_dealer (chosen_dealings c))) = qualified_dealers c"
    unfolding C(1) using C(2,3) by (rule sorted_list_of_set.idem_if_sorted_distinct [rotated])
  have len: "length (chosen_dealings c) = length (qualified_dealers c)" by (simp add: chosen_dealings_def)
  have all: "res_all (\<lambda>d. verify_dealing E d (c_threshold c) (c_ctx c)) (chosen_dealings c) = Ok ()"
    using C(4) by (simp add: res_all_Ok_iff)
  show "unat (th_t (c_threshold c)) \<le> length (qualified_dealers c) \<Longrightarrow>
      \<exists>k. from_dealings E (chosen_dealings c) (c_threshold c) (c_ctx c) = Ok k \<and> ek_qualified k = qualified_dealers c \<and>
        ek_threshold k = c_threshold c"
    unfolding from_dealings_def Let_def dealers len all by simp
  show "\<not> unat (th_t (c_threshold c)) \<le> length (qualified_dealers c) \<Longrightarrow>
      \<exists>e. from_dealings E (chosen_dealings c) (c_threshold c) (c_ctx c) = Err e"
    unfolding from_dealings_def Let_def dealers len by auto
qed

lemma form_cases:
  assumes "records_wf E c"
  shows "quorum c \<Longrightarrow> \<exists>k. form E c = c\<lparr>c_key := Some k, c_phase := Keyed\<rparr> \<and>
      from_dealings E (chosen_dealings c) (c_threshold c) (c_ctx c) = Ok k"
    and "\<not> quorum c \<Longrightarrow> form E c = c\<lparr>c_phase := Failed\<rparr>"
proof -
  show "quorum c \<Longrightarrow> \<exists>k. form E c = c\<lparr>c_key := Some k, c_phase := Keyed\<rparr> \<and>
      from_dealings E (chosen_dealings c) (c_threshold c) (c_ctx c) = Ok k"
    using from_chosen(1) [OF assms] unfolding form_def quorum_def Let_def chosen_dealings_def [symmetric] by fastforce
  show "form E c = c\<lparr>c_phase := Failed\<rparr>" if "\<not> quorum c"
  proof (cases "length (c_confirmed c) < unat (th_t (c_threshold c))")
    case False
    then have "\<not> unat (th_t (c_threshold c)) \<le> length (qualified_dealers c)" using that by (simp add: quorum_def)
    then obtain e where "from_dealings E (chosen_dealings c) (c_threshold c) (c_ctx c) = Err e"
      using from_chosen(2) [OF assms] by blast
    then show ?thesis using False unfolding form_def Let_def chosen_dealings_def [symmetric] by simp
  qed (simp add: form_def)
qed

lemma form_wf:
  assumes "records_wf E c" "length (c_transport c) = unat (th_n (c_threshold c))"
    "length (c_dealings c) = unat (th_n (c_threshold c))" "c_key c = None"
  shows "ceremony_wf E (form E c)"
proof (cases "quorum c")
  case True
  then obtain k where "form E c = c\<lparr>c_key := Some k, c_phase := Keyed\<rparr>"
    "from_dealings E (chosen_dealings c) (c_threshold c) (c_ctx c) = Ok k"
    using form_cases(1) [OF assms(1)] by blast
  then show ?thesis using assms True by (simp add: ceremony_wf_def phase_wf_def quorum_def)
next
  case False
  then show ?thesis using form_cases(2) [OF assms(1)] assms by (simp add: ceremony_wf_def phase_wf_def)
qed

lemma form_if_complete_wf:
  assumes "records_wf E c" "length (c_transport c) = unat (th_n (c_threshold c))"
    "length (c_dealings c) = unat (th_n (c_threshold c))" "c_key c = None" "c_phase c = Confirming"
  shows "ceremony_wf E (form_if_complete E c)"
proof -
  have "form_if_complete E c = (if length (c_confirmed c) = unat (th_n (c_threshold c)) \<and> (\<forall>d. \<not> unanswered c d) then form E c else c)"
    unfolding form_if_complete_def Let_def all_answered [OF records_wfD(5) [OF assms(1)]] ..
  then show ?thesis using form_wf [OF assms(1-4)] assms by (auto simp: ceremony_wf_def phase_wf_def)
qed

lemma get_raw_empty: "get_raw [] k = None"
  by (simp add: get_raw_def)

lemma length_insert_new: "get_raw ks k = None \<Longrightarrow> length (insert_raw k v ks) = Suc (length ks)"
  by (induction k v ks rule: insert_raw.induct) (auto simp: get_raw_def)

lemma ceremony_index_Ok: "ceremony_index c i = Ok u \<longleftrightarrow> trustee_index c i"
  by (auto simp: ceremony_index_def not_less)

text \<open>A step either changes nothing, or was accepted.\<close>

lemma enrol_cases:
  obtains (refused) "snd (enrol E tk c) = c" "fst (enrol E tk c) \<noteq> Ok Accepted"
  | (accepted) c' where "fst (enrol E tk c) = Ok Accepted" "trustee_index c (tp_trustee tk)" "c_phase c = Enrolling"
      "get_raw (c_transport c) (tp_trustee tk) = None" "verify_transport_key E tk (c_threshold c) (c_ctx c) = Ok ()"
      "c' = c\<lparr>c_transport := insert_raw (tp_trustee tk) tk (c_transport c)\<rparr>"
      "snd (enrol E tk c) = (if length (c_transport c') = unat (th_n (c_threshold c)) then c'\<lparr>c_phase := Dealing\<rparr> else c')"
proof (cases "ceremony_index c (tp_trustee tk)")
  case (Inr u)
  note i = iffD1 [OF ceremony_index_Ok Inr]
  show ?thesis
  proof (cases "get_raw (c_transport c) (tp_trustee tk) = None \<and> c_phase c = Enrolling \<and>
      verify_transport_key E tk (c_threshold c) (c_ctx c) = Ok ()")
    case True
    then show ?thesis using Inr i by (intro that(2) [OF _ _ _ _ _ refl]) (auto simp: enrol_def is_ok_unit Let_def)
  next
    case False
    then show ?thesis using Inr by (intro that(1)) (auto simp: enrol_def is_ok_unit Let_def split: option.splits)
  qed
qed (use that(1) in \<open>simp add: enrol_def\<close>)

lemma deal_cases:
  fixes d :: "('s::field, 'p::ab_group_add) sealed_dealing"
  defines "i \<equiv> dl_dealer (sd_dealing d)"
  obtains (refused) "snd (ceremony_deal E d c) = c" "fst (ceremony_deal E d c) \<noteq> Ok Accepted"
  | (accepted) c' where "fst (ceremony_deal E d c) = Ok Accepted" "trustee_index c i" "c_phase c = Dealing"
      "get_raw (c_dealings c) i = None" "verify_dealing E (sd_dealing d) (c_threshold c) (c_ctx c) = Ok ()"
      "map fst (sd_shares d) = up_to (th_n (c_threshold c))"
      "c' = c\<lparr>c_dealings := insert_raw i d (c_dealings c)\<rparr>"
      "snd (ceremony_deal E d c) = (if length (c_dealings c') = unat (th_n (c_threshold c)) then c'\<lparr>c_phase := Confirming\<rparr> else c')"
proof (cases "ceremony_index c i")
  case (Inr u)
  note i = iffD1 [OF ceremony_index_Ok Inr]
  show ?thesis
  proof (cases "get_raw (c_dealings c) i = None \<and> c_phase c = Dealing \<and>
      verify_dealing E (sd_dealing d) (c_threshold c) (c_ctx c) = Ok () \<and> map fst (sd_shares d) = up_to (th_n (c_threshold c))")
    case True
    then show ?thesis using Inr i by (intro that(2) [OF _ _ _ _ _ _ refl]) (auto simp: ceremony_deal_def i_def is_ok_unit Let_def)
  next
    case False
    then show ?thesis using Inr by (intro that(1)) (auto simp: ceremony_deal_def i_def is_ok_unit Let_def split: option.splits)
  qed
qed (use that(1) in \<open>simp add: ceremony_deal_def i_def\<close>)

lemma confirm_cases:
  obtains (refused) "snd (confirm E i a c) = c" "fst (confirm E i a c) \<noteq> Ok Accepted"
  | (accepted) "fst (confirm E i a c) = Ok Accepted" "trustee_index c i" "\<forall>m\<in>a. trustee_index c m \<and> m \<noteq> i"
      "c_phase c = Confirming" "get_raw (c_confirmed c) i = None"
      "snd (confirm E i a c) = form_if_complete E (c\<lparr>c_confirmed := insert_raw i a (c_confirmed c)\<rparr>)"
proof -
  let ?chk = "res_bind (ceremony_index c i) (\<lambda>_.
      res_all (\<lambda>m. res_bind (ceremony_index c m) (\<lambda>_. if m = i then Err Malformed else Ok ())) (sorted_list_of_set a))"
  show ?thesis
  proof (cases ?chk)
    case (Inl e)
    then show ?thesis using that by (simp add: confirm_def)
  next
    case (Inr u)
    then have "trustee_index c i" "\<forall>m\<in>a. trustee_index c m \<and> m \<noteq> i"
      by (auto simp: res_bind_Ok_iff res_all_Ok_iff ceremony_index_Ok split: if_splits)
    then show ?thesis
      using that Inr by (cases "get_raw (c_confirmed c) i"; cases "c_phase c = Confirming") (auto simp: confirm_def)
  qed
qed

lemma complained_case: "(case get_raw (c_confirmed c) r of None \<Rightarrow> False | Some m \<Rightarrow> d \<in> m) = complained c d r"
  by (auto simp: complained_def split: option.splits)

lemma justify_cases:
  obtains (refused) "snd (justify E d r v c) = c" "fst (justify E d r v c) \<noteq> Ok Accepted"
  | (accepted) "fst (justify E d r v c) = Ok Accepted" "trustee_index c d" "trustee_index c r" "c_phase c = Confirming"
      "get_raw (c_justified c) (d, r) = None" "complained c d r"
      "verify_share E (sd_dealing (the (get_raw (c_dealings c) d))) \<lparr>sh_dealer = d, sh_recipient = r, sh_value = v\<rparr> = Ok ()"
      "snd (justify E d r v c) = form_if_complete E (c\<lparr>c_justified := insert_raw (d, r) v (c_justified c)\<rparr>)"
proof (cases "res_bind (ceremony_index c d) (\<lambda>_. ceremony_index c r)")
  case (Inr u)
  then have i: "trustee_index c d" "trustee_index c r" by (auto simp: res_bind_Ok_iff ceremony_index_Ok)
  show ?thesis
  proof (cases "get_raw (c_justified c) (d, r) = None \<and> c_phase c = Confirming \<and> complained c d r \<and>
      verify_share E (sd_dealing (the (get_raw (c_dealings c) d))) \<lparr>sh_dealer = d, sh_recipient = r, sh_value = v\<rparr> = Ok ()")
    case True
    then show ?thesis using Inr i by (intro that(2)) (auto simp: justify_def complained_case is_ok_unit)
  next
    case False
    then show ?thesis using Inr by (intro that(1)) (auto simp: justify_def complained_case is_ok_unit split: option.splits)
  qed
qed (use that(1) in \<open>simp add: justify_def\<close>)

lemma distinct_up_to: "distinct (up_to n)" and length_up_to: "length (up_to n) = unat (n :: u32)"
proof -
  have "inj_on (word_of_nat :: nat \<Rightarrow> u32) (set [1..<Suc (unat n)])"
    using unat_u32_less [of n] by (auto simp: inj_on_def word_of_nat_eq_iff take_bit_nat_eq_self)
  then show "distinct (up_to n)" unfolding up_to_def distinct_map by simp
qed (simp add: up_to_def)

text \<open>With as many entries as trustees, every trustee has one.\<close>

lemma all_indices:
  fixes n :: u32
  assumes "ks_ordered ks" "\<And>i v. get_raw ks i = Some v \<Longrightarrow> i \<noteq> 0 \<and> i \<le> n" "length ks = unat n" "i \<noteq> 0 \<and> i \<le> n"
  shows "\<exists>v. get_raw ks i = Some v"
proof -
  have "keys_of ks \<subseteq> set (up_to n)"
    using assms(2) get_raw_None_iff [of ks] by (force simp: set_up_to)
  moreover have "card (keys_of ks) = card (set (up_to n))"
    using distinct_card [OF ordered_distinct [OF assms(1)]] distinct_card [OF distinct_up_to, of n] assms(3)
    by (simp add: keys_of_def length_up_to)
  ultimately have "keys_of ks = set (up_to n)" by (intro card_subset_eq) simp_all
  then show ?thesis using assms(4) get_raw_None_iff [of ks i] by (auto simp: set_up_to)
qed

lemma enrol_wf: "ceremony_wf E c \<Longrightarrow> ceremony_wf E (snd (enrol E tk c))"
proof -
  assume wf: "ceremony_wf E c"
  note W = records_wfD [OF conjunct1 [OF wf [unfolded ceremony_wf_def]]]
  show ?thesis
  proof (cases rule: enrol_cases [of E tk c])
    case (accepted c')
    have p: "length (c_transport c) < unat (th_n (c_threshold c))" "c_dealings c = []" "c_confirmed c = []" "c_justified c = []" "c_key c = None"
      using wf accepted(3) by (auto simp: ceremony_wf_def phase_wf_def Let_def)
    have "records_wf E c'"
      using wf accepted(2,5) by (auto simp: ceremony_wf_def records_wf_def accepted(6) ordered_insert revealed_def complained_def split: if_splits)
    moreover have "length (c_transport c') = Suc (length (c_transport c))" using accepted(4) by (simp add: accepted(6) length_insert_new)
    moreover have "2 \<le> th_n (c_threshold c)" using W(1,2) by (rule order_trans)
    then have "2 \<le> unat (th_n (c_threshold c))" by (simp add: word_le_nat_alt)
    ultimately show ?thesis using p accepted(3) unfolding accepted(7)
      by (auto simp: ceremony_wf_def phase_wf_def accepted(6) Let_def)
  qed (use wf in simp)
qed

lemma deal_wf: "ceremony_wf E c \<Longrightarrow> ceremony_wf E (snd (ceremony_deal E d c))"
proof -
  assume wf: "ceremony_wf E c"
  note W = records_wfD [OF conjunct1 [OF wf [unfolded ceremony_wf_def]]]
  show ?thesis
  proof (cases rule: deal_cases [of E d c])
    case (accepted c')
    have p: "length (c_transport c) = unat (th_n (c_threshold c))" "length (c_dealings c) < unat (th_n (c_threshold c))"
      "c_confirmed c = []" "c_justified c = []" "c_key c = None"
      using wf accepted(3) by (auto simp: ceremony_wf_def phase_wf_def Let_def)
    have "records_wf E c'"
      using wf accepted(2,5,6) p(3,4) by (auto simp: ceremony_wf_def records_wf_def accepted(7) ordered_insert get_raw_empty split: if_splits)
    moreover have "length (c_dealings c') = Suc (length (c_dealings c))" using accepted(4) by (simp add: accepted(7) length_insert_new)
    moreover have "0 < unat (th_n (c_threshold c))" using p(2) by linarith
    ultimately show ?thesis using p accepted(3) unfolding accepted(8)
      by (auto simp: ceremony_wf_def phase_wf_def accepted(7) Let_def)
  qed (use wf in simp)
qed

lemma confirm_wf: "ceremony_wf E c \<Longrightarrow> ceremony_wf E (snd (confirm E i a c))"
proof -
  assume wf: "ceremony_wf E c"
  show ?thesis
  proof (cases rule: confirm_cases [of E i a c])
    case accepted
    let ?c = "c\<lparr>c_confirmed := insert_raw i a (c_confirmed c)\<rparr>"
    have "revealed E ?c d r v" if "revealed E c d r v" for d r v
      using that accepted(5) by (auto simp: revealed_def complained_def)
    then have "records_wf E ?c"
      using wf accepted(2,3) by (auto simp: ceremony_wf_def records_wf_def ordered_insert split: if_splits)
    then show ?thesis unfolding accepted(6)
      using wf accepted(4) by (intro form_if_complete_wf) (auto simp: ceremony_wf_def phase_wf_def Let_def)
  qed (use wf in simp)
qed

lemma justify_wf: "ceremony_wf E c \<Longrightarrow> ceremony_wf E (snd (justify E d r v c))"
proof -
  assume wf: "ceremony_wf E c"
  show ?thesis
  proof (cases rule: justify_cases [of E d r v c])
    case accepted
    let ?c = "c\<lparr>c_justified := insert_raw (d, r) v (c_justified c)\<rparr>"
    have p: "length (c_transport c) = unat (th_n (c_threshold c))" "length (c_dealings c) = unat (th_n (c_threshold c))" "c_key c = None"
      using wf accepted(4) by (auto simp: ceremony_wf_def phase_wf_def Let_def)
    note W = records_wfD [OF conjunct1 [OF wf [unfolded ceremony_wf_def]]]
    have "\<exists>sd. get_raw (c_dealings c) d = Some sd"
      by (rule all_indices [OF W(4) _ p(2) accepted(2)]) (use W(8) in blast)
    then have "revealed E c d r v" using accepted(6,7) by (auto simp: revealed_def)
    moreover have "revealed E ?c = revealed E c" by (simp add: revealed_def complained_def fun_eq_iff)
    ultimately have "records_wf E ?c"
      using wf by (auto simp: ceremony_wf_def records_wf_def ordered_insert split: if_splits)
    then show ?thesis unfolding accepted(8)
      using p accepted(4) by (intro form_if_complete_wf) simp_all
  qed (use wf in simp)
qed

lemma deadline_wf: "ceremony_wf E c \<Longrightarrow> ceremony_wf E (snd (deadline E c))"
proof -
  assume wf: "ceremony_wf E c"
  show ?thesis
  proof (cases "c_phase c")
    case Confirming
    then show ?thesis
      using form_wf [of E c] wf by (simp add: deadline_def ceremony_wf_def phase_wf_def Let_def)
  qed (use wf in \<open>auto simp: deadline_def ceremony_wf_def phase_wf_def Let_def\<close>)
qed

lemma ceremony_step_wf: "ceremony_wf E c \<Longrightarrow> ceremony_wf E (snd (ceremony_step E i c))"
  by (cases i) (simp_all add: enrol_wf deal_wf confirm_wf justify_wf deadline_wf)

lemma ceremony_run_wf: "ceremony_wf E c \<Longrightarrow> ceremony_wf E (ceremony_run E is c)"
  by (induction "is" arbitrary: c) (simp_all add: ceremony_step_wf)

lemma ceremony_run_append: "ceremony_run E (is @ js) c = ceremony_run E js (ceremony_run E is c)"
  by (induction "is" arbitrary: c) simp_all

lemma new_wf: "threshold_new t n = Ok th \<Longrightarrow> ceremony_wf E (ceremony_new th ctx)"
proof -
  assume "threshold_new t n = Ok th"
  then have th: "2 \<le> th_t th" "th_t th \<le> th_n th" by (auto simp: threshold_new_def not_less split: if_splits)
  then have "2 \<le> th_n th" by (rule order_trans)
  then have "0 < unat (th_n th)" by (simp add: word_le_nat_alt)
  then show ?thesis
    using th by (simp add: ceremony_wf_def records_wf_def phase_wf_def ceremony_new_def ks_ordered_def get_raw_empty Let_def)
qed

lemma settled_step: "c_phase c = Keyed \<or> c_phase c = Failed \<Longrightarrow> snd (ceremony_step E i c) = c"
proof (cases i)
  case (Enrol tk)
  then show "c_phase c = Keyed \<or> c_phase c = Failed \<Longrightarrow> ?thesis" by (cases rule: enrol_cases [of E tk c]) auto
next
  case (Deal d)
  then show "c_phase c = Keyed \<or> c_phase c = Failed \<Longrightarrow> ?thesis" by (cases rule: deal_cases [of E d c]) auto
next
  case (Confirm j a)
  then show "c_phase c = Keyed \<or> c_phase c = Failed \<Longrightarrow> ?thesis" by (cases rule: confirm_cases [of E j a c]) auto
next
  case (Justify d r v)
  then show "c_phase c = Keyed \<or> c_phase c = Failed \<Longrightarrow> ?thesis" by (cases rule: justify_cases [of E d r v c]) auto
qed (auto simp: deadline_def)

lemma settled_run: "c_phase c = Keyed \<or> c_phase c = Failed \<Longrightarrow> ceremony_run E is c = c"
  by (induction "is") (simp_all add: settled_step)

section \<open>Steps only add records\<close>

lemma form_fields [simp]:
  "c_threshold (form E c) = c_threshold c" "c_ctx (form E c) = c_ctx c" "c_transport (form E c) = c_transport c"
  "c_dealings (form E c) = c_dealings c" "c_confirmed (form E c) = c_confirmed c" "c_justified (form E c) = c_justified c"
  by (simp_all add: form_def Let_def split: sum.split)

lemma form_if_complete_fields [simp]:
  "c_threshold (form_if_complete E c) = c_threshold c" "c_ctx (form_if_complete E c) = c_ctx c"
  "c_transport (form_if_complete E c) = c_transport c" "c_dealings (form_if_complete E c) = c_dealings c"
  "c_confirmed (form_if_complete E c) = c_confirmed c" "c_justified (form_if_complete E c) = c_justified c"
  by (simp_all add: form_if_complete_def Let_def)

lemma deadline_fields [simp]:
  "c_threshold (snd (deadline E c)) = c_threshold c" "c_ctx (snd (deadline E c)) = c_ctx c"
  "c_transport (snd (deadline E c)) = c_transport c" "c_dealings (snd (deadline E c)) = c_dealings c"
  "c_confirmed (snd (deadline E c)) = c_confirmed c" "c_justified (snd (deadline E c)) = c_justified c"
  by (simp_all add: deadline_def Let_def split: phase.split)

definition records :: "('s, 'p) ceremony \<Rightarrow> nat" where
  "records c = length (c_transport c) + length (c_dealings c) + length (c_confirmed c) + length (c_justified c)"

text \<open>The record an input leaves.\<close>

fun recorded :: "('s, 'p) ceremony_input \<Rightarrow> ('s, 'p) ceremony \<Rightarrow> bool" where
  "recorded (Enrol tk) c \<longleftrightarrow> trustee_index c (tp_trustee tk) \<and> get_raw (c_transport c) (tp_trustee tk) = Some tk"
| "recorded (Deal d) c \<longleftrightarrow> trustee_index c (dl_dealer (sd_dealing d)) \<and>
     get_raw (c_dealings c) (dl_dealer (sd_dealing d)) = Some d"
| "recorded (Confirm i a) c \<longleftrightarrow> trustee_index c i \<and> (\<forall>m\<in>a. trustee_index c m \<and> m \<noteq> i) \<and>
     get_raw (c_confirmed c) i = Some a"
| "recorded (Justify d r v) c \<longleftrightarrow> trustee_index c d \<and> trustee_index c r \<and> get_raw (c_justified c) (d, r) = Some v"
| "recorded Deadline c \<longleftrightarrow> False"

lemma recorded_repeats: "recorded i c \<Longrightarrow> ceremony_step E i c = (Some (Ok Repeat), c)"
proof (cases i)
  case (Confirm j a)
  assume "recorded i c"
  then have r: "recorded (Confirm j a) c" by (simp add: Confirm)
  then have "res_bind (ceremony_index c j) (\<lambda>_.
      res_all (\<lambda>m. res_bind (ceremony_index c m) (\<lambda>_. if m = j then Err Malformed else Ok ())) (sorted_list_of_set a)) = Ok ()"
    by (auto simp: res_bind_Ok_iff res_all_Ok_iff ceremony_index_Ok)
  then show ?thesis using r by (simp add: Confirm confirm_def)
qed (auto simp: enrol_def ceremony_deal_def justify_def ceremony_index_def not_less [symmetric])

lemma step_records:
  "records (snd (ceremony_step E i c)) = records c + (if fst (ceremony_step E i c) = Some (Ok Accepted) then 1 else 0)"
proof (cases i)
  case (Enrol tk)
  then show ?thesis by (cases rule: enrol_cases [of E tk c]) (auto simp: records_def length_insert_new)
next
  case (Deal d)
  then show ?thesis by (cases rule: deal_cases [of E d c]) (auto simp: records_def length_insert_new)
next
  case (Confirm j a)
  then show ?thesis by (cases rule: confirm_cases [of E j a c]) (auto simp: records_def length_insert_new)
next
  case (Justify d r v)
  then show ?thesis by (cases rule: justify_cases [of E d r v c]) (auto simp: records_def length_insert_new)
qed (simp add: records_def)

lemma accepted_recorded: "fst (ceremony_step E i c) = Some (Ok Accepted) \<Longrightarrow> recorded i (snd (ceremony_step E i c))"
proof (cases i)
  case (Enrol tk)
  then show "fst (ceremony_step E i c) = Some (Ok Accepted) \<Longrightarrow> ?thesis"
    by (cases rule: enrol_cases [of E tk c]) auto
next
  case (Deal d)
  then show "fst (ceremony_step E i c) = Some (Ok Accepted) \<Longrightarrow> ?thesis"
    by (cases rule: deal_cases [of E d c]) auto
next
  case (Confirm j a)
  then show "fst (ceremony_step E i c) = Some (Ok Accepted) \<Longrightarrow> ?thesis"
    by (cases rule: confirm_cases [of E j a c]) auto
next
  case (Justify d r v)
  then show "fst (ceremony_step E i c) = Some (Ok Accepted) \<Longrightarrow> ?thesis"
    by (cases rule: justify_cases [of E d r v c]) auto
qed simp

lemma recorded_step: "recorded j c \<Longrightarrow> recorded j (snd (ceremony_step E i c))"
proof (cases i)
  case (Enrol tk)
  then show "recorded j c \<Longrightarrow> ?thesis" by (cases j; cases rule: enrol_cases [of E tk c]) auto
next
  case (Deal d)
  then show "recorded j c \<Longrightarrow> ?thesis" by (cases j; cases rule: deal_cases [of E d c]) auto
next
  case (Confirm k a)
  then show "recorded j c \<Longrightarrow> ?thesis" by (cases j; cases rule: confirm_cases [of E k a c]) auto
next
  case (Justify d r v)
  then show "recorded j c \<Longrightarrow> ?thesis" by (cases j; cases rule: justify_cases [of E d r v c]) auto
next
  case Deadline
  then show "recorded j c \<Longrightarrow> ?thesis" by (cases j) auto
qed

lemma recorded_run: "recorded j c \<Longrightarrow> recorded j (ceremony_run E is c)"
  by (induction "is" arbitrary: c) (simp_all add: recorded_step)

section \<open>How long a ceremony is\<close>

fun accepted_steps :: "('s::field, 'p::ab_group_add) group_env \<Rightarrow> ('s, 'p) ceremony_input list \<Rightarrow> ('s, 'p) ceremony \<Rightarrow> nat" where
  "accepted_steps E [] c = 0"
| "accepted_steps E (i # is) c =
     (if fst (ceremony_step E i c) = Some (Ok Accepted) then 1 else 0) + accepted_steps E is (snd (ceremony_step E i c))"

lemma run_records: "records (ceremony_run E is c) = records c + accepted_steps E is c"
  by (induction "is" arbitrary: c) (simp_all add: step_records)

lemma length_keys:
  assumes "ks_ordered ks" "keys_of ks \<subseteq> S" "finite S"
  shows "length ks \<le> card S"
  using card_mono [OF assms(3,2)] distinct_card [OF ordered_distinct [OF assms(1)]] by (simp add: keys_of_def)

lemma card_up_to: "card (set (up_to n)) = unat n"
  by (simp add: distinct_card [OF distinct_up_to] length_up_to)

lemma in_keys: "k \<in> keys_of ks \<longleftrightarrow> (\<exists>v. get_raw ks k = Some v)"
  using get_raw_None_iff [of ks k] by auto

lemma records_bound:
  assumes "records_wf E c"
  shows "records c \<le> 3 * unat (th_n (c_threshold c)) + unat (th_n (c_threshold c)) * unat (th_n (c_threshold c))"
proof -
  note W = records_wfD [OF assms]
  let ?I = "set (up_to (th_n (c_threshold c)))"
  have "keys_of (c_transport c) \<subseteq> ?I" "keys_of (c_dealings c) \<subseteq> ?I" "keys_of (c_confirmed c) \<subseteq> ?I"
    using W(7-9) by (fastforce simp: in_keys set_up_to)+
  then have "length (c_transport c) \<le> card ?I" "length (c_dealings c) \<le> card ?I" "length (c_confirmed c) \<le> card ?I"
    using length_keys W(3-5) by blast+
  moreover have "keys_of (c_justified c) \<subseteq> ?I \<times> ?I"
    using W(9,10) by (fastforce simp: in_keys set_up_to revealed_def complained_def)
  then have "length (c_justified c) \<le> card (?I \<times> ?I)" using length_keys [OF W(6)] by blast
  ultimately show ?thesis by (simp add: records_def card_up_to card_cartesian_product)
qed

section \<open>Honest runs\<close>

lemma enrol_accepts:
  assumes "c_phase c = Enrolling" "trustee_index c (tp_trustee tk)" "tp_trustee tk \<notin> keys_of (c_transport c)"
    "verify_transport_key E tk (c_threshold c) (c_ctx c) = Ok ()"
  shows "snd (ceremony_step E (Enrol tk) c) =
    (let c' = c\<lparr>c_transport := insert_raw (tp_trustee tk) tk (c_transport c)\<rparr>
     in if Suc (length (c_transport c)) = unat (th_n (c_threshold c)) then c'\<lparr>c_phase := Dealing\<rparr> else c')"
  using assms by (simp add: enrol_def ceremony_index_def get_raw_None_iff [symmetric] is_ok_unit Let_def length_insert_new not_less [symmetric])

lemma enrol_run:
  assumes "c_phase c = Enrolling" "tks \<noteq> []" "distinct (map tp_trustee tks)"
    "\<forall>tk\<in>set tks. trustee_index c (tp_trustee tk) \<and> tp_trustee tk \<notin> keys_of (c_transport c) \<and>
       verify_transport_key E tk (c_threshold c) (c_ctx c) = Ok ()"
    "length (c_transport c) + length tks = unat (th_n (c_threshold c))"
  shows "\<exists>ts. ceremony_run E (map Enrol tks) c = c\<lparr>c_transport := ts, c_phase := Dealing\<rparr>"
  using assms
proof (induction tks arbitrary: c)
  case (Cons tk tks)
  have fresh: "\<forall>x\<in>set tks. tp_trustee x \<noteq> tp_trustee tk" using Cons.prems(3) by (simp add: image_iff) metis
  let ?c = "c\<lparr>c_transport := insert_raw (tp_trustee tk) tk (c_transport c)\<rparr>"
  have new: "get_raw (c_transport c) (tp_trustee tk) = None" using Cons.prems(4) by (simp add: get_raw_None_iff)
  have step: "snd (ceremony_step E (Enrol tk) c) =
      (if Suc (length (c_transport c)) = unat (th_n (c_threshold c)) then ?c\<lparr>c_phase := Dealing\<rparr> else ?c)"
    using enrol_accepts [of c tk E] Cons.prems(1,4) by (simp add: Let_def)
  show ?case
  proof (cases "tks = []")
    case True
    then show ?thesis using step Cons.prems(5) by auto
  next
    case False
    have "\<exists>ts. ceremony_run E (map Enrol tks) ?c = ?c\<lparr>c_transport := ts, c_phase := Dealing\<rparr>"
      by (rule Cons.IH) (use Cons.prems False fresh in \<open>auto simp: keys_of_insert length_insert_new new\<close>)
    moreover have "snd (ceremony_step E (Enrol tk) c) = ?c"
      using step Cons.prems(5) False by (cases tks) auto
    ultimately show ?thesis by auto
  qed
qed simp

lemma deal_accepts:
  assumes "c_phase c = Dealing" "trustee_index c (dl_dealer (sd_dealing d))" "dl_dealer (sd_dealing d) \<notin> keys_of (c_dealings c)"
    "verify_dealing E (sd_dealing d) (c_threshold c) (c_ctx c) = Ok ()" "map fst (sd_shares d) = up_to (th_n (c_threshold c))"
  shows "snd (ceremony_step E (Deal d) c) =
    (let c' = c\<lparr>c_dealings := insert_raw (dl_dealer (sd_dealing d)) d (c_dealings c)\<rparr>
     in if Suc (length (c_dealings c)) = unat (th_n (c_threshold c)) then c'\<lparr>c_phase := Confirming\<rparr> else c')"
  using assms by (simp add: ceremony_deal_def ceremony_index_def get_raw_None_iff [symmetric] is_ok_unit Let_def length_insert_new not_less [symmetric])

lemma deal_run:
  assumes "c_phase c = Dealing" "ds \<noteq> []" "distinct (map (dl_dealer \<circ> sd_dealing) ds)"
    "\<forall>d\<in>set ds. trustee_index c (dl_dealer (sd_dealing d)) \<and> dl_dealer (sd_dealing d) \<notin> keys_of (c_dealings c) \<and>
       verify_dealing E (sd_dealing d) (c_threshold c) (c_ctx c) = Ok () \<and> map fst (sd_shares d) = up_to (th_n (c_threshold c))"
    "length (c_dealings c) + length ds = unat (th_n (c_threshold c))"
  shows "\<exists>ts. ceremony_run E (map Deal ds) c = c\<lparr>c_dealings := ts, c_phase := Confirming\<rparr>"
  using assms
proof (induction ds arbitrary: c)
  case (Cons d ds)
  have fresh: "\<forall>x\<in>set ds. dl_dealer (sd_dealing x) \<noteq> dl_dealer (sd_dealing d)" using Cons.prems(3) by (simp add: image_iff) metis
  let ?c = "c\<lparr>c_dealings := insert_raw (dl_dealer (sd_dealing d)) d (c_dealings c)\<rparr>"
  have new: "get_raw (c_dealings c) (dl_dealer (sd_dealing d)) = None" using Cons.prems(4) by (simp add: get_raw_None_iff)
  have step: "snd (ceremony_step E (Deal d) c) =
      (if Suc (length (c_dealings c)) = unat (th_n (c_threshold c)) then ?c\<lparr>c_phase := Confirming\<rparr> else ?c)"
    using deal_accepts [of c d E] Cons.prems(1,4) by (simp add: Let_def)
  show ?case
  proof (cases "ds = []")
    case True
    then show ?thesis using step Cons.prems(5) by auto
  next
    case False
    have "\<exists>ts. ceremony_run E (map Deal ds) ?c = ?c\<lparr>c_dealings := ts, c_phase := Confirming\<rparr>"
      by (rule Cons.IH) (use Cons.prems False fresh in \<open>auto simp: keys_of_insert length_insert_new new\<close>)
    moreover have "snd (ceremony_step E (Deal d) c) = ?c"
      using step Cons.prems(5) False by (cases ds) auto
    ultimately show ?thesis by auto
  qed
qed simp

lemma confirm_accepts:
  assumes "c_phase c = Confirming" "trustee_index c i" "i \<notin> keys_of (c_confirmed c)" "\<forall>m\<in>a. trustee_index c m \<and> m \<noteq> i"
  shows "snd (ceremony_step E (Confirm i a) c) = form_if_complete E (c\<lparr>c_confirmed := insert_raw i a (c_confirmed c)\<rparr>)"
proof -
  have "res_bind (ceremony_index c i) (\<lambda>_.
      res_all (\<lambda>m. res_bind (ceremony_index c m) (\<lambda>_. if m = i then Err Malformed else Ok ())) (sorted_list_of_set a)) = Ok ()"
    using assms(2,4) by (auto simp: res_bind_Ok_iff res_all_Ok_iff ceremony_index_Ok)
  then show ?thesis using assms(1,3) by (simp add: confirm_def get_raw_None_iff [symmetric])
qed

lemma confirm_run:
  assumes "c_phase c = Confirming" "is \<noteq> []" "distinct is" "\<forall>i\<in>set is. trustee_index c i \<and> i \<notin> keys_of (c_confirmed c)"
    "length (c_confirmed c) + length is = unat (th_n (c_threshold c))" "ks_ordered (c_confirmed c)"
    "\<forall>d r. \<not> complained c d r"
  shows "\<exists>cs. ceremony_run E (map (\<lambda>i. Confirm i {}) is) c = form E (c\<lparr>c_confirmed := cs\<rparr>) \<and>
    ks_ordered cs \<and> length cs = unat (th_n (c_threshold c)) \<and> (\<forall>d r. \<not> complained (c\<lparr>c_confirmed := cs\<rparr>) d r)"
  using assms
proof (induction "is" arbitrary: c)
  case (Cons i "is")
  let ?cs = "insert_raw i {} (c_confirmed c)"
  let ?c = "c\<lparr>c_confirmed := ?cs\<rparr>"
  have len: "length ?cs = Suc (length (c_confirmed c))"
    using Cons.prems(4) by (simp add: length_insert_new get_raw_None_iff)
  have o: "ks_ordered ?cs" using Cons.prems(6) by (rule ordered_insert)
  have none: "\<forall>d r. \<not> complained ?c d r" using Cons.prems(7) by (auto simp: complained_def)
  then have ans: "list_all (\<lambda>m. cm_justified m \<noteq> None) (complaints ?c)"
    using all_answered [of ?c] o by (simp add: unanswered_def)
  have step: "snd (ceremony_step E (Confirm i {}) c) = (if Suc (length (c_confirmed c)) = unat (th_n (c_threshold c)) then form E ?c else ?c)"
    using Cons.prems(1,4) ans len by (subst confirm_accepts) (auto simp: form_if_complete_def)
  show ?case
  proof (cases "is = []")
    case True
    then show ?thesis using step o none len Cons.prems(5) by auto
  next
    case False
    have "\<exists>cs. ceremony_run E (map (\<lambda>i. Confirm i {}) is) ?c = form E (?c\<lparr>c_confirmed := cs\<rparr>) \<and>
      ks_ordered cs \<and> length cs = unat (th_n (c_threshold ?c)) \<and> (\<forall>d r. \<not> complained (?c\<lparr>c_confirmed := cs\<rparr>) d r)"
      by (rule Cons.IH) (use Cons.prems False len o none in \<open>auto simp: keys_of_insert\<close>)
    moreover have "snd (ceremony_step E (Confirm i {}) c) = ?c"
      using step Cons.prems(5) False by (cases "is") auto
    ultimately show ?thesis by simp
  qed
qed simp

section \<open>Runs of the decryption round\<close>

type_synonym ('k, 's, 'p) submission = "u32 \<times> ('k \<times> 'p ciphertext \<times> ('s, 'p) partial_decryption) list"

primrec decryption_run ::
    "('s::field, 'p::ab_group_add) group_env \<Rightarrow> ('k, 's, 'p) submission list \<Rightarrow> ('k, 's, 'p) decryption \<Rightarrow> ('k, 's, 'p) decryption" where
  "decryption_run E [] d = d"
| "decryption_run E (s # ss) d = decryption_run E ss (snd (accept E (fst s) (snd s) d))"

text \<open>What a holder of a key share submits for the targets.\<close>

definition submission_of ::
    "('s::field, 'p::ab_group_add) group_env \<Rightarrow> bytes \<Rightarrow> ('k \<times> 'p ciphertext) list \<Rightarrow> (nat \<Rightarrow> rng) \<Rightarrow> 's trustee_key \<Rightarrow> ('k, 's, 'p) submission" where
  "submission_of E ctx targets rngs key =
     (tk_index key, map (\<lambda>(i, (k, ct)). (k, ct, fst (partial_decrypt E key ct ctx (rngs i)))) (enumerate 0 targets))"

definition accepted_part :: "('s::field, 'p::ab_group_add) group_env \<Rightarrow> ('k, 's, 'p) decryption \<Rightarrow> u32 \<Rightarrow> ('s, 'p) partial_decryption list \<Rightarrow> bool" where
  "accepted_part E d j ps \<longleftrightarrow> length ps = length (d_targets d) \<and>
     (\<forall>i < length ps. pd_trustee (ps ! i) = j \<and> verify_partial E (d_key d) (snd (d_targets d ! i)) (ps ! i) (d_ctx d) = Ok ())"

definition decryption_wf :: "('s::field, 'p::ab_group_add) group_env \<Rightarrow> ('k, 's, 'p) decryption \<Rightarrow> bool" where
  "decryption_wf E d \<longleftrightarrow> ks_ordered (d_partials d) \<and> (\<forall>j ps. get_raw (d_partials d) j = Some ps \<longrightarrow> accepted_part E d j ps)"

lemma accept_loop_Ok:
  "length given = length targets \<Longrightarrow> accept_loop E key ctx j (zip given targets) = Ok () \<longleftrightarrow>
     (\<forall>i < length given. fst (given ! i) = fst (targets ! i) \<and> fst (snd (given ! i)) = snd (targets ! i) \<and>
        pd_trustee (snd (snd (given ! i))) = j \<and>
        verify_partial E key (snd (targets ! i)) (snd (snd (given ! i))) ctx = Ok ())"
  by (induction given targets rule: list_induct2) (auto simp: All_less_Suc2 is_ok_unit split: if_splits)

lemma accept_cases:
  obtains (refused) "snd (accept E j given d) = d" "fst (accept E j given d) \<noteq> Ok Accepted"
  | (accepted) "fst (accept E j given d) = Ok Accepted" "\<not> complete d" "get_raw (d_partials d) j = None"
      "accepted_part E d j (map (\<lambda>(_, _, p). p) given)"
      "snd (accept E j given d) = d\<lparr>d_partials := insert_raw j (map (\<lambda>(_, _, p). p) given) (d_partials d)\<rparr>"
proof (cases "\<not> (j = 0 \<or> j > th_n (ek_threshold (d_key d))) \<and> get_raw (d_partials d) j = None \<and> \<not> complete d \<and>
    length given = length (d_targets d) \<and> accept_loop E (d_key d) (d_ctx d) j (zip given (d_targets d)) = Ok ()")
  case True
  then have "accepted_part E d j (map (\<lambda>(_, _, p). p) given)"
    by (auto simp: accepted_part_def accept_loop_Ok case_prod_unfold)
  then show ?thesis using True by (intro that(2)) (auto simp: accept_def)
next
  case False
  then show ?thesis by (intro that(1)) (auto simp: accept_def Let_def split: option.splits sum.splits)
qed

lemma accept_wf: "decryption_wf E d \<Longrightarrow> decryption_wf E (snd (accept E j given d))"
  by (cases rule: accept_cases [of E j given d])
    (auto simp: decryption_wf_def accepted_part_def ordered_insert split: if_splits)

lemma accept_fields [simp]:
  "d_key (snd (accept E j given d)) = d_key d" "d_ctx (snd (accept E j given d)) = d_ctx d"
  "d_targets (snd (accept E j given d)) = d_targets d"
  by (cases rule: accept_cases [of E j given d]; simp)+

lemma accept_keeps: "keys_of (d_partials d) \<subseteq> keys_of (d_partials (snd (accept E j given d)))"
  "complete d \<Longrightarrow> complete (snd (accept E j given d))"
  by (cases rule: accept_cases [of E j given d]; auto simp: keys_of_insert)+

lemma run_decryption:
  "decryption_wf E d \<Longrightarrow> decryption_wf E (decryption_run E ss d)"
  "d_key (decryption_run E ss d) = d_key d" "d_ctx (decryption_run E ss d) = d_ctx d"
  "d_targets (decryption_run E ss d) = d_targets d"
  "keys_of (d_partials d) \<subseteq> keys_of (d_partials (decryption_run E ss d))"
  "complete d \<Longrightarrow> complete (decryption_run E ss d)"
proof (induction ss arbitrary: d)
  case (Cons s ss)
  { case 5 show ?case using Cons.IH(5) accept_keeps(1) by (simp, blast) }
qed (simp_all add: accept_wf accept_keeps(2))

lemma honest_accepted:
  assumes "prime_order_group E" "holds_key E (d_key d) k" "tk_index k \<noteq> 0 \<and> tk_index k \<le> th_n (ek_threshold (d_key d))"
    "submission_of E (d_ctx d) (d_targets d) rngs k = (j, given)"
  shows "complete (snd (accept E j given d)) \<or> tk_index k \<in> keys_of (d_partials (snd (accept E j given d)))"
proof (cases "complete d \<or> tk_index k \<in> keys_of (d_partials d)")
  case True
  then show ?thesis using accept_keeps [of d E j given] by blast
next
  case False
  obtain shares ds where fs: "from_shares E (tk_index k) shares ds (d_key d) = Ok k" using assms(2) by (auto simp: holds_key_def)
  have g: "j = tk_index k" "length given = length (d_targets d)"
    "\<And>i. i < length given \<Longrightarrow> given ! i = (fst (d_targets d ! i), snd (d_targets d ! i),
      fst (partial_decrypt E k (snd (d_targets d ! i)) (d_ctx d) (rngs i)))"
    using assms(4) by (auto simp: submission_of_def nth_enumerate_eq case_prod_unfold)
  have "accept_loop E (d_key d) (d_ctx d) j (zip given (d_targets d)) = Ok ()"
    using g partial_decrypt_verifies [OF assms(1) fs] by (simp add: accept_loop_Ok)
  moreover have "get_raw (d_partials d) j = None" using False g(1) by (simp add: get_raw_None_iff)
  ultimately have "snd (accept E j given d) = d\<lparr>d_partials := insert_raw j (map (\<lambda>(_, _, p). p) given) (d_partials d)\<rparr>"
    using False g(1,2) assms(3) by (simp add: accept_def not_less [symmetric])
  then show ?thesis by (simp add: g(1) keys_of_insert)
qed

lemma holds_key_index:
  assumes "prime_order_group E" "from_dealings E dealings th ctx0 = Ok ek" "0 < th_t th" "holds_key E ek k"
  shows "tk_index k \<noteq> 0 \<and> tk_index k \<le> th_n (ek_threshold ek)"
proof -
  obtain shares ds where fs: "from_shares E (tk_index k) shares ds ek = Ok k" using assms(4) by (auto simp: holds_key_def)
  note K = from_dealings_Ok [OF assms(1-3)]
  show ?thesis using get_raw_Some_verification [OF fs] K(3) [of "tk_index k"] K(1) by (simp split: if_splits)
qed

lemma honest_recorded:
  assumes "prime_order_group E" "holds_key E (d_key d) k" "tk_index k \<noteq> 0 \<and> tk_index k \<le> th_n (ek_threshold (d_key d))"
    "submission_of E (d_ctx d) (d_targets d) rngs k \<in> set ss"
  shows "complete (decryption_run E ss d) \<or> tk_index k \<in> keys_of (d_partials (decryption_run E ss d))"
  using assms
proof (induction ss arbitrary: d)
  case (Cons s ss)
  let ?d = "snd (accept E (fst s) (snd s) d)"
  show ?case
  proof (cases "submission_of E (d_ctx d) (d_targets d) rngs k = s")
    case True
    then have "complete ?d \<or> tk_index k \<in> keys_of (d_partials ?d)"
      using honest_accepted [OF Cons.prems(1-3), of rngs "fst s" "snd s"] by simp
    then show ?thesis using run_decryption(5,6) [of ?d E ss] by auto
  next
    case False
    then show ?thesis using Cons.IH [of ?d] Cons.prems by simp
  qed
qed simp

lemma decryption_completes:
  assumes "prime_order_group E" "from_dealings E dealings th ctx0 = Ok ek" "0 < th_t th"
    "\<forall>k\<in>set keys. holds_key E ek k \<and> submission_of E ctx targets (rngs k) k \<in> set ss"
    "unat (th_t th) \<le> card (tk_index ` set keys)"
  shows "complete (decryption_run E ss (decryption_new ek ctx targets))"
proof (rule ccontr)
  let ?new = "decryption_new ek ctx targets" let ?d = "decryption_run E ss ?new"
  assume n: "\<not> complete ?d"
  have d0: "decryption_wf E ?new" "d_key ?new = ek" "d_ctx ?new = ctx" "d_targets ?new = targets"
    by (simp_all add: decryption_wf_def decryption_new_def ks_ordered_def get_raw_empty)
  have "tk_index k \<in> keys_of (d_partials ?d)" if "k \<in> set keys" for k
  proof -
    have k: "holds_key E ek k" "submission_of E ctx targets (rngs k) k \<in> set ss" using assms(4) that by auto
    show ?thesis
      using honest_recorded [OF assms(1), of ?new k "rngs k" ss, unfolded d0(2-4), OF k(1) holds_key_index [OF assms(1-3) k(1)] k(2)] n
      by blast
  qed
  then have "card (tk_index ` set keys) \<le> card (keys_of (d_partials ?d))" by (intro card_mono) (auto simp: keys_of_def)
  also have "\<dots> = length (d_partials ?d)"
    using run_decryption(1) [OF d0(1)] distinct_card [OF ordered_distinct, of "d_partials ?d"]
    by (simp add: decryption_wf_def keys_of_def)
  finally show False using n assms(5) from_dealings_Ok(1) [OF assms(1-3)]
    by (simp add: complete_def run_decryption(2) d0(2))
qed

text \<open>Every partial the round holds is against the challenge that would pass a false one.\<close>

definition round_unlucky :: "('s::field, 'p::ab_group_add) group_env \<Rightarrow> ('k, 's, 'p) decryption \<Rightarrow> bool" where
  "round_unlucky E d \<longleftrightarrow> (\<forall>(j, ps) \<in> set (d_partials d). \<forall>i < length ps.
     unlucky E (d_key d) (snd (d_targets d ! i)) (d_ctx d) (ps ! i))"

lemma combine_total:
  assumes "\<forall>p\<in>set ps. verify_partial E ek ct p ctx = Ok ()" "unat (th_t (ek_threshold ek)) \<le> card (pd_trustee ` set ps)"
  shows "\<exists>m. combine E ek ct ps ctx = Ok m"
proof -
  obtain chosen where ch: "choose_partials E ek ct ctx ps [] = Ok chosen" using choose_partials_all [OF assms(1)] by blast
  have "ks_ordered chosen" "keys_of chosen = pd_trustee ` set ps"
    using choose_partials_Ok [OF ch] by (auto simp: ks_ordered_def keys_of_def)
  then have "length chosen = card (pd_trustee ` set ps)"
    using distinct_card [OF ordered_distinct, of chosen] by (simp add: keys_of_def)
  then show ?thesis using assms(2) ch by (simp add: combine_def Let_def)
qed

lemma plaintexts_complete:
  assumes "prime_order_group E" "from_dealings E dealings th ctx0 = Ok (d_key d)" "0 < th_t th"
    "decryption_wf E d" "complete d" "round_unlucky E d"
  shows "plaintexts E d = Ok (map (\<lambda>(k, ct). (k, ct_b ct - smul E (dlog E (ek_key (d_key d))) (ct_a ct))) (d_targets d))"
proof -
  let ?open = "\<lambda>ct. ct_b ct - smul E (dlog E (ek_key (d_key d))) (ct_a ct)"
  have W: "ks_ordered (d_partials d)" "\<And>j ps. (j, ps) \<in> set (d_partials d) \<Longrightarrow> accepted_part E d j ps"
    using assms(4) ordered_get_raw [of "d_partials d"] by (auto simp: decryption_wf_def)
  have c: "combine E (d_key d) (snd (d_targets d ! i)) (map (\<lambda>(_, ps). ps ! i) (d_partials d)) (d_ctx d) =
      Ok (?open (snd (d_targets d ! i)))"
    if i: "i < length (d_targets d)" for i
  proof -
    let ?ps = "map (\<lambda>(_, ps). ps ! i) (d_partials d)"
    have v: "\<forall>p\<in>set ?ps. verify_partial E (d_key d) (snd (d_targets d ! i)) p (d_ctx d) = Ok ()"
      using W(2) i by (fastforce simp: accepted_part_def)
    have "pd_trustee ` set ?ps = keys_of (d_partials d)"
      using W(2) i unfolding keys_of_def set_map image_image by (intro image_cong refl) (auto simp: accepted_part_def)
    then have "unat (th_t (ek_threshold (d_key d))) \<le> card (pd_trustee ` set ?ps)"
      using assms(5) distinct_card [OF ordered_distinct [OF W(1)]] by (simp add: complete_def keys_of_def)
    then obtain m where m: "combine E (d_key d) (snd (d_targets d ! i)) ?ps (d_ctx d) = Ok m" using combine_total [OF v] by blast
    have "\<forall>p\<in>set ?ps. unlucky E (d_key d) (snd (d_targets d ! i)) (d_ctx d) p"
      using assms(6) W(2) i by (fastforce simp: round_unlucky_def accepted_part_def)
    then show ?thesis using m combine_plaintext [OF assms(1-3) m] by (simp add: unlucky_def)
  qed
  have "(case combine E (d_key d) ct (map (\<lambda>(_, ps). ps ! i) (d_partials d)) (d_ctx d) of
        Inl x \<Rightarrow> Err PartialInvalid | Inr m \<Rightarrow> Ok (k, m)) = Ok (k, ?open ct)"
    if "i < length (d_targets d)" "d_targets d ! i = (k, ct)" for i k ct
    using c [OF that(1)] that(2) by simp
  then have "plaintexts E d = Ok (map (\<lambda>(i, (k, ct)). (k, ?open ct)) (enumerate 0 (d_targets d)))"
    using assms(5) by (auto simp: plaintexts_def in_set_enumerate_eq Let_def intro!: res_collect_Ok_map)
  moreover have "map (\<lambda>(i, (k, ct)). (k, ?open ct)) (enumerate 0 (d_targets d)) = map (\<lambda>(k, ct). (k, ?open ct)) (d_targets d)"
    by (rule nth_equalityI) (simp_all add: nth_enumerate_eq case_prod_unfold)
  ultimately show ?thesis by simp
qed

section \<open>The ceremony as a whole\<close>

lemma threshold_new_Ok: "threshold_new t n = Ok th \<Longrightarrow> th_t th = t \<and> th_n th = n \<and> 2 \<le> t \<and> t \<le> n"
  by (auto simp: threshold_new_def not_less split: if_splits)

lemma step_threshold: "c_threshold (snd (ceremony_step E i c)) = c_threshold c"
proof (cases i)
  case (Enrol tk)
  then show ?thesis by (cases rule: enrol_cases [of E tk c]) auto
next
  case (Deal d)
  then show ?thesis by (cases rule: deal_cases [of E d c]) auto
next
  case (Confirm j a)
  then show ?thesis by (cases rule: confirm_cases [of E j a c]) auto
next
  case (Justify d r v)
  then show ?thesis by (cases rule: justify_cases [of E d r v c]) auto
qed simp

lemma run_threshold: "c_threshold (ceremony_run E is c) = c_threshold c"
  by (induction "is" arbitrary: c) (simp_all add: step_threshold)

lemma new_fields [simp]:
  "c_threshold (ceremony_new th ctx) = th" "c_ctx (ceremony_new th ctx) = ctx" "c_phase (ceremony_new th ctx) = Enrolling"
  "c_transport (ceremony_new th ctx) = []" "c_dealings (ceremony_new th ctx) = []"
  "c_confirmed (ceremony_new th ctx) = []" "c_justified (ceremony_new th ctx) = []" "c_key (ceremony_new th ctx) = None"
  by (simp_all add: ceremony_new_def)

lemma all_dealt:
  assumes "records_wf E c" "length (c_dealings c) = unat (th_n (c_threshold c))"
  shows "d \<in> set (qualified_dealers c) \<longleftrightarrow> trustee_index c d \<and> \<not> unanswered c d"
proof -
  note W = records_wfD [OF assms(1)]
  have "d \<in> keys_of (c_dealings c) \<longleftrightarrow> trustee_index c d"
    using all_indices [OF W(4) _ assms(2), of d] W(8) by (auto simp: in_keys)
  then show ?thesis by (auto simp: qualified_dealers_set [OF W(5)] keys_of_def)
qed

lemma keyed_quorum:
  assumes "ceremony_wf E c" "c_key c = Some ek"
  shows "c_phase c = Keyed \<and> ek_threshold ek = c_threshold c \<and> ek_qualified ek = qualified_dealers c \<and> quorum c \<and>
    length (c_dealings c) = unat (th_n (c_threshold c))"
proof -
  have r: "records_wf E c" and p: "phase_wf E c" using assms(1) by (auto simp: ceremony_wf_def)
  then have k: "c_phase c = Keyed" "length (c_dealings c) = unat (th_n (c_threshold c))"
    "unat (th_t (c_threshold c)) \<le> length (c_confirmed c)" "from_dealings E (chosen_dealings c) (c_threshold c) (c_ctx c) = Ok ek"
    using assms(2) by (auto simp: phase_wf_def Let_def split: phase.splits)
  show ?thesis
    using from_chosen [OF r] k by (cases "unat (th_t (c_threshold c)) \<le> length (qualified_dealers c)") (auto simp: quorum_def)
qed

text \<open>One entry of every trustee, in any order.\<close>

definition each_trustee :: "u32 \<Rightarrow> u32 list \<Rightarrow> bool" where
  "each_trustee n is \<longleftrightarrow> distinct is \<and> set is = set (up_to n)"

lemma each_trustee_length: "each_trustee n is \<Longrightarrow> length is = unat n"
  using distinct_card [of "is"] by (simp add: each_trustee_def card_up_to)

text \<open>The ceremony of trustees who all do their part: enrolments, dealings and confirmations without a complaint.\<close>

definition honest_script ::
    "('s, 'p) transport_key list \<Rightarrow> ('s, 'p) sealed_dealing list \<Rightarrow> u32 list \<Rightarrow> ('s, 'p) ceremony_input list" where
  "honest_script tks ds is = map Enrol tks @ map Deal ds @ map (\<lambda>i. Confirm i {}) is"

definition honest_inputs ::
    "('s::field, 'p::ab_group_add) group_env \<Rightarrow> threshold \<Rightarrow> bytes \<Rightarrow> ('s, 'p) transport_key list \<Rightarrow> ('s, 'p) sealed_dealing list \<Rightarrow> u32 list \<Rightarrow> bool" where
  "honest_inputs E th ctx tks ds is \<longleftrightarrow>
     each_trustee (th_n th) (map tp_trustee tks) \<and> each_trustee (th_n th) (map (dl_dealer \<circ> sd_dealing) ds) \<and> each_trustee (th_n th) is \<and>
     (\<forall>tk\<in>set tks. verify_transport_key E tk th ctx = Ok ()) \<and>
     (\<forall>d\<in>set ds. verify_dealing E (sd_dealing d) th ctx = Ok () \<and> map fst (sd_shares d) = up_to (th_n th))"

lemma honest_run:
  assumes "threshold_new t n = Ok th" "honest_inputs E th ctx tks ds is"
  shows "\<exists>b. ceremony_run E (honest_script tks ds is) (ceremony_new th ctx) = form E b \<and> c_threshold b = th \<and>
    length (c_dealings b) = unat n \<and> length (c_confirmed b) = unat n \<and> (\<forall>d r. \<not> complained b d r)"
proof -
  let ?new = "ceremony_new th ctx"
  note T = threshold_new_Ok [OF assms(1)]
  have n: "0 < unat (th_n th)" using T order_trans [of 2 t n] by (auto simp: word_le_nat_alt)
  have e: "each_trustee (th_n th) (map tp_trustee tks)" "each_trustee (th_n th) (map (dl_dealer \<circ> sd_dealing) ds)" "each_trustee (th_n th) is"
    and v: "\<forall>tk\<in>set tks. verify_transport_key E tk th ctx = Ok ()"
      "\<forall>d\<in>set ds. verify_dealing E (sd_dealing d) th ctx = Ok () \<and> map fst (sd_shares d) = up_to (th_n th)"
    using assms(2) by (auto simp: honest_inputs_def)
  have len: "length tks = unat (th_n th)" "length ds = unat (th_n th)" "length is = unat (th_n th)"
    using e [THEN each_trustee_length] by simp_all
  have ix: "\<forall>tk\<in>set tks. tp_trustee tk \<noteq> 0 \<and> tp_trustee tk \<le> th_n th"
    "\<forall>d\<in>set ds. dl_dealer (sd_dealing d) \<noteq> 0 \<and> dl_dealer (sd_dealing d) \<le> th_n th" "\<forall>i\<in>set is. i \<noteq> 0 \<and> i \<le> th_n th"
    using e by (auto simp: each_trustee_def set_up_to set_eq_iff image_iff)
  have ne: "tks \<noteq> []" "ds \<noteq> []" "is \<noteq> []" using len n by auto
  obtain ts where ts: "ceremony_run E (map Enrol tks) ?new = ?new\<lparr>c_transport := ts, c_phase := Dealing\<rparr>"
    using enrol_run [of ?new tks E] e(1) v(1) ix(1) ne(1) len(1) by (auto simp: each_trustee_def keys_of_def)
  let ?a = "?new\<lparr>c_transport := ts, c_phase := Dealing\<rparr>"
  obtain dd where dd: "ceremony_run E (map Deal ds) ?a = ?a\<lparr>c_dealings := dd, c_phase := Confirming\<rparr>"
    using deal_run [of ?a ds E] e(2) v(2) ix(2) ne(2) len(2) by (auto simp: each_trustee_def keys_of_def)
  let ?b = "?a\<lparr>c_dealings := dd, c_phase := Confirming\<rparr>"
  have "ceremony_wf E ?b" using ceremony_run_wf [OF new_wf [OF assms(1)], of E "map Enrol tks @ map Deal ds" ctx] ts dd
    by (simp add: ceremony_run_append)
  then have "length dd = unat (th_n th)" by (simp add: ceremony_wf_def phase_wf_def Let_def)
  moreover obtain cs where "ceremony_run E (map (\<lambda>i. Confirm i {}) is) ?b = form E (?b\<lparr>c_confirmed := cs\<rparr>)"
    "length cs = unat (th_n th)" "\<forall>d r. \<not> complained (?b\<lparr>c_confirmed := cs\<rparr>) d r"
    using confirm_run [of ?b "is" E] e(3) ix(3) ne(3) len(3)
    by (auto simp: each_trustee_def keys_of_def complained_def get_raw_empty ks_ordered_def)
  ultimately show ?thesis
    using ts dd T by (intro exI [of _ "?b\<lparr>c_confirmed := cs\<rparr>"]) (simp add: honest_script_def ceremony_run_append)
qed

lemma form_settles: "c_phase (form E c) = Keyed \<or> c_phase (form E c) = Failed"
  by (simp add: form_def Let_def split: sum.split)

lemma form_records [simp]: "records_wf E (form E c) = records_wf E c" "unanswered (form E c) = unanswered c" "quorum (form E c) = quorum c"
  by (simp_all add: form_def Let_def quorum_def split: sum.split)

lemma form_keyed: "records_wf E c \<Longrightarrow> c_phase (form E c) = Keyed \<longleftrightarrow> quorum c"
  using form_cases [of E c] by (cases "quorum c") auto

lemma honest_completes:
  assumes "threshold_new t n = Ok th" "honest_inputs E th ctx tks ds is"
  defines "c \<equiv> ceremony_run E (honest_script tks ds is) (ceremony_new th ctx)"
  shows "c_phase c = Keyed \<and> (\<exists>ek. c_key c = Some ek \<and> set (ek_qualified ek) = set (up_to n))"
proof -
  note T = threshold_new_Ok [OF assms(1)]
  obtain b where b: "c = form E b" "c_threshold b = th" "length (c_dealings b) = unat n" "length (c_confirmed b) = unat n"
    "\<And>d. \<not> unanswered b d"
    using honest_run [OF assms(1,2)] by (auto simp: c_def unanswered_def)
  have wf: "ceremony_wf E c" unfolding c_def by (rule ceremony_run_wf [OF new_wf [OF assms(1)]])
  then have r: "records_wf E b" by (simp add: b(1) ceremony_wf_def)
  have q: "set (qualified_dealers b) = set (up_to n)"
    using all_dealt [OF r] b T by (auto simp: set_up_to)
  have "length (qualified_dealers b) = unat n"
    using distinct_card [OF chosen_dealings_wf(2) [OF r]] q card_up_to [of n] by simp
  then have "quorum b" using T b by (simp add: quorum_def word_le_nat_alt)
  then obtain k where k: "c = b\<lparr>c_key := Some k, c_phase := Keyed\<rparr>" using form_cases(1) [OF r] b(1) by blast
  then have "ek_qualified k = qualified_dealers b" using keyed_quorum [OF wf, of k] by simp
  then show ?thesis using k q by auto
qed

text \<open>A ceremony to compute: two trustees, both needed.\<close>

definition example_transport :: "u32 \<Rightarrow> (rat, rat) transport_key" where
  "example_transport i = \<lparr>tp_trustee = i, tp_key = 1, tp_pok = \<lparr>sp_c = 1, sp_z = 2\<rparr>\<rparr>"

definition example_sealed :: "u32 \<Rightarrow> (rat, rat) sealed_dealing" where
  "example_sealed i = \<lparr>sd_dealing = example_dealing i,
     sd_shares = map (\<lambda>j. (j, \<lparr>sl_kem = \<lparr>ct_a = 0, ct_b = 0\<rparr>, sl_body = []\<rparr>)) [1, 2]\<rparr>"

definition example_script :: "(rat, rat) ceremony_input list" where
  "example_script = honest_script [example_transport 2, example_transport 1] [example_sealed 1, example_sealed 2] [2, 1]"

lemma example_threshold_new: "threshold_new 2 2 = Ok example_threshold"
  by (simp add: threshold_new_def example_threshold_def)

lemma up_to_2: "up_to 2 = [1, 2]"
  by (simp add: up_to_def upt_rec)

lemma example_inputs:
  "honest_inputs example_env example_threshold ctx [example_transport 2, example_transport 1] [example_sealed 1, example_sealed 2] [2, 1]"
  by (auto simp: honest_inputs_def each_trustee_def example_threshold_def example_transport_def example_sealed_def up_to_2
      example_dealing_def verify_transport_key_def verify_dealing_def schnorr_verify_def challenge_def example_env_def)

text \<open>C17: the invariant of the ceremony. Whatever is sent to it, in whatever order, the ceremony's records stay
  those of distinct trustees with verified keys, dealings and answers, and agree with its phase. A key exists
  only in the keyed phase: its dealers are exactly the trustees with no unanswered complaint, at least \<open>t\<close> of
  them, at least \<open>t\<close> trustees confirmed, and nothing sent later changes it.\<close>

theorem ceremony_invariant:
  assumes "threshold_new t n = Ok th"
  shows "let c = ceremony_run E inputs (ceremony_new th ctx) in ceremony_wf E c \<and>
    (\<forall>ek. c_key c = Some ek \<longrightarrow> c_phase c = Keyed \<and> ek_threshold ek = th \<and>
      (\<forall>d. d \<in> set (ek_qualified ek) \<longleftrightarrow> d \<noteq> 0 \<and> d \<le> n \<and> \<not> unanswered c d) \<and> distinct (ek_qualified ek) \<and>
      unat t \<le> length (ek_qualified ek) \<and> unat t \<le> length (c_confirmed c) \<and>
      (\<forall>more. ceremony_run E more c = c))"
proof -
  let ?c = "ceremony_run E inputs (ceremony_new th ctx)"
  note T = threshold_new_Ok [OF assms]
  have th: "c_threshold ?c = th" by (simp add: run_threshold)
  have wf: "ceremony_wf E ?c" by (rule ceremony_run_wf [OF new_wf [OF assms]])
  then have r: "records_wf E ?c" by (simp add: ceremony_wf_def)
  show ?thesis unfolding Let_def
  proof (intro conjI wf allI impI)
    fix ek assume ek: "c_key ?c = Some ek"
    note K = keyed_quorum [OF wf ek, unfolded th]
    show "c_phase ?c = Keyed" "ek_threshold ek = th" "unat t \<le> length (ek_qualified ek)" "unat t \<le> length (c_confirmed ?c)"
      using K T th by (simp_all add: quorum_def)
    show "d \<in> set (ek_qualified ek) \<longleftrightarrow> d \<noteq> 0 \<and> d \<le> n \<and> \<not> unanswered ?c d" for d
      using all_dealt [OF r, of d] K T th by simp
    show "distinct (ek_qualified ek)" using chosen_dealings_wf(2) [OF r] K by simp
    show "ceremony_run E more ?c = ?c" for more using settled_run K by blast
  qed
qed

theorem ceremony_invariant_witness:
  "\<exists>ek. c_key (ceremony_run example_env example_script (ceremony_new example_threshold [])) = Some ek \<and>
     ek_threshold ek = example_threshold \<and> 2 \<le> length (ek_qualified ek) \<and>
     (\<forall>more. ceremony_run example_env more (ceremony_run example_env example_script (ceremony_new example_threshold [])) =
        ceremony_run example_env example_script (ceremony_new example_threshold []))"
proof -
  let ?c = "ceremony_run example_env example_script (ceremony_new example_threshold [])"
  obtain ek where ek: "c_key ?c = Some ek"
    using honest_completes [OF example_threshold_new example_inputs] unfolding example_script_def by blast
  have "ek_threshold ek = example_threshold \<and> unat (2 :: u32) \<le> length (ek_qualified ek) \<and> (\<forall>more. ceremony_run example_env more ?c = ?c)"
    using ceremony_invariant [OF example_threshold_new, of example_env example_script "[]", unfolded Let_def,
      THEN conjunct2, THEN spec [of _ ek], THEN mp, OF ek] by blast
  then show ?thesis using ek by auto
qed

text \<open>C18: the ceremony settles. Whatever happened before it, the deadline leaves the ceremony keyed or failed;
  keyed exactly when it already was, or when it was confirming with at least \<open>t\<close> confirmations and at least \<open>t\<close>
  dealers without an unanswered complaint, so that once all have dealt up to \<open>n - t\<close> dealers with unanswered
  complaints cannot prevent the key. And when every trustee enrols, deals and confirms without complaints, in any order
  within each phase, the key is formed without the deadline.\<close>

theorem ceremony_settles:
  assumes "threshold_new t n = Ok th"
  shows "(\<forall>inputs. let c = ceremony_run E inputs (ceremony_new th ctx); c' = snd (deadline E c) in
      (c_phase c' = Keyed \<or> c_phase c' = Failed) \<and>
      (c_phase c' = Keyed \<longleftrightarrow> c_phase c = Keyed \<or> c_phase c = Confirming \<and> unat t \<le> length (c_confirmed c) \<and>
        unat t \<le> card {d. d \<noteq> 0 \<and> d \<le> n \<and> \<not> unanswered c d})) \<and>
    (\<forall>tks ds is. honest_inputs E th ctx tks ds is \<longrightarrow>
      c_phase (ceremony_run E (honest_script tks ds is) (ceremony_new th ctx)) = Keyed)"
proof (intro conjI allI impI)
  fix inputs
  let ?c = "ceremony_run E inputs (ceremony_new th ctx)"
  note T = threshold_new_Ok [OF assms]
  have th: "c_threshold ?c = th" by (simp add: run_threshold)
  have wf: "ceremony_wf E ?c" by (rule ceremony_run_wf [OF new_wf [OF assms]])
  then have r: "records_wf E ?c" and p: "phase_wf E ?c" by (simp_all add: ceremony_wf_def)
  have q: "quorum ?c \<longleftrightarrow> unat t \<le> length (c_confirmed ?c) \<and> unat t \<le> card {d. d \<noteq> 0 \<and> d \<le> n \<and> \<not> unanswered ?c d}"
    if "c_phase ?c = Confirming"
  proof -
    have "length (c_dealings ?c) = unat n" using p that T th by (simp add: phase_wf_def Let_def)
    then have "set (qualified_dealers ?c) = {d. d \<noteq> 0 \<and> d \<le> n \<and> \<not> unanswered ?c d}"
      using all_dealt [OF r] T th by auto
    then show ?thesis using distinct_card [OF chosen_dealings_wf(2) [OF r]] T th by (simp add: quorum_def)
  qed
  show "let c = ?c; c' = snd (deadline E c) in
      (c_phase c' = Keyed \<or> c_phase c' = Failed) \<and>
      (c_phase c' = Keyed \<longleftrightarrow> c_phase c = Keyed \<or> c_phase c = Confirming \<and> unat t \<le> length (c_confirmed c) \<and>
        unat t \<le> card {d. d \<noteq> 0 \<and> d \<le> n \<and> \<not> unanswered c d})"
  proof (cases "c_phase ?c = Confirming")
    case True
    then show ?thesis using form_settles [of E ?c] form_keyed [OF r] q by (simp add: deadline_def Let_def)
  next
    case False
    then show ?thesis by (cases "c_phase ?c") (simp_all add: deadline_def Let_def)
  qed
next
  fix tks ds "is" assume "honest_inputs E th ctx tks ds is"
  then show "c_phase (ceremony_run E (honest_script tks ds is) (ceremony_new th ctx)) = Keyed"
    using honest_completes [OF assms] by blast
qed

theorem ceremony_settles_witness:
  "c_phase (ceremony_run example_env example_script (ceremony_new example_threshold [])) = Keyed"
  using ceremony_settles [OF example_threshold_new, of example_env "[]", THEN conjunct2] example_inputs
  unfolding example_script_def by blast

text \<open>The place of a record: at most one input is ever accepted for it.\<close>

datatype slot = SEnrol u32 | SDeal u32 | SConfirm u32 | SAnswer u32 u32 | SDeadline

fun slot_of :: "('s, 'p) ceremony_input \<Rightarrow> slot" where
  "slot_of (Enrol tk) = SEnrol (tp_trustee tk)"
| "slot_of (Deal d) = SDeal (dl_dealer (sd_dealing d))"
| "slot_of (Confirm i a) = SConfirm i"
| "slot_of (Justify d r v) = SAnswer d r"
| "slot_of Deadline = SDeadline"

fun taken :: "slot \<Rightarrow> ('s, 'p) ceremony \<Rightarrow> bool" where
  "taken (SEnrol i) c \<longleftrightarrow> get_raw (c_transport c) i \<noteq> None"
| "taken (SDeal i) c \<longleftrightarrow> get_raw (c_dealings c) i \<noteq> None"
| "taken (SConfirm i) c \<longleftrightarrow> get_raw (c_confirmed c) i \<noteq> None"
| "taken (SAnswer d r) c \<longleftrightarrow> get_raw (c_justified c) (d, r) \<noteq> None"
| "taken SDeadline c \<longleftrightarrow> False"

fun accepted_inputs ::
    "('s::field, 'p::ab_group_add) group_env \<Rightarrow> ('s, 'p) ceremony_input list \<Rightarrow> ('s, 'p) ceremony \<Rightarrow> ('s, 'p) ceremony_input list" where
  "accepted_inputs E [] c = []"
| "accepted_inputs E (i # is) c =
     (if fst (ceremony_step E i c) = Some (Ok Accepted) then [i] else []) @ accepted_inputs E is (snd (ceremony_step E i c))"

fun changing_steps :: "('s::field, 'p::ab_group_add) group_env \<Rightarrow> ('s, 'p) ceremony_input list \<Rightarrow> ('s, 'p) ceremony \<Rightarrow> nat" where
  "changing_steps E [] c = 0"
| "changing_steps E (i # is) c =
     (if snd (ceremony_step E i c) \<noteq> c then 1 else 0) + changing_steps E is (snd (ceremony_step E i c))"

lemma length_accepted: "length (accepted_inputs E is c) = accepted_steps E is c"
  by (induction "is" arbitrary: c) simp_all

lemma step_slots:
  "fst (ceremony_step E i c) = Some (Ok Accepted) \<longrightarrow> \<not> taken (slot_of i) c \<and> taken (slot_of i) (snd (ceremony_step E i c))"
  "fst (ceremony_step E i c) \<noteq> Some (Ok Accepted) \<longrightarrow> i \<noteq> Deadline \<longrightarrow> snd (ceremony_step E i c) = c"
  "taken s c \<longrightarrow> taken s (snd (ceremony_step E i c))"
proof -
  have "(fst (ceremony_step E i c) = Some (Ok Accepted) \<longrightarrow> \<not> taken (slot_of i) c \<and> taken (slot_of i) (snd (ceremony_step E i c))) \<and>
    (fst (ceremony_step E i c) \<noteq> Some (Ok Accepted) \<longrightarrow> i \<noteq> Deadline \<longrightarrow> snd (ceremony_step E i c) = c) \<and>
    (taken s c \<longrightarrow> taken s (snd (ceremony_step E i c)))"
  proof (cases i)
    case (Enrol tk)
    then show ?thesis by (cases rule: enrol_cases [of E tk c]; cases s) auto
  next
    case (Deal d)
    then show ?thesis by (cases rule: deal_cases [of E d c]; cases s) auto
  next
    case (Confirm k a)
    then show ?thesis by (cases rule: confirm_cases [of E k a c]; cases s) auto
  next
    case (Justify d r v)
    then show ?thesis by (cases rule: justify_cases [of E d r v c]; cases s) auto
  next
    case Deadline
    then show ?thesis by (cases s) auto
  qed
  then show "fst (ceremony_step E i c) = Some (Ok Accepted) \<longrightarrow> \<not> taken (slot_of i) c \<and> taken (slot_of i) (snd (ceremony_step E i c))"
    "fst (ceremony_step E i c) \<noteq> Some (Ok Accepted) \<longrightarrow> i \<noteq> Deadline \<longrightarrow> snd (ceremony_step E i c) = c"
    "taken s c \<longrightarrow> taken s (snd (ceremony_step E i c))" by blast+
qed

lemma accepted_slots:
  "distinct (map slot_of (accepted_inputs E is c)) \<and> (\<forall>i\<in>set (accepted_inputs E is c). \<not> taken (slot_of i) c)"
proof (induction "is" arbitrary: c)
  case (Cons i "is")
  let ?c = "snd (ceremony_step E i c)"
  have IH: "distinct (map slot_of (accepted_inputs E is ?c))" "\<And>j. j \<in> set (accepted_inputs E is ?c) \<Longrightarrow> \<not> taken (slot_of j) ?c"
    using Cons by blast+
  then have old: "\<not> taken (slot_of j) c" if "j \<in> set (accepted_inputs E is ?c)" for j using that step_slots(3) by blast
  show ?case
  proof (cases "fst (ceremony_step E i c) = Some (Ok Accepted)")
    case True
    then have "slot_of i \<notin> slot_of ` set (accepted_inputs E is ?c)" using step_slots(1) IH(2) by (metis imageE)
    then show ?thesis using True IH(1) old step_slots(1) [of E i c] by simp
  qed (use IH(1) old in simp)
qed simp

lemma deadline_settles: "c_phase (snd (deadline E c)) = Keyed \<or> c_phase (snd (deadline E c)) = Failed"
  using form_settles [of E c] by (auto simp: deadline_def Let_def split: phase.splits)

lemma settled_changes: "c_phase c = Keyed \<or> c_phase c = Failed \<Longrightarrow> changing_steps E is c = 0"
  by (induction "is") (simp_all add: settled_step)

lemma changing_accepted: "changing_steps E is c \<le> accepted_steps E is c + 1"
proof (induction "is" arbitrary: c)
  case (Cons i "is")
  show ?case
  proof (cases "i = Deadline")
    case True
    have "changing_steps E is (snd (deadline E c)) = 0" by (rule settled_changes [OF deadline_settles])
    then show ?thesis using True by simp
  next
    case False
    then show ?thesis using Cons [of "snd (ceremony_step E i c)"] step_slots(2) [of E i c]
      by (cases "snd (ceremony_step E i c) = c") auto
  qed
qed simp

text \<open>C21: the ceremony ends. Whatever is sent to a ceremony of \<open>n\<close> trustees, no two accepted inputs are for the same
  record: at most one enrolment, one dealing and one confirmation of every trustee and one answer for every pair, at
  most \<open>3 n + n * n\<close> together. An input that is not accepted, a repeat or a refused one, leaves the ceremony as it
  was, unless it is the deadline; and of all the inputs, deadlines included, at most one more than the accepted ones
  change anything.\<close>

theorem ceremony_bounded:
  assumes "threshold_new t n = Ok th"
  shows "distinct (map slot_of (accepted_inputs E inputs (ceremony_new th ctx))) \<and>
    length (accepted_inputs E inputs (ceremony_new th ctx)) \<le> 3 * unat n + unat n * unat n \<and>
    (\<forall>i c. fst (ceremony_step E i c) \<noteq> Some (Ok Accepted) \<longrightarrow> i \<noteq> Deadline \<longrightarrow> snd (ceremony_step E i c) = c) \<and>
    changing_steps E inputs (ceremony_new th ctx) \<le> length (accepted_inputs E inputs (ceremony_new th ctx)) + 1"
proof -
  let ?c = "ceremony_run E inputs (ceremony_new th ctx)"
  have "ceremony_wf E ?c" by (rule ceremony_run_wf [OF new_wf [OF assms]])
  then have "records_wf E ?c" by (simp add: ceremony_wf_def)
  then have "records ?c \<le> 3 * unat n + unat n * unat n"
    using records_bound threshold_new_Ok [OF assms] by (metis run_threshold new_fields(1))
  moreover have "records ?c = accepted_steps E inputs (ceremony_new th ctx)" by (simp add: run_records) (simp add: records_def)
  ultimately have "length (accepted_inputs E inputs (ceremony_new th ctx)) \<le> 3 * unat n + unat n * unat n"
    by (simp add: length_accepted)
  moreover have "changing_steps E inputs (ceremony_new th ctx) \<le> length (accepted_inputs E inputs (ceremony_new th ctx)) + 1"
    unfolding length_accepted by (rule changing_accepted)
  ultimately show ?thesis using accepted_slots step_slots(2) by blast
qed

theorem ceremony_bounded_witness:
  "distinct (map slot_of (accepted_inputs example_env example_script (ceremony_new example_threshold []))) \<and>
   changing_steps example_env example_script (ceremony_new example_threshold []) \<le> 11"
  using ceremony_bounded [OF example_threshold_new, of example_env example_script "[]"] by simp

text \<open>C20: a retry is safe. An input that was accepted once is answered as a repeat when it is sent again, whatever
  came in between, and leaves the ceremony as it is.\<close>

theorem ceremony_retry_safe:
  assumes "fst (ceremony_step E i c) = Some (Ok Accepted)"
  shows "let c' = ceremony_run E later (snd (ceremony_step E i c)) in ceremony_step E i c' = (Some (Ok Repeat), c')"
  unfolding Let_def by (intro recorded_repeats recorded_run accepted_recorded assms)

theorem ceremony_retry_safe_witness:
  "let c = ceremony_new example_threshold []; c' = ceremony_run example_env [Enrol (example_transport 2)] (snd (ceremony_step example_env (Enrol (example_transport 1)) c))
   in ceremony_step example_env (Enrol (example_transport 1)) c' = (Some (Ok Repeat), c')"
proof -
  have "fst (ceremony_step example_env (Enrol (example_transport 1)) (ceremony_new example_threshold [])) = Some (Ok Accepted)"
    by (simp add: enrol_def ceremony_index_def example_threshold_def example_transport_def get_raw_empty
        verify_transport_key_def schnorr_verify_def challenge_def example_env_def Let_def)
  from ceremony_retry_safe [OF this, of "[Enrol (example_transport 2)]"] show ?thesis unfolding Let_def .
qed

lemma encryption_opens:
  assumes "prime_order_group E"
  shows "ct_b (encryption E key r M) - smul E (dlog E key) (ct_a (encryption E key r M)) = M"
proof -
  have "smul E (dlog E key) (smul E r (gen E)) = smul E r key"
    using smul_dlog [OF assms, of key] by (metis smul_smul [OF assms] mult.commute)
  then show ?thesis by (simp add: encryption_def)
qed

lemma new_decryption_wf: "decryption_wf E (decryption_new ek ctx targets)"
  by (simp add: decryption_wf_def decryption_new_def ks_ordered_def get_raw_empty)

definition example_round :: "(nat, rat, rat) decryption" where
  "example_round = decryption_run example_env
     (map (submission_of example_env [] [(0, encryption example_env 2 5 7)] (\<lambda>_. sconst []))
        [\<lparr>tk_index = 1, tk_secret = 4\<rparr>, \<lparr>tk_index = 2, tk_secret = 6\<rparr>])
     (decryption_new example_ek [] [(0, encryption example_env 2 5 7)])"

lemma example_env_simps:
  "smul example_env = (*)" "gen example_env = 1" "challenge example_env tr = 1" "fst (random_scalar example_env rng) = 1"
  by (simp_all add: example_env_def challenge_def random_scalar_def)

lemma example_round_unlucky: "round_unlucky example_env example_round"
  by (simp add: round_unlucky_def example_round_def submission_of_def decryption_new_def accept_def complete_def
     partial_decrypt_def verify_partial_def cp_verify_def cp_prove_def example_env_simps example_ek_def dlog_example
     example_threshold_def encryption_def get_raw_def is_ok_def Let_def unlucky_def cp_lucky_def case_prod_unfold)

text \<open>C19: the decryption round. Whatever is submitted, in whatever order, once \<open>t\<close> key holders' own submissions are
  among it the round is complete; and a complete round answers, for every target, with exactly the element that was
  encrypted, unless a proof of a false statement was met by the one challenge that makes it pass.\<close>

theorem decryption_round_opens:
  assumes "prime_order_group E" "from_dealings E dealings th ctx0 = Ok ek" "0 < th_t th"
  defines "targets \<equiv> map (\<lambda>(k, r, M). (k, encryption E (ek_key ek) r M))"
  shows "(\<forall>ss keys rngs msgs ctx. (\<forall>k\<in>set keys. holds_key E ek k \<and> submission_of E ctx (targets msgs) (rngs k) k \<in> set ss) \<and>
      unat (th_t th) \<le> card (tk_index ` set keys) \<longrightarrow> complete (decryption_run E ss (decryption_new ek ctx (targets msgs)))) \<and>
    (\<forall>ss msgs ctx. let d = decryption_run E ss (decryption_new ek ctx (targets msgs)) in
      complete d \<and> round_unlucky E d \<longrightarrow> plaintexts E d = Ok (map (\<lambda>(k, r, M). (k, M)) msgs))"
proof (intro conjI allI impI)
  fix ss keys rngs msgs ctx
  assume "(\<forall>k\<in>set keys. holds_key E ek k \<and> submission_of E ctx (targets msgs) (rngs k) k \<in> set ss) \<and>
      unat (th_t th) \<le> card (tk_index ` set keys)"
  then show "complete (decryption_run E ss (decryption_new ek ctx (targets msgs)))"
    using decryption_completes [OF assms(1-3)] by blast
next
  fix ss msgs ctx
  let ?d = "decryption_run E ss (decryption_new ek ctx (targets msgs))"
  have d: "decryption_wf E ?d" "d_key ?d = ek" "d_targets ?d = targets msgs"
    using run_decryption(1) [OF new_decryption_wf] by (auto simp: run_decryption(2,4) decryption_new_def)
  have "plaintexts E ?d = Ok (map (\<lambda>(k, r, M). (k, M)) msgs)" if "complete ?d" "round_unlucky E ?d"
    using plaintexts_complete [OF assms(1) _ assms(3) d(1) that] assms(2) d
    by (simp add: targets_def encryption_opens [OF assms(1)] comp_def case_prod_unfold)
  then show "let d = ?d in complete d \<and> round_unlucky E d \<longrightarrow> plaintexts E d = Ok (map (\<lambda>(k, r, M). (k, M)) msgs)"
    by (simp add: Let_def)
qed

theorem decryption_round_opens_witness:
  "complete example_round \<and> plaintexts example_env example_round = Ok [(0, 7)]"
proof -
  let ?keys = "[\<lparr>tk_index = 1, tk_secret = 4\<rparr>, \<lparr>tk_index = 2, tk_secret = 6 :: rat\<rparr>]"
  let ?t = "[(0 :: nat, encryption example_env 2 5 7)]"
  let ?ss = "map (submission_of example_env [] ?t (\<lambda>_. sconst [])) ?keys"
  have k: "\<forall>k\<in>set ?keys. holds_key example_env example_ek k \<and> submission_of example_env [] ?t (\<lambda>_. sconst []) k \<in> set ?ss"
    using example_holder by simp
  have n: "unat (th_t example_threshold) \<le> card (tk_index ` set ?keys)" "0 < th_t example_threshold"
    by (simp_all add: example_threshold_def)
  have t: "map (\<lambda>(k, r, M). (k, encryption example_env (ek_key example_ek) r M)) [(0 :: nat, 5, 7)] = ?t"
    by (simp add: example_ek_def)
  note D = decryption_round_opens [OF example_group example_key [of "[]"] n(2)]
  have c: "complete example_round"
    using D [THEN conjunct1, THEN spec [of _ ?ss], THEN spec [of _ ?keys], THEN spec [of _ "\<lambda>_ _. sconst []"],
      THEN spec [of _ "[(0 :: nat, 5, 7)]"], THEN spec [of _ "[]"], unfolded t] k n(1) unfolding example_round_def by blast
  moreover have "plaintexts example_env example_round = Ok (map (\<lambda>(k, r, M). (k, M)) [(0 :: nat, 5 :: rat, 7)])"
    using D [THEN conjunct2, THEN spec [of _ ?ss], THEN spec [of _ "[(0 :: nat, 5, 7)]"], THEN spec [of _ "[]"], unfolded t Let_def]
      c example_round_unlucky unfolding example_round_def by blast
  ultimately show ?thesis by simp
qed

end
