(* ===== verification/Voting_Rules.thy ===== *)
theory Voting_Rules
  imports Election Kv_Store
begin

text \<open>
  What a manifest must say and what a ballot may answer (\<open>vti-voting/src/rules.rs\<close>).  A document is its
  typed form, the one the generated types give it after the schema check; a manifest also has a form for the
  retired member names and one for a document that does not parse.  Instants are nanoseconds.  A ballot that
  passes is shown to be one that answers every question once, each as its question admits.
\<close>

section \<open>Documents\<close>

datatype rule_error = InvalidManifest | UnsupportedSecrecy | ManifestMismatch | BallotInvalid | RSerialization

datatype question =
    Choice (q_key: string) (q_optional: bool) (q_options: "string list") (q_min_selections: u64) (q_max_selections: u64)
  | Ranking (q_key: string) (q_optional: bool) (q_options: "string list") (q_partial: bool)
  | Score (q_key: string) (q_optional: bool) (q_options: "string list") (q_min: int) (q_max: int)
  | Text (q_key: string) (q_optional: bool) (q_max_length: u64)
  | Unserved

datatype secrecy_level = Open | Sealed | TalliedEncrypted

datatype roll_rule_rule = Members | Listed | MembersAndListed | Credential

record roll_rule =
  rr_rule :: roll_rule_rule
  rr_listed :: "string list option"
  rr_member_of :: "string option"

record trustees =
  tr_dids :: "string list"
  tr_threshold :: int

datatype board_visibility = Public | Private

datatype manifest_revote = MReplace | MRefuse

record manifest =
  m_election_id :: string
  m_community :: string
  m_ballot_box :: string
  m_secrecy :: secrecy_level
  m_trustees :: "trustees option"
  m_registration_opens_at :: int
  m_voting_opens_at :: int
  m_voting_closes_at :: int
  m_roll :: roll_rule
  m_visibility :: board_visibility
  m_auditors :: "string list"
  m_questions :: "question list"
  m_revote :: manifest_revote
  m_text_release_threshold :: u64
  m_results_before_close :: bool
  m_allow_early_close :: bool

datatype manifest_doc = MLegacy | MUnreadable | MCurrent manifest

text \<open>An answer's \<open>abstain\<close> member is any JSON value; only whether it is \<open>true\<close> is read.\<close>

record answer =
  a_question :: string
  a_choice :: "string list option"
  a_ranking :: "string list option"
  a_scores :: "(string, int) keyspace"
  a_text :: "string option"
  a_abstain :: "bool option"

record ballot =
  b_election_id :: string
  b_manifest_digest :: string
  b_answers :: "answer list"

definition require_current_manifest :: "manifest_doc \<Rightarrow> (rule_error, unit) result" where
  "require_current_manifest d = (if d = MLegacy then Err InvalidManifest else Ok ())"

definition parse_manifest :: "manifest_doc \<Rightarrow> manifest option" where
  "parse_manifest d = (case d of MCurrent m \<Rightarrow> Some m | _ \<Rightarrow> None)"

definition manifest_digest :: "(manifest_doc \<Rightarrow> bytes option) \<Rightarrow> (bytes \<Rightarrow> bytes) \<Rightarrow> manifest_doc \<Rightarrow> (rule_error, bytes) result" where
  "manifest_digest jcs sha d = (case jcs d of None \<Rightarrow> Err RSerialization | Some b \<Rightarrow> Ok (sha b))"

definition digest_multibase :: "(bytes \<Rightarrow> string) \<Rightarrow> bytes \<Rightarrow> string" where
  "digest_multibase mb_encode digest = mb_encode ([0x12, 0x20] @ digest)"

definition digest_from_multibase :: "(string \<Rightarrow> bytes option) \<Rightarrow> string \<Rightarrow> bytes option" where
  "digest_from_multibase mb_decode text =
     (case mb_decode text of
        Some (a # b # rest) \<Rightarrow> if a = 0x12 \<and> b = 0x20 \<and> length rest = 32 then Some rest else None
      | _ \<Rightarrow> None)"

definition key :: "question \<Rightarrow> string option" where
  "key q = (case q of Unserved \<Rightarrow> None | _ \<Rightarrow> Some (q_key q))"

definition optional :: "question \<Rightarrow> bool" where
  "optional q = (case q of Unserved \<Rightarrow> False | _ \<Rightarrow> q_optional q)"

definition option_keys :: "question \<Rightarrow> string list" where
  "option_keys q = (case q of Text _ _ _ \<Rightarrow> [] | Unserved \<Rightarrow> [] | _ \<Rightarrow> q_options q)"

section \<open>Manifests\<close>

definition MAX_TRUSTEES :: nat where "MAX_TRUSTEES = 64"

definition is_choice :: "question \<Rightarrow> bool" where
  "is_choice q = (case q of Choice _ _ _ _ _ \<Rightarrow> True | _ \<Rightarrow> False)"

definition check_trustees :: "manifest \<Rightarrow> (rule_error, unit) result" where
  "check_trustees m =
     (case m_trustees m of
        None \<Rightarrow> Err InvalidManifest
      | Some t \<Rightarrow>
          let n = length (tr_dids t)
          in if n > MAX_TRUSTEES then Err InvalidManifest
             else if tr_threshold t < 2 \<or> tr_threshold t > int n then Err InvalidManifest
             else if length (remdups (tr_dids t)) \<noteq> n then Err InvalidManifest
             else if list_ex (\<lambda>d. d = m_community m \<or> d = m_ballot_box m) (tr_dids t) then Err InvalidManifest
             else if m_results_before_close m then Err InvalidManifest
             else if m_secrecy m = TalliedEncrypted \<and> list_ex (\<lambda>q. \<not> is_choice q) (m_questions m) then Err InvalidManifest
             else Ok ())"

definition SERVED_LEVELS :: "secrecy_level list" where
  "SERVED_LEVELS = [Open, Sealed, TalliedEncrypted]"

definition check_question :: "question \<Rightarrow> (rule_error, unit) result" where
  "check_question q =
     (if length (remdups (option_keys q)) \<noteq> length (option_keys q) then Err InvalidManifest
      else case q of
        Choice _ _ options mn mx \<Rightarrow>
          if mn > mx \<or> mx > word_of_nat (length options) then Err InvalidManifest else Ok ()
      | Score _ _ _ mn mx \<Rightarrow> if mn \<ge> mx then Err InvalidManifest else Ok ()
      | _ \<Rightarrow> Ok ())"

primrec check_questions :: "string list \<Rightarrow> question list \<Rightarrow> (rule_error, unit) result" where
  "check_questions seen [] = Ok ()"
| "check_questions seen (q # qs) =
     (case key q of
        None \<Rightarrow> Err InvalidManifest
      | Some k \<Rightarrow>
          if k \<in> set seen then Err InvalidManifest
          else res_bind (check_question q) (\<lambda>_. check_questions (k # seen) qs))"

definition check_roll :: "roll_rule \<Rightarrow> (rule_error, unit) result" where
  "check_roll r =
     (let listed = (case rr_listed r of None \<Rightarrow> 0 | Some l \<Rightarrow> length l)
      in if (rr_rule r = Listed \<or> rr_rule r = MembersAndListed) \<and> listed = 0 then Err InvalidManifest
         else if rr_rule r = Members \<and> listed \<noteq> 0 then Err InvalidManifest
         else if rr_rule r = Credential \<and> rr_member_of r = None then Err InvalidManifest
         else if rr_rule r = Credential \<and> listed \<noteq> 0 then Err InvalidManifest
         else if rr_member_of r \<noteq> None \<and> rr_rule r \<noteq> Credential then Err InvalidManifest
         else Ok ())"

definition check_manifest_serving :: "manifest \<Rightarrow> string option \<Rightarrow> secrecy_level list \<Rightarrow> (rule_error, unit) result" where
  "check_manifest_serving m ballot_box served =
     (if m_secrecy m \<notin> set served then Err UnsupportedSecrecy
      else
        res_bind
          (if m_secrecy m = Open then (if m_trustees m \<noteq> None then Err InvalidManifest else Ok ()) else check_trustees m)
          (\<lambda>_.
            if \<not> (m_registration_opens_at m \<le> m_voting_opens_at m \<and> m_voting_opens_at m < m_voting_closes_at m)
            then Err InvalidManifest
            else if (case ballot_box of Some own \<Rightarrow> m_ballot_box m \<noteq> own | None \<Rightarrow> False) then Err InvalidManifest
            else
              res_bind (check_roll (m_roll m)) (\<lambda>_.
                if list_ex (\<lambda>a. a = m_community m \<or> a = m_ballot_box m) (m_auditors m) then Err InvalidManifest
                else check_questions [] (m_questions m))))"

definition check_manifest :: "manifest \<Rightarrow> string option \<Rightarrow> (rule_error, unit) result" where
  "check_manifest m ballot_box = check_manifest_serving m ballot_box SERVED_LEVELS"

definition check_new_manifest :: "manifest_doc \<Rightarrow> int \<Rightarrow> (rule_error, manifest) result" where
  "check_new_manifest d now =
     res_bind (require_current_manifest d) (\<lambda>_.
       case parse_manifest d of
         None \<Rightarrow> Err InvalidManifest
       | Some m \<Rightarrow>
           res_bind (check_manifest m None) (\<lambda>_.
             if m_voting_closes_at m \<le> now then Err InvalidManifest else Ok m))"

section \<open>Ballots\<close>

text \<open>\<open>chars().count()\<close> on the UTF-8 bytes: every byte that does not continue a character.\<close>

definition chars_count :: "string \<Rightarrow> nat" where
  "chars_count s = length (filter (\<lambda>c. \<not> ((128 :: nat) \<le> of_char c \<and> of_char c < (192 :: nat))) s)"

definition members :: "answer \<Rightarrow> nat" where
  "members a =
     of_bool (a_choice a \<noteq> None) + of_bool (a_ranking a \<noteq> None) + of_bool (a_scores a \<noteq> []) +
     of_bool (a_text a \<noteq> None) + of_bool (a_abstain a \<noteq> None)"

definition check_answer :: "question \<Rightarrow> answer \<Rightarrow> (rule_error, unit) result" where
  "check_answer q a =
     (let opts = option_keys q
      in case q of
        Choice _ _ _ mn mx \<Rightarrow>
          (case a_choice a of
             None \<Rightarrow> Err BallotInvalid
           | Some choice \<Rightarrow>
               let n = (word_of_nat (length choice) :: u64)
               in if n < mn \<or> n > mx then Err BallotInvalid
                  else if length (remdups choice) \<noteq> length choice \<or> list_ex (\<lambda>k. k \<notin> set opts) choice then Err BallotInvalid
                  else Ok ())
      | Ranking _ _ _ partial \<Rightarrow>
          (case a_ranking a of
             None \<Rightarrow> Err BallotInvalid
           | Some ranking \<Rightarrow>
               let dist = (length (remdups ranking) = length ranking);
                   known = list_all (\<lambda>k. k \<in> set opts) ranking;
                   compl = (if partial then ranking \<noteq> [] else length ranking = length (remdups opts))
               in if \<not> (dist \<and> known \<and> compl) then Err BallotInvalid else Ok ())
      | Score _ _ _ mn mx \<Rightarrow>
          (if set (map fst (a_scores a)) \<noteq> set opts then Err BallotInvalid
           else if list_ex (\<lambda>v. v < mn \<or> v > mx) (map snd (a_scores a)) then Err BallotInvalid
           else Ok ())
      | Text _ _ mx \<Rightarrow>
          (case a_text a of
             None \<Rightarrow> Err BallotInvalid
           | Some t \<Rightarrow> if (word_of_nat (chars_count t) :: u64) > mx then Err BallotInvalid else Ok ())
      | Unserved \<Rightarrow> Err BallotInvalid)"

primrec check_answers :: "question list \<Rightarrow> string list \<Rightarrow> answer list \<Rightarrow> (rule_error, string list) result" where
  "check_answers qs answered [] = Ok answered"
| "check_answers qs answered (a # as) =
     (case find (\<lambda>q. key q = Some (a_question a)) qs of
        None \<Rightarrow> Err BallotInvalid
      | Some q \<Rightarrow>
          if a_question a \<in> set answered then Err BallotInvalid
          else if members a \<noteq> 1 then Err BallotInvalid
          else if a_abstain a \<noteq> None then
            (if a_abstain a \<noteq> Some True then Err BallotInvalid
             else if \<not> optional q then Err BallotInvalid
             else check_answers qs (a_question a # answered) as)
          else res_bind (check_answer q a) (\<lambda>_. check_answers qs (a_question a # answered) as))"

definition check_ballot :: "(string \<Rightarrow> bytes option) \<Rightarrow> manifest \<Rightarrow> bytes \<Rightarrow> ballot \<Rightarrow> (rule_error, unit) result" where
  "check_ballot mb_decode m digest b =
     (if b_election_id b \<noteq> m_election_id m \<or> digest_from_multibase mb_decode (b_manifest_digest b) \<noteq> Some digest
      then Err ManifestMismatch
      else
        res_bind (check_answers (m_questions m) [] (b_answers b)) (\<lambda>answered.
          case find (\<lambda>q. case key q of None \<Rightarrow> True | Some k \<Rightarrow> k \<notin> set answered) (m_questions m) of
            Some _ \<Rightarrow> Err BallotInvalid
          | None \<Rightarrow> Ok ()))"

section \<open>What a checked ballot is\<close>

lemma remdups_length_iff: "length (remdups xs) = length xs \<longleftrightarrow> distinct xs"
  by simp

lemma check_questions_Ok:
  "check_questions seen qs = Ok () \<longleftrightarrow> Unserved \<notin> set qs \<and> distinct (map q_key qs) \<and> q_key ` set qs \<inter> set seen = {} \<and>
     (\<forall>q\<in>set qs. check_question q = Ok ())"
  by (induction qs arbitrary: seen) (auto simp: res_bind_Ok_iff key_def split: question.splits)

lemma key_Some: "key q = Some k \<longleftrightarrow> q \<noteq> Unserved \<and> q_key q = k"
  by (cases q) (auto simp: key_def)

text \<open>The questions of a checked manifest have keys, all different.\<close>

definition asks :: "manifest \<Rightarrow> bool" where
  "asks m \<longleftrightarrow> Unserved \<notin> set (m_questions m) \<and> distinct (map q_key (m_questions m)) \<and>
     (\<forall>q\<in>set (m_questions m). distinct (option_keys q))"

lemma check_manifest_asks: "check_manifest m bb = Ok () \<Longrightarrow> asks m"
  by (auto simp: check_manifest_def check_manifest_serving_def res_bind_Ok_iff check_questions_Ok asks_def
      check_question_def remdups_length_iff split: if_splits)

text \<open>How a question may be answered.\<close>

definition abstains :: "answer \<Rightarrow> bool" where
  "abstains a \<longleftrightarrow> a_choice a = None \<and> a_ranking a = None \<and> a_scores a = [] \<and> a_text a = None \<and> a_abstain a = Some True"

fun admits :: "question \<Rightarrow> answer \<Rightarrow> bool" where
  "admits (Choice k opt options mn mx) a \<longleftrightarrow> opt \<and> abstains a \<or>
     (\<exists>c. a_choice a = Some c \<and> a_ranking a = None \<and> a_scores a = [] \<and> a_text a = None \<and> a_abstain a = None \<and>
        distinct c \<and> set c \<subseteq> set options \<and> mn \<le> word_of_nat (length c) \<and> word_of_nat (length c) \<le> mx)"
| "admits (Ranking k opt options partial) a \<longleftrightarrow> opt \<and> abstains a \<or>
     (\<exists>r. a_choice a = None \<and> a_ranking a = Some r \<and> a_scores a = [] \<and> a_text a = None \<and> a_abstain a = None \<and>
        distinct r \<and> set r \<subseteq> set options \<and> (if partial then r \<noteq> [] else set r = set options))"
| "admits (Score k opt options mn mx) a \<longleftrightarrow> opt \<and> abstains a \<or>
     a_choice a = None \<and> a_ranking a = None \<and> a_scores a \<noteq> [] \<and> a_text a = None \<and> a_abstain a = None \<and>
     keys_of (a_scores a) = set options \<and> (\<forall>v\<in>snd ` set (a_scores a). mn \<le> v \<and> v \<le> mx)"
| "admits (Text k opt mx) a \<longleftrightarrow> opt \<and> abstains a \<or>
     (\<exists>t. a_choice a = None \<and> a_ranking a = None \<and> a_scores a = [] \<and> a_text a = Some t \<and> a_abstain a = None \<and>
        word_of_nat (chars_count t) \<le> mx)"
| "admits Unserved a \<longleftrightarrow> False"

lemma same_size_sets: "distinct r \<Longrightarrow> \<forall>k\<in>set r. k \<in> set xs \<Longrightarrow> length r = length (remdups xs) \<longleftrightarrow> set r = set xs"
  by (metis List.finite_set card_subset_eq distinct_card distinct_remdups set_remdups subsetI)

text \<open>A question that offers options has some, as the schema demands.\<close>

definition offers :: "question \<Rightarrow> bool" where
  "offers q \<longleftrightarrow> (case q of Text _ _ _ \<Rightarrow> True | Unserved \<Rightarrow> True | _ \<Rightarrow> q_options q \<noteq> [])"

lemmas answer_simps = members_def check_answer_def optional_def option_keys_def abstains_def Let_def remdups_length_iff
  list_all_iff list_ex_iff not_less

lemma check_answer_admits:
  assumes "q \<noteq> Unserved" "offers q"
  shows "members a = 1 \<and> (if a_abstain a \<noteq> None then a_abstain a = Some True \<and> optional q else check_answer q a = Ok ())
    \<longleftrightarrow> admits q a"
proof (cases q)
  case (Choice k opt options mn mx)
  then show ?thesis
    by (cases "a_choice a"; cases "a_ranking a"; cases "a_scores a = []"; cases "a_text a"; cases "a_abstain a")
      (auto simp: answer_simps split: if_splits)
next
  case (Ranking k opt options partial)
  then show ?thesis
    by (cases "a_choice a"; cases "a_ranking a"; cases "a_scores a = []"; cases "a_text a"; cases "a_abstain a"; cases partial)
      (auto simp: answer_simps same_size_sets split: if_splits)
next
  case (Score k opt options mn mx)
  then have "options \<noteq> []" using assms(2) by (simp add: offers_def)
  with Score show ?thesis
    by (cases "a_choice a"; cases "a_ranking a"; cases "a_scores a = []"; cases "a_text a"; cases "a_abstain a")
      (auto simp: answer_simps keys_of_def split: if_splits, force+)
next
  case (Text k opt mx)
  then show ?thesis
    by (cases "a_choice a"; cases "a_ranking a"; cases "a_scores a = []"; cases "a_text a"; cases "a_abstain a")
      (auto simp: answer_simps split: if_splits)
qed (use assms in simp)

lemma find_key:
  assumes "distinct (map q_key qs)" "Unserved \<notin> set qs"
  shows "find (\<lambda>q. key q = Some k) qs = Some q \<longleftrightarrow> q \<in> set qs \<and> q_key q = k"
  using assms by (induction qs) (auto simp: key_Some)

lemma check_answers_Ok:
  assumes "distinct (map q_key qs)" "Unserved \<notin> set qs" "\<forall>q\<in>set qs. offers q"
  shows "check_answers qs answered as = Ok final \<longleftrightarrow> final = rev (map a_question as) @ answered \<and>
    distinct (map a_question as) \<and> a_question ` set as \<inter> set answered = {} \<and>
    (\<forall>a\<in>set as. \<exists>q\<in>set qs. q_key q = a_question a \<and> admits q a)"
proof (induction as arbitrary: answered)
  case (Cons a as)
  show ?case
  proof (cases "find (\<lambda>q. key q = Some (a_question a)) qs")
    case None
    then have "\<forall>q\<in>set qs. q_key q \<noteq> a_question a" using assms(2) by (fastforce simp: find_None_iff key_Some)
    then show ?thesis using None by simp
  next
    case (Some q)
    then have q: "q \<in> set qs" "q_key q = a_question a" using find_key [OF assms(1,2)] by blast+
    have uniq: "q' = q" if "q' \<in> set qs" "q_key q' = a_question a" for q'
      using that q assms(1) by (metis distinct_map inj_onD)
    have "q \<noteq> Unserved" "offers q" using q assms(2,3) by auto
    note adm = check_answer_admits [OF this, of a]
    have step: "check_answers qs answered (a # as) = Ok final \<longleftrightarrow>
        a_question a \<notin> set answered \<and> admits q a \<and> check_answers qs (a_question a # answered) as = Ok final"
      unfolding adm [symmetric] check_answers.simps(2) Some by (simp add: res_bind_Ok_iff)
    have ex: "(\<exists>q'\<in>set qs. q_key q' = a_question a \<and> admits q' a) \<longleftrightarrow> admits q a" using q uniq by blast
    show ?thesis unfolding step Cons.IH by (simp add: ex) blast
  qed
qed auto

lemma case_None_Ok: "(case x of None \<Rightarrow> Ok () | Some y \<Rightarrow> Err e) = Ok () \<longleftrightarrow> x = None"
  by (cases x) simp_all

lemma check_ballot_iff:
  assumes "check_manifest m bb = Ok ()" "\<forall>q\<in>set (m_questions m). offers q"
  shows "check_ballot mb_decode m digest b = Ok () \<longleftrightarrow>
    b_election_id b = m_election_id m \<and> digest_from_multibase mb_decode (b_manifest_digest b) = Some digest \<and>
    distinct (map a_question (b_answers b)) \<and> a_question ` set (b_answers b) = q_key ` set (m_questions m) \<and>
    (\<forall>a\<in>set (b_answers b). \<forall>q\<in>set (m_questions m). q_key q = a_question a \<longrightarrow> admits q a)"
proof -
  have qs: "distinct (map q_key (m_questions m))" "Unserved \<notin> set (m_questions m)"
    using check_manifest_asks [OF assms(1)] by (auto simp: asks_def)
  have uniq: "q' = q" if "q \<in> set (m_questions m)" "q' \<in> set (m_questions m)" "q_key q' = q_key q" for q q'
    using that qs(1) by (metis distinct_map inj_onD)
  have "find (\<lambda>q. case key q of None \<Rightarrow> True | Some k \<Rightarrow> k \<notin> set answered) (m_questions m) = None \<longleftrightarrow>
      q_key ` set (m_questions m) \<subseteq> set answered" for answered
  proof -
    have "(case key q of None \<Rightarrow> True | Some k \<Rightarrow> k \<notin> set answered) \<longleftrightarrow> q_key q \<notin> set answered" if "q \<in> set (m_questions m)" for q
    proof -
      have "key q = Some (q_key q)" using that qs(2) by (auto simp: key_Some)
      then show ?thesis by simp
    qed
    then show ?thesis by (auto simp: find_None_iff)
  qed
  then have "check_ballot mb_decode m digest b = Ok () \<longleftrightarrow>
    b_election_id b = m_election_id m \<and> digest_from_multibase mb_decode (b_manifest_digest b) = Some digest \<and>
    distinct (map a_question (b_answers b)) \<and> q_key ` set (m_questions m) \<subseteq> a_question ` set (b_answers b) \<and>
    (\<forall>a\<in>set (b_answers b). \<exists>q\<in>set (m_questions m). q_key q = a_question a \<and> admits q a)"
    by (simp add: check_ballot_def res_bind_Ok_iff check_answers_Ok [OF qs assms(2)] case_None_Ok) auto
  moreover have "(\<exists>q\<in>set (m_questions m). q_key q = k \<and> P q) \<longleftrightarrow>
      k \<in> q_key ` set (m_questions m) \<and> (\<forall>q\<in>set (m_questions m). q_key q = k \<longrightarrow> P q)" for k P
    using uniq unfolding image_iff by metis
  ultimately show ?thesis by auto
qed

lemma check_ballot_props:
  assumes "check_manifest m bb = Ok ()" "\<forall>q\<in>set (m_questions m). offers q" "check_ballot mb_decode m digest b = Ok ()"
  shows "a_question ` set (b_answers b) = q_key ` set (m_questions m)"
    "\<forall>a\<in>set (b_answers b). \<forall>q\<in>set (m_questions m). q_key q = a_question a \<longrightarrow> admits q a"
  using check_ballot_iff [OF assms(1,2)] assms(3) by blast+

text \<open>C22: A ballot is accepted exactly when it names this election and this manifest, answers every question
  once, and answers each as its question admits: an abstention where the question is optional, or the one member its
  type takes, with known options, none repeated, and within the question's bounds.\<close>

theorem check_ballot_exact:
  assumes "check_manifest m bb = Ok ()" "\<forall>q\<in>set (m_questions m). offers q"
  shows "check_ballot mb_decode m digest b = Ok () \<longleftrightarrow>
    b_election_id b = m_election_id m \<and> digest_from_multibase mb_decode (b_manifest_digest b) = Some digest \<and>
    distinct (map a_question (b_answers b)) \<and> a_question ` set (b_answers b) = q_key ` set (m_questions m) \<and>
    (\<forall>a\<in>set (b_answers b). \<forall>q\<in>set (m_questions m). q_key q = a_question a \<longrightarrow> admits q a)"
  by (rule check_ballot_iff [OF assms])

text \<open>An election with a choice and a text.\<close>

definition example_manifest :: manifest where
  "example_manifest =
     \<lparr>m_election_id = ''e'', m_community = ''c'', m_ballot_box = ''b'', m_secrecy = Open, m_trustees = None,
      m_registration_opens_at = 0, m_voting_opens_at = 1000000000, m_voting_closes_at = 2000000000,
      m_roll = \<lparr>rr_rule = Members, rr_listed = None, rr_member_of = None\<rparr>, m_visibility = Public, m_auditors = [],
      m_questions = [Choice ''q'' True [''y'', ''n''] 1 1, Text ''t'' False 100], m_revote = MReplace,
      m_text_release_threshold = 1, m_results_before_close = False, m_allow_early_close = True\<rparr>"

definition example_answer :: "string \<Rightarrow> answer" where
  "example_answer k = \<lparr>a_question = k, a_choice = None, a_ranking = None, a_scores = [], a_text = None, a_abstain = None\<rparr>"

definition example_ballot :: "string \<Rightarrow> ballot" where
  "example_ballot words =
     \<lparr>b_election_id = ''e'', b_manifest_digest = ''d'',
      b_answers = [(example_answer ''t'')\<lparr>a_text := Some words\<rparr>, (example_answer ''q'')\<lparr>a_choice := Some [''y'']\<rparr>]\<rparr>"

definition example_mb :: "string \<Rightarrow> bytes option" where
  "example_mb s = Some ([0x12, 0x20] @ replicate 32 0)"

lemma example_manifest_checked: "check_manifest example_manifest None = Ok ()" "\<forall>q\<in>set (m_questions example_manifest). offers q"
  by (simp_all add: example_manifest_def check_manifest_def check_manifest_serving_def SERVED_LEVELS_def check_roll_def
      key_def check_question_def option_keys_def offers_def)

lemma example_digest: "digest_from_multibase example_mb s = Some (replicate 32 0)"
  by (simp add: digest_from_multibase_def example_mb_def)

theorem check_ballot_exact_witness:
  "check_ballot example_mb example_manifest (replicate 32 0) (example_ballot ''hi'') = Ok ()"
  using check_ballot_exact [OF example_manifest_checked, of example_mb "replicate 32 0" "example_ballot ''hi''"]
  by (auto simp: example_digest example_ballot_def example_answer_def example_manifest_def chars_count_def)

end
