(* ===== verification/Voting_Tally.thy ===== *)
theory Voting_Tally
  imports Voting_Rules "HOL-Library.Multiset"
begin

text \<open>
  Counting (\<open>vti-voting/src/tally.rs\<close>).  The totals are kept in ordered maps at 64 bits; an index past the end
  of a list of positions, where the code would panic, is the missing value.  A row is a record here; the code builds
  it as a JSON object and converts that to the schema's type, and the error of that conversion
  (\<open>RuleError::Serialization\<close>) is not modelled: the object has exactly the fields of the type, with keys that came
  from a value of the schema and totals of the schema's own number types.  On checked ballots the count never
  panics, and every total is the number (or the sum) it says, whatever the order of the ballots; only released
  texts keep that order.
\<close>

section \<open>Totals\<close>

datatype totals =
    TChoice "(string, u64) keyspace"
  | TRanking "(string, u64 list) keyspace"
  | TScore "(string, int \<times> u64) keyspace"
  | TText "string list"
  | TWithheld

record question_result =
  qr_question :: string
  qr_totals :: totals
  qr_abstained :: u64

definition i64_min :: int where "i64_min = - (2 ^ 63)"
definition i64_max :: int where "i64_max = 2 ^ 63 - 1"

definition sat_add_i64 :: "int \<Rightarrow> int \<Rightarrow> int" where
  "sat_add_i64 a b = max i64_min (min i64_max (a + b))"

definition all_of :: "'v \<Rightarrow> string list \<Rightarrow> (string, 'v) keyspace" where
  "all_of v opts = fold (\<lambda>k ks. insert_raw k v ks) opts []"

definition count_one :: "string \<Rightarrow> (string, u64) keyspace \<Rightarrow> (string, u64) keyspace" where
  "count_one k counts = insert_raw k (case get_raw counts k of None \<Rightarrow> 1 | Some c \<Rightarrow> c + 1) counts"

definition count_choice :: "answer \<Rightarrow> (string, u64) keyspace \<times> u64 \<Rightarrow> (string, u64) keyspace \<times> u64" where
  "count_choice a = (\<lambda>(counts, abstained).
     case a_choice a of Some choice \<Rightarrow> (fold count_one choice counts, abstained) | None \<Rightarrow> (counts, abstained + 1))"

primrec count_positions :: "nat \<Rightarrow> string list \<Rightarrow> (string, u64 list) keyspace \<Rightarrow> (string, u64 list) keyspace option" where
  "count_positions pos [] positions = Some positions"
| "count_positions pos (k # ks) positions =
     (case get_raw positions k of
        None \<Rightarrow> count_positions (Suc pos) ks positions
      | Some p \<Rightarrow>
          if pos < length p then count_positions (Suc pos) ks (insert_raw k (p[pos := p ! pos + 1]) positions) else None)"

primrec count_rankings ::
    "answer list \<Rightarrow> (string, u64 list) keyspace \<times> u64 \<Rightarrow> ((string, u64 list) keyspace \<times> u64) option" where
  "count_rankings [] s = Some s"
| "count_rankings (a # as) s =
     (case a_ranking a of
        Some ranking \<Rightarrow>
          (case count_positions 0 ranking (fst s) of
             None \<Rightarrow> None
           | Some positions \<Rightarrow> count_rankings as (positions, snd s))
      | None \<Rightarrow> count_rankings as (fst s, snd s + 1))"

definition count_score :: "string \<times> int \<Rightarrow> (string, int \<times> u64) keyspace \<Rightarrow> (string, int \<times> u64) keyspace" where
  "count_score kv sums =
     (let (k, v) = kv; e = (case get_raw sums k of None \<Rightarrow> (0, 0) | Some e \<Rightarrow> e)
      in insert_raw k (sat_add_i64 (fst e) v, snd e + 1) sums)"

definition count_scores :: "answer \<Rightarrow> (string, int \<times> u64) keyspace \<times> u64 \<Rightarrow> (string, int \<times> u64) keyspace \<times> u64" where
  "count_scores a = (\<lambda>(sums, abstained).
     if a_scores a = [] then (sums, abstained + 1) else (fold count_score (a_scores a) sums, abstained))"

definition count_text :: "answer \<Rightarrow> string list \<times> u64 \<Rightarrow> string list \<times> u64" where
  "count_text a = (\<lambda>(texts, abstained).
     case a_text a of Some t \<Rightarrow> (texts @ [t], abstained) | None \<Rightarrow> (texts, abstained + 1))"

definition tally_question :: "bool \<Rightarrow> question \<Rightarrow> string \<Rightarrow> answer list \<Rightarrow> (rule_error, question_result) result option" where
  "tally_question release_text q qkey answers =
     (let opts = option_keys q; row = (\<lambda>t ab. Some (Ok \<lparr>qr_question = qkey, qr_totals = t, qr_abstained = ab\<rparr>))
      in case q of
        Choice _ _ _ _ _ \<Rightarrow>
          (let (counts, abstained) = fold count_choice answers (all_of 0 opts, 0) in row (TChoice counts) abstained)
      | Ranking _ _ _ _ \<Rightarrow>
          (case count_rankings answers (all_of (replicate (length opts) 0) opts, 0) of
             None \<Rightarrow> None
           | Some (positions, abstained) \<Rightarrow> row (TRanking positions) abstained)
      | Score _ _ _ _ _ \<Rightarrow>
          (let (sums, abstained) = fold count_scores answers (all_of (0, 0) opts, 0) in row (TScore sums) abstained)
      | Text _ _ _ \<Rightarrow>
          (let (texts, abstained) = fold count_text answers ([], 0)
           in row (if release_text then TText texts else TWithheld) abstained)
      | Unserved \<Rightarrow> Some (Err InvalidManifest))"

primrec tally_loop :: "bool \<Rightarrow> ballot list \<Rightarrow> question list \<Rightarrow> (rule_error, question_result list) result option" where
  "tally_loop release_text counted [] = Some (Ok [])"
| "tally_loop release_text counted (q # qs) =
     (case key q of
        None \<Rightarrow> Some (Err InvalidManifest)
      | Some qkey \<Rightarrow>
          (case tally_question release_text q qkey
                  (List.map_filter (\<lambda>b. find (\<lambda>a. a_question a = qkey) (b_answers b)) counted) of
             None \<Rightarrow> None
           | Some (Err e) \<Rightarrow> Some (Err e)
           | Some (Ok row) \<Rightarrow>
               map_option (\<lambda>r. res_bind r (\<lambda>rows. Ok (row # rows))) (tally_loop release_text counted qs)))"

definition tally :: "manifest \<Rightarrow> ballot list \<Rightarrow> bool \<Rightarrow> (rule_error, u64 \<times> question_result list) result option" where
  "tally m counted provisional =
     (let n = word_of_nat (length counted);
          release_text = (\<not> provisional \<and> n \<ge> m_text_release_threshold m)
      in map_option (\<lambda>r. res_bind r (\<lambda>out. Ok (n, out))) (tally_loop release_text counted (m_questions m)))"

primrec total_row :: "(string \<Rightarrow> u64 option) \<Rightarrow> string list \<Rightarrow> (string, u64) keyspace \<Rightarrow> u64 \<Rightarrow> ((string, u64) keyspace \<times> u64) option" where
  "total_row tot [] counts sm = Some (counts, sm)"
| "total_row tot (opt # opts) counts sm =
     (case tot opt of None \<Rightarrow> None | Some c \<Rightarrow> total_row tot opts (insert_raw opt c counts) (sm + c))"

definition tallied_row :: "(string \<Rightarrow> string \<Rightarrow> u64 option) \<Rightarrow> u64 \<Rightarrow> question \<Rightarrow> (rule_error, question_result) result" where
  "tallied_row total_of n q =
     (case q of
        Choice qkey _ _ _ mx \<Rightarrow>
          (case total_row (total_of qkey) (option_keys q) [] 0 of
             None \<Rightarrow> Err InvalidManifest
           | Some (counts, sm) \<Rightarrow>
               Ok \<lparr>qr_question = qkey, qr_totals = TChoice counts,
                   qr_abstained = (if mx = 1 then sat_sub n sm else 0)\<rparr>)
      | _ \<Rightarrow> Err InvalidManifest)"

definition tallied_rows :: "manifest \<Rightarrow> (string \<Rightarrow> string \<Rightarrow> u64 option) \<Rightarrow> u64 \<Rightarrow> (rule_error, question_result list) result" where
  "tallied_rows m total_of n = res_collect (tallied_row total_of n) (m_questions m)"

section \<open>What the totals are\<close>

lemma ordered_ext:
  assumes "ks_ordered a" "ks_ordered b" "\<And>k. get_raw a k = get_raw b k"
  shows "a = b"
proof -
  have "set a = set b" using assms(3) ordered_get_raw [OF assms(1)] ordered_get_raw [OF assms(2)] by auto
  moreover have "sorted (map fst a)" "sorted (map fst b)"
    using assms(1,2) by (auto simp: ks_ordered_def sorted_map elim: sorted_wrt_mono_rel [rotated])
  ultimately show ?thesis
    using ordered_distinct [OF assms(1)] ordered_distinct [OF assms(2)]
    by (metis distinct_map map_sorted_distinct_set_unique Un_absorb)
qed

definition table :: "(string \<Rightarrow> 'v) \<Rightarrow> string list \<Rightarrow> (string, 'v) keyspace" where
  "table f opts = map (\<lambda>k. (k, f k)) (sort opts)"

lemma get_table: "get_raw (table f opts) k = (if k \<in> set opts then Some (f k) else None)"
  by (simp add: table_def get_raw_def map_of_map_keys [symmetric] map_of_map_restrict comp_def restrict_map_def)

lemma ordered_table: "distinct opts \<Longrightarrow> ks_ordered (table f opts)"
  by (simp add: table_def ks_ordered_def sorted_wrt_map strict_sorted_iff)

lemma get_all_of: "get_raw (all_of v opts) k = (if k \<in> set opts then Some v else None)"
  and ordered_all_of: "ks_ordered (all_of v opts)"
proof -
  have "get_raw (fold (\<lambda>k ks. insert_raw k v ks) opts ks) k = (if k \<in> set opts then Some v else get_raw ks k)" for ks
    by (induction opts arbitrary: ks) auto
  then show "get_raw (all_of v opts) k = (if k \<in> set opts then Some v else None)" by (simp add: all_of_def get_raw_def)
  have "ks_ordered ks \<Longrightarrow> ks_ordered (fold (\<lambda>k ks. insert_raw k v ks) opts ks)" for ks
    by (induction opts arbitrary: ks) (auto simp: ordered_insert)
  then show "ks_ordered (all_of v opts)" by (simp add: all_of_def ks_ordered_def)
qed

definition chose_option :: "string \<Rightarrow> answer \<Rightarrow> bool" where
  "chose_option k a \<longleftrightarrow> (case a_choice a of None \<Rightarrow> False | Some c \<Rightarrow> k \<in> set c)"

definition ranked_at :: "nat \<Rightarrow> string \<Rightarrow> answer \<Rightarrow> bool" where
  "ranked_at j k a \<longleftrightarrow> (case a_ranking a of None \<Rightarrow> False | Some r \<Rightarrow> j < length r \<and> r ! j = k)"

definition score_of :: "string \<Rightarrow> answer \<Rightarrow> int" where
  "score_of k a = (case get_raw (a_scores a) k of None \<Rightarrow> 0 | Some v \<Rightarrow> v)"

abbreviation how_many :: "('a \<Rightarrow> bool) \<Rightarrow> 'a list \<Rightarrow> u64" where
  "how_many P xs \<equiv> word_of_nat (length (filter P xs))"

lemma fold_count_one:
  "distinct c \<Longrightarrow> get_raw (fold count_one c counts) k =
     (if k \<in> set c then Some ((case get_raw counts k of None \<Rightarrow> 0 | Some n \<Rightarrow> n) + 1) else get_raw counts k)"
  by (induction c arbitrary: counts) (auto simp: count_one_def split: option.splits)

lemma fold_count_one_ordered: "ks_ordered counts \<Longrightarrow> ks_ordered (fold count_one c counts)"
  by (induction c arbitrary: counts) (auto simp: count_one_def ordered_insert)

lemma fold_count_choice:
  assumes "\<forall>a\<in>set as. \<forall>c. a_choice a = Some c \<longrightarrow> distinct c \<and> set c \<subseteq> keys_of counts" "ks_ordered counts"
  shows "(\<forall>k. get_raw (fst (fold count_choice as (counts, ab))) k = map_option (\<lambda>n. n + how_many (chose_option k) as) (get_raw counts k)) \<and>
    snd (fold count_choice as (counts, ab)) = ab + how_many (\<lambda>a. a_choice a = None) as \<and>
    ks_ordered (fst (fold count_choice as (counts, ab)))"
  using assms
proof (induction as arbitrary: counts ab)
  case (Cons a as)
  show ?case
  proof (cases "a_choice a")
    case None
    then show ?thesis using Cons.IH [of counts "ab + 1"] Cons.prems by (simp add: count_choice_def chose_option_def)
  next
    case (Some c)
    let ?counts = "fold count_one c counts"
    have c: "distinct c" "set c \<subseteq> keys_of counts" using Cons.prems(1) Some by auto
    note get = fold_count_one [OF c(1), of counts]
    have "k \<in> keys_of ?counts \<longleftrightarrow> k \<in> keys_of counts" for k
      using c get [of k] get_raw_None_iff [of ?counts k] get_raw_None_iff [of counts k] by (auto split: if_splits)
    then have keys: "keys_of ?counts = keys_of counts" by blast
    have "map_option (\<lambda>n. n + how_many (chose_option k) as) (get_raw ?counts k) =
        map_option (\<lambda>n. n + how_many (chose_option k) (a # as)) (get_raw counts k)" for k
      using c get [of k] Some get_raw_None_iff [of counts k] by (auto simp: chose_option_def)
    then show ?thesis using Cons.IH [of ?counts ab] Cons.prems Some keys fold_count_one_ordered by (simp add: count_choice_def)
  qed
qed (auto simp: option.map_ident)

definition placed :: "nat \<Rightarrow> string list \<Rightarrow> string \<Rightarrow> nat \<Rightarrow> bool" where
  "placed pos r k j \<longleftrightarrow> pos \<le> j \<and> j - pos < length r \<and> r ! (j - pos) = k"

lemma placed_simps: "\<not> placed pos [] k j" "placed pos (x # r) k j \<longleftrightarrow> j = pos \<and> x = k \<or> placed (Suc pos) r k j"
proof -
  show "\<not> placed pos [] k j" by (simp add: placed_def)
  show "placed pos (x # r) k j \<longleftrightarrow> j = pos \<and> x = k \<or> placed (Suc pos) r k j"
  proof (cases "pos < j")
    case True
    then obtain n where "j = Suc (pos + n)" by (metis less_imp_Suc_add)
    then show ?thesis by (auto simp: placed_def)
  qed (auto simp: placed_def)
qed

lemma not_placed: "k \<notin> set r \<Longrightarrow> \<not> placed pos r k j" "j < pos \<Longrightarrow> \<not> placed pos r k j"
  by (auto simp: placed_def)

abbreviation bumped :: "nat \<Rightarrow> string list \<Rightarrow> string \<Rightarrow> u64 list \<Rightarrow> u64 list" where
  "bumped pos r k p \<equiv> map (\<lambda>j. p ! j + of_bool (placed pos r k j)) [0..<length p]"

lemma count_positions_Some:
  assumes "distinct r" "\<forall>k\<in>set r. \<exists>p. get_raw ps k = Some p \<and> length p = L" "pos + length r \<le> L" "ks_ordered ps"
  shows "\<exists>ps'. count_positions pos r ps = Some ps' \<and> ks_ordered ps' \<and>
    (\<forall>k. get_raw ps' k = map_option (bumped pos r k) (get_raw ps k))"
  using assms
proof (induction r arbitrary: pos ps)
  case Nil
  then show ?case by (simp add: placed_simps map_nth option.map_ident)
next
  case (Cons x r)
  obtain p where p: "get_raw ps x = Some p" "length p = L" using Cons.prems(2) by auto
  let ?ps = "insert_raw x (p[pos := p ! pos + 1]) ps"
  have "\<exists>ps'. count_positions (Suc pos) r ?ps = Some ps' \<and> ks_ordered ps' \<and>
      (\<forall>k. get_raw ps' k = map_option (bumped (Suc pos) r k) (get_raw ?ps k))"
    by (rule Cons.IH) (use Cons.prems p in \<open>auto simp: ordered_insert\<close>)
  then obtain ps' where ps': "count_positions (Suc pos) r ?ps = Some ps'" "ks_ordered ps'"
    "\<And>k. get_raw ps' k = map_option (bumped (Suc pos) r k) (get_raw ?ps k)" by blast
  have "get_raw ps' k = map_option (bumped pos (x # r) k) (get_raw ps k)" for k
  proof (cases "k = x")
    case True
    have "bumped (Suc pos) r x (p[pos := p ! pos + 1]) = bumped pos (x # r) x p"
      using Cons.prems(1) not_placed by (auto simp: placed_simps nth_list_update)
    then show ?thesis using True p(1) ps'(3) by simp
  next
    case False
    then show ?thesis using ps'(3) [of k] by (simp add: placed_simps)
  qed
  then show ?case using ps' p Cons.prems(3) by auto
qed

lemma ranked_at_simps: "a_ranking a = None \<Longrightarrow> \<not> ranked_at j k a" "a_ranking a = Some r \<Longrightarrow> ranked_at j k a \<longleftrightarrow> placed 0 r k j"
  by (auto simp: ranked_at_def placed_def)

lemma count_rankings_Some:
  assumes "\<forall>a\<in>set as. \<forall>r. a_ranking a = Some r \<longrightarrow> distinct r \<and> (\<forall>k\<in>set r. \<exists>p. get_raw ps k = Some p \<and> length p = L) \<and> length r \<le> L"
    "ks_ordered ps"
  shows "\<exists>ps'. count_rankings as (ps, ab) = Some (ps', ab + how_many (\<lambda>a. a_ranking a = None) as) \<and> ks_ordered ps' \<and>
    (\<forall>k. get_raw ps' k = map_option (\<lambda>p. map (\<lambda>j. p ! j + how_many (ranked_at j k) as) [0..<length p]) (get_raw ps k))"
  using assms
proof (induction as arbitrary: ps ab)
  case Nil
  then show ?case by (simp add: map_nth option.map_ident)
next
  case (Cons a as)
  show ?case
  proof (cases "a_ranking a")
    case None
    have "\<exists>ps'. count_rankings as (ps, ab + 1) = Some (ps', ab + 1 + how_many (\<lambda>a. a_ranking a = None) as) \<and> ks_ordered ps' \<and>
        (\<forall>k. get_raw ps' k = map_option (\<lambda>p. map (\<lambda>j. p ! j + how_many (ranked_at j k) as) [0..<length p]) (get_raw ps k))"
      by (rule Cons.IH) (use Cons.prems in auto)
    then show ?thesis using None by (simp add: ranked_at_simps add.assoc)
  next
    case (Some r)
    then obtain ps1 where ps1: "count_positions 0 r ps = Some ps1" "ks_ordered ps1"
      "\<And>k. get_raw ps1 k = map_option (bumped 0 r k) (get_raw ps k)"
      using count_positions_Some [of r ps L 0] Cons.prems by auto
    have "\<exists>ps'. count_rankings as (ps1, ab) = Some (ps', ab + how_many (\<lambda>a. a_ranking a = None) as) \<and> ks_ordered ps' \<and>
        (\<forall>k. get_raw ps' k = map_option (\<lambda>p. map (\<lambda>j. p ! j + how_many (ranked_at j k) as) [0..<length p]) (get_raw ps1 k))"
      by (rule Cons.IH) (use Cons.prems ps1 in fastforce)+
    moreover have "map_option (\<lambda>p. map (\<lambda>j. p ! j + how_many (ranked_at j k) as) [0..<length p]) (get_raw ps1 k) =
        map_option (\<lambda>p. map (\<lambda>j. p ! j + how_many (ranked_at j k) (a # as)) [0..<length p]) (get_raw ps k)" for k
      using Some by (cases "get_raw ps k") (auto simp: ps1(3) ranked_at_simps)
    ultimately show ?thesis using Some ps1(1) by simp
  qed
qed

text \<open>Sums stay exact while they fit.\<close>

lemma sat_add_i64_exact: "\<bar>a + b\<bar> < 2 ^ 63 \<Longrightarrow> sat_add_i64 a b = a + b"
  by (simp add: sat_add_i64_def i64_min_def i64_max_def)

lemma fold_count_score:
  assumes "distinct (map fst kvs)" "\<forall>(k, v) \<in> set kvs. \<exists>e. get_raw sums k = Some e \<and> \<bar>fst e + v\<bar> < 2 ^ 63" "ks_ordered sums"
  shows "(\<forall>k. get_raw (fold count_score kvs sums) k =
      (case map_of kvs k of None \<Rightarrow> get_raw sums k | Some v \<Rightarrow> map_option (\<lambda>e. (fst e + v, snd e + 1)) (get_raw sums k))) \<and>
    ks_ordered (fold count_score kvs sums)"
  using assms
proof (induction kvs arbitrary: sums)
  case (Cons kv kvs)
  obtain x v where kv: "kv = (x, v)" by (cases kv)
  obtain e where e: "get_raw sums x = Some e" "\<bar>fst e + v\<bar> < 2 ^ 63" using Cons.prems(2) kv by auto
  let ?sums = "insert_raw x (fst e + v, snd e + 1) sums"
  have step: "count_score kv sums = ?sums" using e by (simp add: kv count_score_def sat_add_i64_exact)
  have x: "x \<notin> fst ` set kvs" using Cons.prems(1) kv by simp
  have "(\<forall>k. get_raw (fold count_score kvs ?sums) k =
      (case map_of kvs k of None \<Rightarrow> get_raw ?sums k | Some v \<Rightarrow> map_option (\<lambda>e. (fst e + v, snd e + 1)) (get_raw ?sums k))) \<and>
    ks_ordered (fold count_score kvs ?sums)"
    by (rule Cons.IH) (use Cons.prems kv x in \<open>force simp: ordered_insert\<close>)+
  moreover have "fold count_score (kv # kvs) sums = fold count_score kvs ?sums" by (simp add: step)
  moreover have "map_of kvs x = None" using x by (simp add: map_of_eq_None_iff)
  ultimately show ?case using e(1) unfolding kv by (simp split: option.split)
qed (simp add: option.case_eq_if)

definition scores_wf :: "int \<Rightarrow> string set \<Rightarrow> answer \<Rightarrow> bool" where
  "scores_wf M opts a \<longleftrightarrow> a_scores a = [] \<or> (distinct (map fst (a_scores a)) \<and> keys_of (a_scores a) = opts \<and> (\<forall>v\<in>snd ` set (a_scores a). \<bar>v\<bar> \<le> M))"

lemma fold_count_scores:
  assumes "\<forall>a\<in>set as. scores_wf M (keys_of sums) a" "ks_ordered sums" "0 \<le> M"
    "\<forall>k e. get_raw sums k = Some e \<longrightarrow> \<bar>fst e\<bar> + int (length as) * M < 2 ^ 63"
  shows "(\<forall>k. get_raw (fst (fold count_scores as (sums, ab))) k =
      map_option (\<lambda>e. (fst e + sum_list (map (score_of k) as), snd e + how_many (\<lambda>a. a_scores a \<noteq> []) as)) (get_raw sums k)) \<and>
    snd (fold count_scores as (sums, ab)) = ab + how_many (\<lambda>a. a_scores a = []) as \<and>
    ks_ordered (fst (fold count_scores as (sums, ab)))"
  using assms
proof (induction as arbitrary: sums ab)
  case (Cons a as)
  show ?case
  proof (cases "a_scores a = []")
    case True
    have b: "\<forall>k e. get_raw sums k = Some e \<longrightarrow> \<bar>fst e\<bar> + int (length as) * M < 2 ^ 63"
      using Cons.prems(3,4) by (fastforce simp: algebra_simps)
    have "count_scores a (sums, ab) = (sums, ab + 1)" "score_of k a = 0" for k
      using True by (simp_all add: count_scores_def score_of_def get_raw_def)
    moreover have "\<forall>a\<in>set as. scores_wf M (keys_of sums) a" using Cons.prems(1) by simp
    note IH = Cons.IH [OF this Cons.prems(2,3) b, of "ab + 1"]
    ultimately show ?thesis using IH True by (simp add: add.assoc)
  next
    case False
    let ?sums = "fold count_score (a_scores a) sums"
    have w: "distinct (map fst (a_scores a))" "keys_of (a_scores a) = keys_of sums" "\<And>k v. get_raw (a_scores a) k = Some v \<Longrightarrow> \<bar>v\<bar> \<le> M"
      using Cons.prems(1) False by (force simp: scores_wf_def get_raw_def dest: map_of_SomeD)+
    have sc: "\<bar>score_of k a\<bar> \<le> M" for k using w(3) Cons.prems(3) by (auto simp: score_of_def split: option.splits)
    have bound: "\<bar>fst e\<bar> + M + int (length as) * M < 2 ^ 63" if "get_raw sums k = Some e" for k e
      using Cons.prems(4) that by (fastforce simp: algebra_simps)
    have pos: "0 \<le> int (length as) * M" using Cons.prems(3) by simp
    have "\<exists>e. get_raw sums k = Some e \<and> \<bar>fst e + v\<bar> < 2 ^ 63" if "(k, v) \<in> set (a_scores a)" for k v
    proof -
      have kv: "get_raw (a_scores a) k = Some v" using that w(1) by (simp add: get_raw_def)
      then obtain e where e: "get_raw sums k = Some e"
        using w(2) get_raw_None_iff [of "a_scores a" k] get_raw_None_iff [of sums k] by auto
      then show ?thesis using bound [OF e] w(3) [OF kv] pos by (intro exI [of _ e]) linarith
    qed
    then have f: "(\<forall>k. get_raw ?sums k = (case map_of (a_scores a) k of None \<Rightarrow> get_raw sums k
        | Some v \<Rightarrow> map_option (\<lambda>e. (fst e + v, snd e + 1)) (get_raw sums k))) \<and> ks_ordered ?sums"
      using Cons.prems(2) w(1) by (intro fold_count_score) auto
    have get: "get_raw ?sums k = map_option (\<lambda>e. (fst e + score_of k a, snd e + 1)) (get_raw sums k)" for k
      using f w(2) get_raw_None_iff [of "a_scores a" k] get_raw_None_iff [of sums k]
      by (cases "get_raw (a_scores a) k") (auto simp: score_of_def get_raw_def)
    have "k \<in> keys_of ?sums \<longleftrightarrow> k \<in> keys_of sums" for k
      using get [of k] get_raw_None_iff [of ?sums k] get_raw_None_iff [of sums k] by auto
    then have keys: "keys_of ?sums = keys_of sums" by blast
    have b: "\<forall>k e. get_raw ?sums k = Some e \<longrightarrow> \<bar>fst e\<bar> + int (length as) * M < 2 ^ 63"
    proof (intro allI impI)
      fix k e assume "get_raw ?sums k = Some e"
      then obtain e' where "get_raw sums k = Some e'" "fst e = fst e' + score_of k a" using get [of k] by auto
      then show "\<bar>fst e\<bar> + int (length as) * M < 2 ^ 63" using bound [of k e'] sc [of k] by linarith
    qed
    have "count_scores a (sums, ab) = (?sums, ab)" using False by (simp add: count_scores_def)
    moreover have "\<forall>a\<in>set as. scores_wf M (keys_of ?sums) a" using Cons.prems(1) keys by simp
    note IH = Cons.IH [OF this conjunct2 [OF f] Cons.prems(3) b, of ab]
    ultimately show ?thesis using IH get False by (simp add: option.map_comp comp_def add.assoc)
  qed
qed (simp add: option.map_ident)

lemma fold_count_text:
  "fold count_text as (texts, ab) = (texts @ List.map_filter a_text as, ab + how_many (\<lambda>a. a_text a = None) as)"
  by (induction as arbitrary: texts ab) (auto simp: count_text_def map_filter_simps split: option.splits)

text \<open>The row of a question, from the answers to it.\<close>

definition row_of :: "bool \<Rightarrow> question \<Rightarrow> answer list \<Rightarrow> question_result" where
  "row_of release_text q as =
     \<lparr>qr_question = q_key q,
      qr_totals =
        (case q of
           Choice _ _ opts _ _ \<Rightarrow> TChoice (table (\<lambda>k. how_many (chose_option k) as) opts)
         | Ranking _ _ opts _ \<Rightarrow> TRanking (table (\<lambda>k. map (\<lambda>j. how_many (ranked_at j k) as) [0..<length opts]) opts)
         | Score _ _ opts _ _ \<Rightarrow>
             TScore (table (\<lambda>k. (sum_list (map (score_of k) as), how_many (\<lambda>a. \<not> abstains a) as)) opts)
         | _ \<Rightarrow> if release_text then TText (List.map_filter a_text as) else TWithheld),
      qr_abstained = how_many abstains as\<rparr>"

text \<open>The scores of a question sum within 64 bits: no saturation.\<close>

definition sums_fit :: "nat \<Rightarrow> question \<Rightarrow> bool" where
  "sums_fit n q \<longleftrightarrow> (case q of Score _ _ _ mn mx \<Rightarrow> int n * max \<bar>mn\<bar> \<bar>mx\<bar> < 2 ^ 63 | _ \<Rightarrow> True)"

lemma how_many_cong: "(\<And>a. a \<in> set as \<Longrightarrow> P a = Q a) \<Longrightarrow> how_many P as = how_many Q as"
  by (metis filter_cong)

lemma keys_all_of: "keys_of (all_of v opts) = set opts"
proof -
  have "k \<in> keys_of (all_of v opts) \<longleftrightarrow> k \<in> set opts" for k
    using get_raw_None_iff [of "all_of v opts" k] by (simp add: get_all_of split: if_splits)
  then show ?thesis by blast
qed

lemma tally_question_exact:
  assumes "\<forall>a\<in>set as. admits q a \<and> distinct (map fst (a_scores a))" "distinct (option_keys q)" "sums_fit (length as) q" "q \<noteq> Unserved"
  shows "tally_question release_text q (q_key q) as = Some (Ok (row_of release_text q as))"
proof (cases q)
  case (Choice k opt opts mn mx)
  let ?r = "fold count_choice as (all_of 0 opts, 0)"
  have "\<forall>a\<in>set as. \<forall>c. a_choice a = Some c \<longrightarrow> distinct c \<and> set c \<subseteq> keys_of (all_of (0 :: u64) opts)"
    using assms(1) Choice by (fastforce simp: keys_all_of abstains_def)
  note F = fold_count_choice [OF this ordered_all_of, of 0]
  have "fst ?r = table (\<lambda>k. how_many (chose_option k) as) opts"
    using F assms(2) Choice by (intro ordered_ext) (auto simp: get_all_of get_table ordered_table option_keys_def)
  moreover have "how_many (\<lambda>a. a_choice a = None) as = how_many abstains as"
    using assms(1) Choice by (intro how_many_cong) (auto simp: abstains_def)
  ultimately show ?thesis using F Choice by (simp add: tally_question_def option_keys_def row_of_def case_prod_unfold Let_def)
next
  case (Ranking k opt opts partial)
  let ?L = "length opts" let ?z = "all_of (replicate ?L (0 :: u64)) opts"
  have r: "distinct r \<and> (\<forall>k\<in>set r. \<exists>p. get_raw ?z k = Some p \<and> length p = ?L) \<and> length r \<le> ?L"
    if "a \<in> set as" "a_ranking a = Some r" for a r
  proof -
    have "distinct r" "set r \<subseteq> set opts" using assms(1) Ranking that by (fastforce simp: abstains_def)+
    then show ?thesis using card_mono [of "set opts" "set r"] card_length [of opts] by (auto simp: get_all_of distinct_card)
  qed
  then have "\<exists>ps'. count_rankings as (?z, 0) = Some (ps', 0 + how_many (\<lambda>a. a_ranking a = None) as) \<and> ks_ordered ps' \<and>
      (\<forall>k. get_raw ps' k = map_option (\<lambda>p. map (\<lambda>j. p ! j + how_many (ranked_at j k) as) [0..<length p]) (get_raw ?z k))"
    by (intro count_rankings_Some [where L = ?L]) (auto simp: ordered_all_of)
  then obtain ps where ps: "count_rankings as (?z, 0) = Some (ps, how_many (\<lambda>a. a_ranking a = None) as)" "ks_ordered ps"
    "\<And>k. get_raw ps k = map_option (\<lambda>p. map (\<lambda>j. p ! j + how_many (ranked_at j k) as) [0..<length p]) (get_raw ?z k)" by auto
  have "ps = table (\<lambda>k. map (\<lambda>j. how_many (ranked_at j k) as) [0..<?L]) opts"
    using ps(2,3) assms(2) Ranking by (intro ordered_ext) (auto simp: get_all_of get_table ordered_table option_keys_def)
  moreover have "how_many (\<lambda>a. a_ranking a = None) as = how_many abstains as"
    using assms(1) Ranking by (intro how_many_cong) (auto simp: abstains_def)
  ultimately show ?thesis using ps(1) Ranking by (simp add: tally_question_def option_keys_def row_of_def Let_def)
next
  case (Score k opt opts mn mx)
  let ?r = "fold count_scores as (all_of (0, 0) opts, 0)" let ?M = "max \<bar>mn\<bar> \<bar>mx\<bar>"
  have w: "\<forall>a\<in>set as. scores_wf ?M (keys_of (all_of (0 :: int, 0 :: u64) opts)) a"
    using assms(1) Score by (fastforce simp: scores_wf_def keys_all_of abstains_def)
  have "\<forall>k e. get_raw (all_of (0 :: int, 0 :: u64) opts) k = Some e \<longrightarrow> \<bar>fst e\<bar> + int (length as) * ?M < 2 ^ 63"
    using assms(3) Score by (auto simp: get_all_of sums_fit_def split: if_splits)
  note F = fold_count_scores [OF w ordered_all_of _ this, of 0]
  have nz: "how_many (\<lambda>a. a_scores a \<noteq> []) as = how_many (\<lambda>a. \<not> abstains a) as" "how_many (\<lambda>a. a_scores a = []) as = how_many abstains as"
    using assms(1) Score by (auto simp: abstains_def intro!: how_many_cong)
  have "fst ?r = table (\<lambda>k. (sum_list (map (score_of k) as), how_many (\<lambda>a. \<not> abstains a) as)) opts"
    using F assms(2) Score nz(1) by (intro ordered_ext) (auto simp: get_all_of get_table ordered_table option_keys_def)
  then show ?thesis using F Score nz(2) by (simp add: tally_question_def option_keys_def row_of_def case_prod_unfold Let_def)
next
  case (Text k opt mx)
  have "how_many (\<lambda>a. a_text a = None) as = how_many abstains as"
    using assms(1) Text by (intro how_many_cong) (auto simp: abstains_def)
  then show ?thesis using Text by (simp add: tally_question_def row_of_def fold_count_text Let_def)
qed (use assms in simp)

section \<open>The count of checked ballots\<close>

text \<open>The answer a ballot gives to a question.\<close>

definition answer_to :: "question \<Rightarrow> ballot \<Rightarrow> answer" where
  "answer_to q b = the (find (\<lambda>a. a_question a = q_key q) (b_answers b))"

text \<open>The scores of an answer are a map: no option twice.\<close>

definition scores_distinct :: "ballot \<Rightarrow> bool" where
  "scores_distinct b \<longleftrightarrow> (\<forall>a\<in>set (b_answers b). distinct (map fst (a_scores a)))"

definition checked_ballots :: "(string \<Rightarrow> bytes option) \<Rightarrow> manifest \<Rightarrow> bytes \<Rightarrow> ballot list \<Rightarrow> bool" where
  "checked_ballots mb_decode m digest bs \<longleftrightarrow> (\<exists>bb. check_manifest m bb = Ok ()) \<and> (\<forall>q\<in>set (m_questions m). offers q) \<and>
     (\<forall>b\<in>set bs. check_ballot mb_decode m digest b = Ok () \<and> scores_distinct b)"

lemma checked_answer:
  assumes "checked_ballots mb_decode m digest bs" "b \<in> set bs" "q \<in> set (m_questions m)"
  shows "find (\<lambda>a. a_question a = q_key q) (b_answers b) = Some (answer_to q b)"
    "admits q (answer_to q b) \<and> distinct (map fst (a_scores (answer_to q b)))"
proof -
  obtain bb where m: "check_manifest m bb = Ok ()" "\<forall>q\<in>set (m_questions m). offers q"
    and b: "check_ballot mb_decode m digest b = Ok ()" "scores_distinct b"
    using assms by (auto simp: checked_ballots_def)
  note B = check_ballot_props [OF m b(1)]
  obtain a where a: "find (\<lambda>a. a_question a = q_key q) (b_answers b) = Some a"
    using B(1) assms(3) by (cases "find (\<lambda>a. a_question a = q_key q) (b_answers b)") (force simp: find_None_iff)+
  then have "a \<in> set (b_answers b)" "a_question a = q_key q" by (auto simp: find_Some_iff)
  then show "find (\<lambda>a. a_question a = q_key q) (b_answers b) = Some (answer_to q b)"
    "admits q (answer_to q b) \<and> distinct (map fst (a_scores (answer_to q b)))"
    using a B(2) assms(3) b(2) by (auto simp: answer_to_def scores_distinct_def)
qed

lemma tally_loop_exact:
  assumes "checked_ballots mb_decode m digest bs" "set qs \<subseteq> set (m_questions m)" "\<forall>q\<in>set qs. sums_fit (length bs) q"
  shows "tally_loop release_text bs qs = Some (Ok (map (\<lambda>q. row_of release_text q (map (answer_to q) bs)) qs))"
  using assms(2,3)
proof (induction qs)
  case (Cons q qs)
  have q: "q \<in> set (m_questions m)" using Cons.prems by simp
  have asks: "asks m" using assms(1) check_manifest_asks by (auto simp: checked_ballots_def)
  then have u: "q \<noteq> Unserved" "distinct (option_keys q)" using q by (auto simp: asks_def)
  have "List.map_filter (\<lambda>b. find (\<lambda>a. a_question a = q_key q) (b_answers b)) bs = map (answer_to q) bs"
    using checked_answer(1) [OF assms(1) _ q] by (simp add: map_filter_def filter_id_conv cong: map_cong)
  moreover have "tally_question release_text q (q_key q) (map (answer_to q) bs) = Some (Ok (row_of release_text q (map (answer_to q) bs)))"
    using checked_answer(2) [OF assms(1) _ q] u Cons.prems(2) by (intro tally_question_exact) auto
  moreover have "key q = Some (q_key q)" using u(1) by (simp add: key_Some)
  ultimately show ?case using Cons by simp
qed simp

lemma tally_checked:
  assumes "checked_ballots mb_decode m digest bs" "\<forall>q\<in>set (m_questions m). sums_fit (length bs) q"
  shows "tally m bs provisional = Some (Ok (word_of_nat (length bs),
    map (\<lambda>q. row_of (\<not> provisional \<and> m_text_release_threshold m \<le> word_of_nat (length bs)) q (map (answer_to q) bs)) (m_questions m)))"
  using tally_loop_exact [OF assms(1) subset_refl assms(2)] by (simp add: tally_def Let_def)

text \<open>Rows that agree but for the order of released texts.\<close>

definition same_row :: "question_result \<Rightarrow> question_result \<Rightarrow> bool" where
  "same_row r s \<longleftrightarrow> qr_question r = qr_question s \<and> qr_abstained r = qr_abstained s \<and>
     (case (qr_totals r, qr_totals s) of (TText xs, TText ys) \<Rightarrow> mset xs = mset ys | (x, y) \<Rightarrow> x = y)"

lemma row_of_perm:
  assumes "mset as = mset bs"
  shows "same_row (row_of release_text q as) (row_of release_text q bs)"
proof -
  have count: "how_many P as = how_many P bs" for P by (metis assms mset_filter size_mset)
  have "sum_list (map f as) = sum_list (map f bs)" for f :: "answer \<Rightarrow> int"
    by (metis assms mset_map sum_mset_sum_list)
  moreover have "mset (List.map_filter a_text as) = mset (List.map_filter a_text bs)"
    by (simp add: map_filter_def assms)
  ultimately show ?thesis by (cases q) (simp_all add: same_row_def row_of_def count)
qed

text \<open>C23: Counting is exact. On ballots that were checked the count never panics, and it gives for every question of
  the manifest, in its order: for each option of a choice the number of ballots that chose it, for each option and
  place of a ranking the number that put it there, for each option of a score the sum and the number of its scores,
  and the number of abstentions. The proviso is on the scores: for every score question the number of ballots times
  the larger absolute value of its two bounds stays below 2 to the 63, so that no sum
  saturates. Texts are released exactly for a final count of at least the threshold. The order of the ballots changes nothing but the order of released texts.\<close>

theorem tally_exact:
  assumes "checked_ballots mb_decode m digest bs" "\<forall>q\<in>set (m_questions m). sums_fit (length bs) q"
  shows "tally m bs provisional = Some (Ok (word_of_nat (length bs),
      map (\<lambda>q. row_of (\<not> provisional \<and> m_text_release_threshold m \<le> word_of_nat (length bs)) q (map (answer_to q) bs)) (m_questions m))) \<and>
    (\<forall>bs'. mset bs' = mset bs \<longrightarrow> (\<exists>rows rows'. tally m bs provisional = Some (Ok (word_of_nat (length bs), rows)) \<and>
      tally m bs' provisional = Some (Ok (word_of_nat (length bs), rows')) \<and> list_all2 same_row rows rows'))"
proof (intro conjI allI impI)
  note T = tally_checked [OF assms, of provisional]
  show "tally m bs provisional = Some (Ok (word_of_nat (length bs),
      map (\<lambda>q. row_of (\<not> provisional \<and> m_text_release_threshold m \<le> word_of_nat (length bs)) q (map (answer_to q) bs)) (m_questions m)))"
    by (rule T)
  fix bs' assume p: "mset bs' = mset bs"
  then have len: "length bs' = length bs" and "set bs' = set bs" using mset_eq_length mset_eq_setD by blast+
  then have "checked_ballots mb_decode m digest bs'" using assms(1) by (simp add: checked_ballots_def)
  note T' = tally_checked [OF this, of provisional, unfolded len, OF assms(2)]
  have "list_all2 same_row (map (\<lambda>q. row_of rel q (map (answer_to q) bs)) qs) (map (\<lambda>q. row_of rel q (map (answer_to q) bs')) qs)" for rel qs
    using p by (auto simp: list_all2_conv_all_nth intro!: row_of_perm)
  then show "\<exists>rows rows'. tally m bs provisional = Some (Ok (word_of_nat (length bs), rows)) \<and>
      tally m bs' provisional = Some (Ok (word_of_nat (length bs), rows')) \<and> list_all2 same_row rows rows'"
    using T T' by blast
qed

lemma example_checked: "checked_ballots example_mb example_manifest (replicate 32 0) [example_ballot ''a'', example_ballot ''b'']"
proof -
  have "check_ballot example_mb example_manifest (replicate 32 0) (example_ballot [c]) = Ok ()" for c
    unfolding check_ballot_iff [OF example_manifest_checked]
    by (auto simp: example_digest example_ballot_def example_answer_def example_manifest_def chars_count_def)
  moreover have "scores_distinct (example_ballot w)" for w
    by (simp add: scores_distinct_def example_ballot_def example_answer_def)
  ultimately show ?thesis using example_manifest_checked by (auto simp: checked_ballots_def)
qed

theorem tally_exact_witness:
  "\<exists>rows. tally example_manifest [example_ballot ''a'', example_ballot ''b''] False = Some (Ok (2, rows)) \<and>
     qr_totals (rows ! 0) = TChoice [(''n'', 0), (''y'', 2)] \<and> qr_totals (rows ! 1) = TText [''a'', ''b'']"
proof -
  have "\<forall>q\<in>set (m_questions example_manifest). sums_fit (length [example_ballot ''a'', example_ballot ''b'']) q"
    by (simp add: example_manifest_def sums_fit_def)
  note T = tally_exact [OF example_checked this, of False, THEN conjunct1]
  have y: "sort [''y'', ''n''] = [''n'', ''y'']" by (simp add: sort_key_def)
  show ?thesis unfolding T
    by (simp add: example_manifest_def row_of_def table_def y answer_to_def example_ballot_def example_answer_def
        chose_option_def map_filter_simps)
qed

end
