(* ===== verification/Journal_Log.thy ===== *)
theory Journal_Log
  imports Election Session
begin

text \<open>
  The ballot box's file journal (\<open>vti-voting-service/src/journal.rs\<close>): one directory per election, with the
  registration, the board entries and the receipt tokens, the last two as records behind a length prefix that are
  appended to a file and read back at start, a torn last record cut off.  A file is its bytes; what the operating
  system does with a write is an argument.  Whatever a crash interrupts, the journal read back holds all that was
  answered, as long as no write to the file failed part way while the service went on: such a write leaves its torn
  bytes in the file, and a record appended after them can be lost although it was answered.
\<close>

section \<open>Files and records\<close>

text \<open>\<open>from_be_bytes\<close> of an unsigned integer.\<close>

definition be_nat :: "bytes \<Rightarrow> nat" where
  "be_nat bs = fold (\<lambda>b acc. acc * 256 + unat b) bs 0"

text \<open>What becomes of a write: all of it is on disk; nothing was opened; an error after some bytes were written;
  an error of \<open>sync_data\<close> after all were.\<close>

datatype write_fate = Written | Unopened | Torn nat | Unsynced

text \<open>The directory of one election.\<close>

record election_files =
  f_election :: "bytes option"
  f_entries :: "bytes option"
  f_receipts :: "bytes option"

type_synonym file_journal = "(string, election_files) keyspace"

definition no_files :: election_files where
  "no_files = \<lparr>f_election = None, f_entries = None, f_receipts = None\<rparr>"

definition dir_name :: "(bytes \<Rightarrow> bytes) \<Rightarrow> string \<Rightarrow> string \<Rightarrow> string" where
  "dir_name sha community election_id =
     hex_lower (sha (frame (frame [] (as_bytes community)) (as_bytes election_id)))"

definition files_of :: "string \<Rightarrow> file_journal \<Rightarrow> election_files" where
  "files_of dir J = (case get_raw J dir of None \<Rightarrow> no_files | Some fs \<Rightarrow> fs)"

definition file_bytes :: "bytes option \<Rightarrow> bytes" where
  "file_bytes file = (case file of None \<Rightarrow> [] | Some bs \<Rightarrow> bs)"

definition append_record :: "write_fate \<Rightarrow> bytes \<Rightarrow> bytes option \<Rightarrow> (string, unit) result \<times> bytes option" where
  "append_record fate rec file =
     (case fate of
        Written \<Rightarrow> (Ok (), Some (file_bytes file @ rec))
      | Unopened \<Rightarrow> (Err ''open'', file)
      | Torn n \<Rightarrow> (Err ''write'', Some (file_bytes file @ take n rec))
      | Unsynced \<Rightarrow> (Err ''sync'', Some (file_bytes file @ rec)))"

definition entry_record :: "bytes \<Rightarrow> bytes" where
  "entry_record bytes = be_bytes (word_of_nat (length bytes) :: u32) @ bytes"

definition receipt_record :: "u64 \<Rightarrow> string \<Rightarrow> bytes" where
  "receipt_record leaf token = be_bytes leaf @ be_bytes (word_of_nat (length token) :: u32) @ as_bytes token"

section \<open>The operations\<close>

text \<open>The registration is written to a temporary file and renamed into place once it is on disk.  The code does not
  sync the directory after the rename or after creating a file; both are taken to last once they reported success.\<close>

definition journal_election ::
    "(bytes \<Rightarrow> bytes) \<Rightarrow> write_fate \<Rightarrow> string \<Rightarrow> string \<Rightarrow> bytes \<Rightarrow> file_journal \<Rightarrow>
     (string, unit) result \<times> file_journal" where
  "journal_election sha fate community election_id bytes J =
     (let dir = dir_name sha community election_id; fs = files_of dir J
      in case fate of
        Written \<Rightarrow> (Ok (), insert_raw dir (fs\<lparr>f_election := Some bytes\<rparr>) J)
      | _ \<Rightarrow> (Err ''election'', insert_raw dir fs J))"

definition journal_entry ::
    "(bytes \<Rightarrow> bytes) \<Rightarrow> write_fate \<Rightarrow> string \<Rightarrow> string \<Rightarrow> bytes \<Rightarrow> file_journal \<Rightarrow>
     (string, unit) result \<times> file_journal" where
  "journal_entry sha fate community election_id bytes J =
     (let dir = dir_name sha community election_id; fs = files_of dir J
      in if length bytes \<ge> 2 ^ 32 then (Err ''entry too large'', insert_raw dir fs J)
         else let (r, file) = append_record fate (entry_record bytes) (f_entries fs)
              in (r, insert_raw dir (fs\<lparr>f_entries := file\<rparr>) J))"

definition journal_receipt ::
    "(bytes \<Rightarrow> bytes) \<Rightarrow> write_fate \<Rightarrow> string \<Rightarrow> string \<Rightarrow> u64 \<Rightarrow> string \<Rightarrow> file_journal \<Rightarrow>
     (string, unit) result \<times> file_journal" where
  "journal_receipt sha fate community election_id leaf token J =
     (let dir = dir_name sha community election_id; fs = files_of dir J
      in if length token \<ge> 2 ^ 32 then (Err ''token too large'', insert_raw dir fs J)
         else let (r, file) = append_record fate (receipt_record leaf token) (f_receipts fs)
              in (r, insert_raw dir (fs\<lparr>f_receipts := file\<rparr>) J))"

section \<open>Reading back\<close>

text \<open>The loops answer with the records and the bytes after the last whole one.\<close>

function read_entries_loop :: "bytes \<Rightarrow> bytes list \<times> bytes" where
  "read_entries_loop bs =
     (if length bs < 4 then ([], bs)
      else let len = be_nat (take 4 bs)
           in if 4 + len > length bs then ([], bs)
              else let (out, rest) = read_entries_loop (drop (4 + len) bs) in (take len (drop 4 bs) # out, rest))"
  by pat_completeness auto
termination
  by (relation "measure length") auto

declare read_entries_loop.simps [simp del]

definition read_entries :: "bytes option \<Rightarrow> bytes list \<times> bytes option" where
  "read_entries file =
     (case file of
        None \<Rightarrow> ([], None)
      | Some bs \<Rightarrow> let (out, rest) = read_entries_loop bs in (out, Some (take (length bs - length rest) bs)))"

text \<open>A token is written from a string, so its bytes are those of one.\<close>

function read_receipts_loop :: "bytes \<Rightarrow> (u64, string) keyspace \<Rightarrow> (u64, string) keyspace \<times> bytes" where
  "read_receipts_loop bs out =
     (if length bs < 12 then (out, bs)
      else let leaf = word_of_nat (be_nat (take 8 bs)); len = be_nat (take 4 (drop 8 bs))
           in if 12 + len > length bs then (out, bs)
              else read_receipts_loop (drop (12 + len) bs)
                     (insert_raw leaf (map (\<lambda>b. char_of (unat b)) (take len (drop 12 bs))) out))"
  by pat_completeness auto
termination
  by (relation "measure (length \<circ> fst)") auto

declare read_receipts_loop.simps [simp del]

definition read_receipts :: "bytes option \<Rightarrow> (u64, string) keyspace \<times> bytes option" where
  "read_receipts file =
     (case file of
        None \<Rightarrow> ([], None)
      | Some bs \<Rightarrow> let (out, rest) = read_receipts_loop bs [] in (out, Some (take (length bs - length rest) bs)))"

text \<open>\<open>Restored\<close>: one election as a journal returns it.  \<open>serde_json::from_slice\<close> on the registration is
  \<open>from_slice\<close>; an election of which it cannot read the registration ends the load.\<close>

record 'e restored =
  rs_election :: 'e
  rs_entries :: "bytes list"
  rs_receipts :: "(u64, string) keyspace"

fun load :: "(bytes \<Rightarrow> 'e option) \<Rightarrow> file_journal \<Rightarrow> (string, 'e restored list) result \<times> file_journal" where
  "load from_slice [] = (Ok [], [])"
| "load from_slice ((dir, fs) # J) =
     (case f_election fs of
        None \<Rightarrow> let (r, J') = load from_slice J in (r, (dir, fs) # J')
      | Some bytes \<Rightarrow>
          (case from_slice bytes of
             None \<Rightarrow> (Err ''registration'', (dir, fs) # J)
           | Some election \<Rightarrow>
               let (entries, ef) = read_entries (f_entries fs); (receipts, rf) = read_receipts (f_receipts fs);
                   fs' = fs\<lparr>f_entries := ef, f_receipts := rf\<rparr>; (r, J') = load from_slice J
               in (case r of Err e \<Rightarrow> Err e
                   | Ok out \<Rightarrow> Ok (\<lparr>rs_election = election, rs_entries = entries, rs_receipts = receipts\<rparr> # out),
                   (dir, fs') # J')))"

section \<open>Reading what was written\<close>

lemma be_nat_Cons: "be_nat (b # bs) = unat b * 256 ^ length bs + be_nat bs"
proof -
  have "fold (\<lambda>b acc. acc * 256 + unat b) bs n = n * 256 ^ length bs + fold (\<lambda>b acc. acc * 256 + unat b) bs 0" for n
  proof (induction bs arbitrary: n)
    case (Cons c bs)
    show ?case using Cons [of "n * 256 + unat c"] Cons [of "unat c"] by (simp add: algebra_simps)
  qed simp
  from this [of "unat b"] show ?thesis by (simp add: be_nat_def)
qed

lemma unat_digit: "unat (ucast (drop_bit (8 * k) (w :: 'a::len word)) :: u8) = unat w div 256 ^ k mod 256"
proof -
  have "unat (ucast (drop_bit (8 * k) w) :: u8) = unat (drop_bit (8 * k) w) mod 256"
    by (simp only: unsigned_ucast_eq take_bit_eq_mod) simp
  also have "unat (drop_bit (8 * k) w) = drop_bit (8 * k) (unat w)" by (rule unat_drop_bit_eq)
  also have "\<dots> = unat w div 256 ^ k" by (simp add: drop_bit_eq_div power_mult)
  finally show ?thesis .
qed

lemma be_nat_digits: "be_nat (map (\<lambda>i. ucast (drop_bit (8 * i) w)) (rev [0..<k])) = unat (w :: 'a::len word) mod 256 ^ k"
proof (induction k)
  case (Suc k)
  have "unat w mod 256 ^ Suc k = 256 ^ k * (unat w div 256 ^ k mod 256) + unat w mod 256 ^ k"
    using mod_mult2_eq [of "unat w" "256 ^ k" 256] by (simp add: mult.commute)
  then show ?case using Suc by (simp add: be_nat_Cons unat_digit)
qed (simp add: be_nat_def)

lemma be_nat_be_bytes32 [simp]: "be_nat (be_bytes (w :: u32)) = unat w"
  using be_nat_digits [of w 4] unsigned_less [of w, where ?'a = nat] by (simp add: be_bytes_def)

lemma be_nat_be_bytes64 [simp]: "be_nat (be_bytes (w :: u64)) = unat w"
  using be_nat_digits [of w 8] unsigned_less [of w, where ?'a = nat] by (simp add: be_bytes_def)


definition entry_bytes :: "bytes list \<Rightarrow> bytes" where
  "entry_bytes es = concat (map entry_record es)"

definition receipt_bytes :: "(u64 \<times> string) list \<Rightarrow> bytes" where
  "receipt_bytes rs = concat (map (\<lambda>(leaf, token). receipt_record leaf token) rs)"

text \<open>The beginning of a record that is not whole.\<close>

definition torn_entry :: "bytes \<Rightarrow> bool" where
  "torn_entry bs \<longleftrightarrow> length bs < 4 \<or> length bs < 4 + be_nat (take 4 bs)"

definition torn_receipt :: "bytes \<Rightarrow> bool" where
  "torn_receipt bs \<longleftrightarrow> length bs < 12 \<or> length bs < 12 + be_nat (take 4 (drop 8 bs))"

lemma torn_Nil [simp]: "torn_entry []" "torn_receipt []"
  by (simp_all add: torn_entry_def torn_receipt_def)

lemma unat_length32: "n < 2 ^ 32 \<Longrightarrow> unat (word_of_nat n :: u32) = n"
  by (simp add: unat_of_nat take_bit_nat_eq_self)

lemma torn_entry_record:
  assumes "length b < 2 ^ 32" "n < length (entry_record b)"
  shows "torn_entry (take n (entry_record b))"
  using assms unat_length32 [OF assms(1)] by (auto simp: torn_entry_def entry_record_def take_append min_def)

lemma torn_receipt_record:
  assumes "length t < 2 ^ 32" "n < length (receipt_record leaf t)"
  shows "torn_receipt (take n (receipt_record leaf t))"
  using assms unat_length32 [OF assms(1)]
  by (auto simp: torn_receipt_def receipt_record_def take_append drop_append min_def)

lemma read_entries_loop_prefix:
  assumes "\<forall>b \<in> set es. length b < 2 ^ 32"
  shows "read_entries_loop (entry_bytes es @ t) = (es @ fst (read_entries_loop t), snd (read_entries_loop t))"
  using assms
proof (induction es)
  case (Cons b es)
  then have "read_entries_loop (entry_bytes es @ t) = (es @ fst (read_entries_loop t), snd (read_entries_loop t))"
    "unat (word_of_nat (length b) :: u32) = length b"
    using unat_length32 [of "length b"] by auto
  then show ?case by (subst read_entries_loop.simps) (simp add: entry_bytes_def entry_record_def Let_def)
qed (simp add: entry_bytes_def)

lemma read_entries_loop_torn: "torn_entry t \<Longrightarrow> read_entries_loop t = ([], t)"
  by (subst read_entries_loop.simps) (auto simp: torn_entry_def Let_def)

lemma read_entries_loop_rest: "length (snd (read_entries_loop bs)) \<le> length bs"
proof (induction bs rule: read_entries_loop.induct)
  case (1 bs)
  show ?case
  proof (cases "length bs < 4 \<or> 4 + be_nat (take 4 bs) > length bs")
    case True
    then show ?thesis by (subst read_entries_loop.simps) (auto simp: Let_def)
  next
    case False
    then have "length (snd (read_entries_loop (drop (4 + be_nat (take 4 bs)) bs))) \<le> length bs - (4 + be_nat (take 4 bs))"
      using "1.IH" by (metis length_drop not_less)
    then show ?thesis using False by (subst read_entries_loop.simps) (simp add: Let_def case_prod_beta)
  qed
qed

lemma char_of_byte_of [simp]: "char_of (unat (byte_of c)) = c"
proof -
  have "(of_char c :: nat) < 256" using of_char_mod_256 [of c, where ?'a = nat] by (metis mod_less_divisor zero_less_numeral)
  then show ?thesis by (simp add: byte_of_def unat_of_nat take_bit_nat_eq_self)
qed

lemma as_bytes_back [simp]: "map (\<lambda>b. char_of (unat b)) (as_bytes s) = s"
  by (simp add: as_bytes_def comp_def)

lemma read_receipts_loop_prefix:
  assumes "\<forall>(l, b) \<in> set rs. length b < 2 ^ 32"
  shows "read_receipts_loop (receipt_bytes rs @ t) out = read_receipts_loop t (fold (\<lambda>(l, b). insert_raw l b) rs out)"
  using assms
proof (induction rs arbitrary: out)
  case (Cons r rs)
  obtain l b where r: "r = (l, b)" by force
  have "read_receipts_loop (receipt_bytes rs @ t) out' = read_receipts_loop t (fold (\<lambda>(l, b). insert_raw l b) rs out')" for out'
    using Cons.IH Cons.prems by simp
  moreover have "unat (word_of_nat (length b) :: u32) = length b" using Cons.prems r by (intro unat_length32) auto
  ultimately show ?case
    by (subst read_receipts_loop.simps) (simp add: r receipt_bytes_def receipt_record_def Let_def)
qed (simp add: receipt_bytes_def)

lemma read_receipts_loop_torn: "torn_receipt t \<Longrightarrow> read_receipts_loop t out = (out, t)"
  by (subst read_receipts_loop.simps) (auto simp: torn_receipt_def Let_def)

lemma read_receipts_loop_rest: "length (snd (read_receipts_loop bs out)) \<le> length bs"
proof (induction bs out rule: read_receipts_loop.induct)
  case (1 bs out)
  let ?len = "be_nat (take 4 (drop 8 bs))"
  show ?case
  proof (cases "length bs < 12 \<or> 12 + ?len > length bs")
    case True
    then show ?thesis by (subst read_receipts_loop.simps) (auto simp: Let_def)
  next
    case False
    let ?next = "read_receipts_loop (drop (12 + ?len) bs)
      (insert_raw (word_of_nat (be_nat (take 8 bs))) (map (\<lambda>b. char_of (unat b)) (take ?len (drop 12 bs))) out)"
    have "length (snd ?next) \<le> length (drop (12 + ?len) bs)" using False by (intro "1.IH") auto
    moreover have "read_receipts_loop bs out = ?next" using False by (subst read_receipts_loop.simps) (simp add: Let_def)
    ultimately show ?thesis by simp
  qed
qed

lemma no_records [simp]: "entry_bytes [] = []" "receipt_bytes [] = []"
  by (simp_all add: entry_bytes_def receipt_bytes_def)

lemma records_Nil [simp]:
  "entry_bytes es = [] \<longleftrightarrow> es = []" "receipt_bytes rs = [] \<longleftrightarrow> rs = []"
proof -
  have *: "be_bytes (w :: u32) \<noteq> []" for w using length_be_bytes [of w] by force
  then show "entry_bytes es = [] \<longleftrightarrow> es = []" by (cases es) (auto simp: entry_bytes_def entry_record_def)
  show "receipt_bytes rs = [] \<longleftrightarrow> rs = []"
    using * by (cases rs) (auto simp: receipt_bytes_def receipt_record_def)
qed

text \<open>A file that holds records and then more: torn bytes are cut off, other bytes may be read as further records.\<close>

lemma read_entries_held:
  assumes "file_bytes f = entry_bytes es @ t" "\<forall>b \<in> set es. length b < 2 ^ 32"
  shows "prefix es (fst (read_entries f))" "prefix (entry_bytes es) (file_bytes (snd (read_entries f)))"
    "torn_entry t \<Longrightarrow> fst (read_entries f) = es" "torn_entry t \<Longrightarrow> file_bytes (snd (read_entries f)) = entry_bytes es"
  using assms(1) read_entries_loop_prefix [OF assms(2), of t] read_entries_loop_torn [of t] read_entries_loop_rest [of t]
  by (auto simp: read_entries_def file_bytes_def take_append split: option.splits)

lemma read_receipts_held:
  assumes "file_bytes f = receipt_bytes rs @ t" "\<forall>(l, b) \<in> set rs. length b < 2 ^ 32"
  shows "prefix (receipt_bytes rs) (file_bytes (snd (read_receipts f)))"
    "torn_receipt t \<Longrightarrow> fst (read_receipts f) = fold (\<lambda>(l, b). insert_raw l b) rs []"
    "torn_receipt t \<Longrightarrow> file_bytes (snd (read_receipts f)) = receipt_bytes rs"
  using assms(1) read_receipts_loop_prefix [OF assms(2), of t "[]"] read_receipts_loop_torn [of t]
    read_receipts_loop_rest [of t "fold (\<lambda>(l, b). insert_raw l b) rs []"]
  by (auto simp: read_receipts_def file_bytes_def take_append case_prod_beta split: option.splits)

section \<open>Histories of a journal\<close>

datatype journal_op =
    JElection string string bytes
  | JEntry string string bytes
  | JReceipt string string u64 string

fun perform :: "(bytes \<Rightarrow> bytes) \<Rightarrow> write_fate \<Rightarrow> journal_op \<Rightarrow> file_journal \<Rightarrow> (string, unit) result \<times> file_journal" where
  "perform sha fate (JElection c e b) J = journal_election sha fate c e b J"
| "perform sha fate (JEntry c e b) J = journal_entry sha fate c e b J"
| "perform sha fate (JReceipt c e l t) J = journal_receipt sha fate c e l t J"

fun op_dir :: "(bytes \<Rightarrow> bytes) \<Rightarrow> journal_op \<Rightarrow> string" where
  "op_dir sha (JElection c e b) = dir_name sha c e"
| "op_dir sha (JEntry c e b) = dir_name sha c e"
| "op_dir sha (JReceipt c e l t) = dir_name sha c e"

text \<open>What a history of accepted operations holds for one election.\<close>

fun op_entry :: "journal_op \<Rightarrow> bytes list" where
  "op_entry (JEntry c e b) = [b]"
| "op_entry _ = []"

fun op_receipt :: "journal_op \<Rightarrow> (u64 \<times> string) list" where
  "op_receipt (JReceipt c e l t) = [(l, t)]"
| "op_receipt _ = []"

fun op_election :: "journal_op \<Rightarrow> bytes option \<Rightarrow> bytes option" where
  "op_election (JElection c e b) held = Some b"
| "op_election _ held = held"

definition ops_in :: "(bytes \<Rightarrow> bytes) \<Rightarrow> string \<Rightarrow> journal_op list \<Rightarrow> journal_op list" where
  "ops_in sha dir h = filter (\<lambda>op. op_dir sha op = dir) h"

definition entries_in :: "(bytes \<Rightarrow> bytes) \<Rightarrow> string \<Rightarrow> journal_op list \<Rightarrow> bytes list" where
  "entries_in sha dir h = concat (map op_entry (ops_in sha dir h))"

definition receipts_in :: "(bytes \<Rightarrow> bytes) \<Rightarrow> string \<Rightarrow> journal_op list \<Rightarrow> (u64 \<times> string) list" where
  "receipts_in sha dir h = concat (map op_receipt (ops_in sha dir h))"

definition election_in :: "(bytes \<Rightarrow> bytes) \<Rightarrow> string \<Rightarrow> journal_op list \<Rightarrow> bytes option" where
  "election_in sha dir h = fold op_election (ops_in sha dir h) None"

definition restored_in :: "(bytes \<Rightarrow> bytes) \<Rightarrow> (bytes \<Rightarrow> 'e option) \<Rightarrow> journal_op list \<Rightarrow> string \<Rightarrow> 'e restored" where
  "restored_in sha from_slice h dir =
     \<lparr>rs_election = the (from_slice (the (election_in sha dir h))), rs_entries = entries_in sha dir h,
      rs_receipts = fold (\<lambda>(l, t). insert_raw l t) (receipts_in sha dir h) []\<rparr>"

fun op_fits :: "journal_op \<Rightarrow> bool" where
  "op_fits (JElection c e b) \<longleftrightarrow> True"
| "op_fits (JEntry c e b) \<longleftrightarrow> length b < 2 ^ 32"
| "op_fits (JReceipt c e l t) \<longleftrightarrow> length t < 2 ^ 32"

text \<open>Entries and receipts are written for an election that is registered.\<close>

fun in_order :: "(bytes \<Rightarrow> bytes) \<Rightarrow> journal_op list \<Rightarrow> journal_op \<Rightarrow> bool" where
  "in_order sha h (JElection c e b) \<longleftrightarrow> True"
| "in_order sha h op \<longleftrightarrow> election_in sha (op_dir sha op) h \<noteq> None"

text \<open>What a write of the given fate leaves on disk, and whether that is all of it.\<close>

definition written :: "write_fate \<Rightarrow> bytes \<Rightarrow> bytes" where
  "written fate rec = (case fate of Written \<Rightarrow> rec | Unopened \<Rightarrow> [] | Torn n \<Rightarrow> take n rec | Unsynced \<Rightarrow> rec)"

fun kept :: "write_fate \<Rightarrow> journal_op \<Rightarrow> bool" where
  "kept fate (JElection c e b) \<longleftrightarrow> fate = Written"
| "kept fate (JEntry c e b) \<longleftrightarrow> length b < 2 ^ 32 \<and> written fate (entry_record b) = entry_record b"
| "kept fate (JReceipt c e l t) \<longleftrightarrow> length t < 2 ^ 32 \<and> written fate (receipt_record l t) = receipt_record l t"

text \<open>The log file an operation appends to, and the bytes it puts there.\<close>

datatype log_file = Entries | Receipts

fun op_file :: "(bytes \<Rightarrow> bytes) \<Rightarrow> journal_op \<Rightarrow> (string \<times> log_file) set" where
  "op_file sha (JElection c e b) = {}"
| "op_file sha (JEntry c e b) = {(dir_name sha c e, Entries)}"
| "op_file sha (JReceipt c e l t) = {(dir_name sha c e, Receipts)}"

fun put :: "write_fate \<Rightarrow> journal_op \<Rightarrow> bytes" where
  "put fate (JElection c e b) = []"
| "put fate (JEntry c e b) = (if length b < 2 ^ 32 then written fate (entry_record b) else [])"
| "put fate (JReceipt c e l t) = (if length t < 2 ^ 32 then written fate (receipt_record l t) else [])"

text \<open>
  The lives of a journal.  An operation may be answered or fail in any way, and the service goes on; or the service
  stops in the middle of an operation or after it failed, and starts again with a load.  The life records the
  operations that are wholly on disk in a file that no failed write has spoiled, and the spoiled files: those to which
  a write failed part way while the service went on.
\<close>

inductive life ::
    "(bytes \<Rightarrow> bytes) \<Rightarrow> (bytes \<Rightarrow> 'e option) \<Rightarrow> file_journal \<Rightarrow> journal_op list \<Rightarrow> (string \<times> log_file) set \<Rightarrow> bool"
  for sha from_slice where
  fresh: "life sha from_slice [] [] {}"
| went_on: "life sha from_slice J h S \<Longrightarrow> in_order sha h op \<Longrightarrow> perform sha fate op J = (r, J') \<Longrightarrow>
    life sha from_slice J' (if kept fate op \<and> op_file sha op \<inter> S = {} then h @ [op] else h)
      (if kept fate op \<or> put fate op = [] then S else S \<union> op_file sha op)"
| restarted: "life sha from_slice J h S \<Longrightarrow> in_order sha h op \<Longrightarrow>
    load from_slice (snd (perform sha fate op J)) = (Ok rs, J') \<Longrightarrow>
    life sha from_slice J' (if kept fate op \<and> op_file sha op \<inter> S = {} then h @ [op] else h) S"

text \<open>A log holds what it should, and after it nothing, a torn record, or anything when it is spoiled.\<close>

definition log_holds :: "bool \<Rightarrow> (bytes \<Rightarrow> bool) \<Rightarrow> bytes \<Rightarrow> bytes \<Rightarrow> bool" where
  "log_holds spoiled tail want bs \<longleftrightarrow> (\<exists>t. bs = want @ t \<and> (spoiled \<or> tail t))"

definition holds ::
    "(string \<times> log_file) set \<Rightarrow> (bytes \<Rightarrow> bool) \<Rightarrow> (bytes \<Rightarrow> bool) \<Rightarrow> (bytes \<Rightarrow> bytes) \<Rightarrow> journal_op list \<Rightarrow> string \<Rightarrow>
     election_files \<Rightarrow> bool" where
  "holds S te tr sha h k fs \<longleftrightarrow> f_election fs = election_in sha k h \<and>
     log_holds ((k, Entries) \<in> S) te (entry_bytes (entries_in sha k h)) (file_bytes (f_entries fs)) \<and>
     log_holds ((k, Receipts) \<in> S) tr (receipt_bytes (receipts_in sha k h)) (file_bytes (f_receipts fs))"

abbreviation clean :: "(string \<times> log_file) set \<Rightarrow> (bytes \<Rightarrow> bytes) \<Rightarrow> journal_op list \<Rightarrow> string \<Rightarrow> election_files \<Rightarrow> bool" where
  "clean S \<equiv> holds S (\<lambda>t. t = []) (\<lambda>t. t = [])"

abbreviation torn_at :: "(string \<times> log_file) set \<Rightarrow> (bytes \<Rightarrow> bytes) \<Rightarrow> journal_op list \<Rightarrow> string \<Rightarrow> election_files \<Rightarrow> bool" where
  "torn_at S \<equiv> holds S torn_entry torn_receipt"

text \<open>What a load restores of an election.\<close>

definition restores ::
    "(bytes \<Rightarrow> bytes) \<Rightarrow> (bytes \<Rightarrow> 'e option) \<Rightarrow> (string \<times> log_file) set \<Rightarrow> journal_op list \<Rightarrow> string \<Rightarrow> 'e restored \<Rightarrow> bool" where
  "restores sha from_slice S h k r \<longleftrightarrow>
     from_slice (the (election_in sha k h)) = Some (rs_election r) \<and>
     prefix (entries_in sha k h) (rs_entries r) \<and> ((k, Entries) \<notin> S \<longrightarrow> rs_entries r = entries_in sha k h) \<and>
     ((k, Receipts) \<notin> S \<longrightarrow> rs_receipts r = fold (\<lambda>(l, t). insert_raw l t) (receipts_in sha k h) [])"

lemma files_of_insert [simp]: "files_of k (insert_raw dir fs J) = (if k = dir then fs else files_of k J)"
  by (simp add: files_of_def)

lemma in_history:
  "entries_in sha k (h @ [op]) = entries_in sha k h @ (if op_dir sha op = k then op_entry op else [])"
  "receipts_in sha k (h @ [op]) = receipts_in sha k h @ (if op_dir sha op = k then op_receipt op else [])"
  "election_in sha k (h @ [op]) =
     (if op_dir sha op = k then op_election op (election_in sha k h) else election_in sha k h)"
  by (simp_all add: entries_in_def receipts_in_def election_in_def ops_in_def)

lemma bytes_append [simp]:
  "entry_bytes (a @ b) = entry_bytes a @ entry_bytes b" "entry_bytes [e] = entry_record e"
  "receipt_bytes (x @ y) = receipt_bytes x @ receipt_bytes y" "receipt_bytes [(l, t)] = receipt_record l t"
  by (simp_all add: entry_bytes_def receipt_bytes_def)

lemma fits_in:
  assumes "list_all op_fits h"
  shows "\<forall>b \<in> set (entries_in sha k h). length b < 2 ^ 32" "\<forall>(l, t) \<in> set (receipts_in sha k h). length t < 2 ^ 32"
proof -
  have "b \<in> set (op_entry op) \<Longrightarrow> op_fits op \<Longrightarrow> length b < 2 ^ 32" for b op by (cases op) auto
  moreover have "(l, t) \<in> set (op_receipt op) \<Longrightarrow> op_fits op \<Longrightarrow> length t < 2 ^ 32" for l t op by (cases op) auto
  ultimately show "\<forall>b \<in> set (entries_in sha k h). length b < 2 ^ 32" "\<forall>(l, t) \<in> set (receipts_in sha k h). length t < 2 ^ 32"
    using assms by (fastforce simp: entries_in_def receipts_in_def ops_in_def list_all_iff)+
qed

lemma append_record_bytes:
  "file_bytes (snd (append_record fate rec file)) = file_bytes file @ written fate rec"
  "is_ok (fst (append_record fate rec file)) \<longleftrightarrow> fate = Written"
  by (auto simp: append_record_def written_def file_bytes_def split: write_fate.splits option.splits)

lemma written_torn:
  "length b < 2 ^ 32 \<Longrightarrow> written fate (entry_record b) \<noteq> entry_record b \<Longrightarrow> torn_entry (written fate (entry_record b))"
  "length t < 2 ^ 32 \<Longrightarrow> written fate (receipt_record l t) \<noteq> receipt_record l t \<Longrightarrow>
     torn_receipt (written fate (receipt_record l t))"
  by (auto simp: written_def not_le intro!: torn_entry_record torn_receipt_record split: write_fate.splits)

lemma log_holds_mono: "log_holds sp te want bs \<Longrightarrow> (\<And>t. te t \<Longrightarrow> te' t) \<Longrightarrow> log_holds sp te' want bs"
  by (auto simp: log_holds_def)

lemma clean_torn: "clean S sha h k fs \<Longrightarrow> torn_at S sha h k fs"
  unfolding holds_def using torn_Nil by (blast intro: log_holds_mono)

lemma perform_other: "k \<noteq> op_dir sha op \<Longrightarrow> files_of k (snd (perform sha fate op J)) = files_of k J"
  by (cases op) (auto simp: journal_election_def journal_entry_def journal_receipt_def Let_def split: prod.splits write_fate.splits)

lemma perform_ordered: "ks_ordered J \<Longrightarrow> ks_ordered (snd (perform sha fate op J))"
  by (cases op)
     (auto simp: journal_election_def journal_entry_def journal_receipt_def Let_def ordered_insert
        split: prod.splits write_fate.splits)

lemma perform_files:
  "f_election (files_of k (snd (perform sha fate op J))) =
     (if op_dir sha op = k \<and> kept fate op then op_election op (f_election (files_of k J)) else f_election (files_of k J))"
  "file_bytes (f_entries (files_of k (snd (perform sha fate op J)))) =
     file_bytes (f_entries (files_of k J)) @ (if (k, Entries) \<in> op_file sha op then put fate op else [])"
  "file_bytes (f_receipts (files_of k (snd (perform sha fate op J)))) =
     file_bytes (f_receipts (files_of k J)) @ (if (k, Receipts) \<in> op_file sha op then put fate op else [])"
  by (cases op; auto simp: journal_election_def journal_entry_def journal_receipt_def Let_def case_prod_beta append_record_bytes
        split: write_fate.splits)+

lemma put_cases:
  "kept fate op \<Longrightarrow> (k, Entries) \<in> op_file sha op \<Longrightarrow> put fate op = entry_bytes (op_entry op)"
  "kept fate op \<Longrightarrow> (k, Receipts) \<in> op_file sha op \<Longrightarrow> put fate op = receipt_bytes (op_receipt op)"
  "\<not> kept fate op \<Longrightarrow> (k, Entries) \<in> op_file sha op \<Longrightarrow> torn_entry (put fate op)"
  "\<not> kept fate op \<Longrightarrow> (k, Receipts) \<in> op_file sha op \<Longrightarrow> torn_receipt (put fate op)"
  by (cases op; auto simp: written_torn)+

lemma op_file_empty:
  "(k, Entries) \<notin> op_file sha op \<Longrightarrow> op_dir sha op = k \<Longrightarrow> op_entry op = []"
  "(k, Receipts) \<notin> op_file sha op \<Longrightarrow> op_dir sha op = k \<Longrightarrow> op_receipt op = []"
  "(k, f) \<in> op_file sha op \<Longrightarrow> op_dir sha op = k"
  by (cases op; auto)+

text \<open>The effect of an operation on one log, for either log: \<open>want\<close> is what the log should hold, \<open>add\<close> what the
  operation adds to that, \<open>here\<close> that it is this log the operation appends to.\<close>

lemma log_step:
  assumes "log_holds sp (\<lambda>t. t = []) want bs" "kep \<and> here \<Longrightarrow> put' = add" "\<not> here \<Longrightarrow> add = []"
  shows "log_holds (sp \<or> here \<and> \<not> kep \<and> put' \<noteq> []) (\<lambda>t. t = [])
      (want @ (if kep \<and> \<not> (here \<and> sp) then add else [])) (bs @ (if here then put' else []))"
    "(\<not> kep \<and> here \<Longrightarrow> te put') \<Longrightarrow> te [] \<Longrightarrow>
      log_holds sp te (want @ (if kep \<and> \<not> (here \<and> sp) then add else [])) (bs @ (if here then put' else []))"
  using assms by (auto simp: log_holds_def)

text \<open>The history after an operation.\<close>

definition recorded_after :: "(bytes \<Rightarrow> bytes) \<Rightarrow> (string \<times> log_file) set \<Rightarrow> journal_op list \<Rightarrow> write_fate \<Rightarrow> journal_op \<Rightarrow> journal_op list" where
  "recorded_after sha S h fate op = (if kept fate op \<and> op_file sha op \<inter> S = {} then h @ [op] else h)"

lemma op_file_cases: "op_file sha op = {} \<or> (\<exists>f. op_file sha op = {(op_dir sha op, f)})"
  by (cases op) auto

lemma after_entries:
  "entry_bytes (entries_in sha k (recorded_after sha S h fate op)) = entry_bytes (entries_in sha k h) @
     (if kept fate op \<and> \<not> ((k, Entries) \<in> op_file sha op \<and> (k, Entries) \<in> S)
      then entry_bytes (if op_dir sha op = k then op_entry op else []) else [])"
  "receipt_bytes (receipts_in sha k (recorded_after sha S h fate op)) = receipt_bytes (receipts_in sha k h) @
     (if kept fate op \<and> \<not> ((k, Receipts) \<in> op_file sha op \<and> (k, Receipts) \<in> S)
      then receipt_bytes (if op_dir sha op = k then op_receipt op else []) else [])"
  by (cases op; auto simp: recorded_after_def in_history)+

lemma after_election:
  "election_in sha k (recorded_after sha S h fate op) =
     (if op_dir sha op = k \<and> kept fate op then op_election op (election_in sha k h) else election_in sha k h)"
  by (cases op) (auto simp: recorded_after_def in_history)

lemma perform_clean:
  assumes "clean S sha h k (files_of k J)"
  shows "clean (if kept fate op \<or> put fate op = [] then S else S \<union> op_file sha op) sha (recorded_after sha S h fate op) k
      (files_of k (snd (perform sha fate op J)))"
    "torn_at S sha (recorded_after sha S h fate op) k (files_of k (snd (perform sha fate op J)))"
proof -
  let ?e = "(k, Entries)" and ?r = "(k, Receipts)" and ?F = "op_file sha op"
  have E: "log_holds (?e \<in> S) (\<lambda>t. t = []) (entry_bytes (entries_in sha k h)) (file_bytes (f_entries (files_of k J)))"
    and R: "log_holds (?r \<in> S) (\<lambda>t. t = []) (receipt_bytes (receipts_in sha k h)) (file_bytes (f_receipts (files_of k J)))"
    and el: "f_election (files_of k J) = election_in sha k h"
    using assms by (auto simp: holds_def)
  have e: "kept fate op \<and> ?e \<in> ?F \<Longrightarrow> put fate op = entry_bytes (if op_dir sha op = k then op_entry op else [])"
    "?e \<notin> ?F \<Longrightarrow> entry_bytes (if op_dir sha op = k then op_entry op else []) = []"
    using put_cases(1) op_file_empty(1,3) by auto
  have r: "kept fate op \<and> ?r \<in> ?F \<Longrightarrow> put fate op = receipt_bytes (if op_dir sha op = k then op_receipt op else [])"
    "?r \<notin> ?F \<Longrightarrow> receipt_bytes (if op_dir sha op = k then op_receipt op else []) = []"
    using put_cases(2) op_file_empty(2,3) by auto
  have spoil: "(f \<in> (if kept fate op \<or> put fate op = [] then S else S \<union> ?F)) =
      (f \<in> S \<or> f \<in> ?F \<and> \<not> kept fate op \<and> put fate op \<noteq> [])" for f by auto
  show "clean (if kept fate op \<or> put fate op = [] then S else S \<union> ?F) sha (recorded_after sha S h fate op) k
      (files_of k (snd (perform sha fate op J)))"
    unfolding holds_def perform_files after_entries after_election el spoil
    by (intro conjI refl; (rule log_step(1) [OF E] log_step(1) [OF R]; use e r in blast))
  show "torn_at S sha (recorded_after sha S h fate op) k (files_of k (snd (perform sha fate op J)))"
    unfolding holds_def perform_files after_entries after_election el
    by (intro conjI refl; (rule log_step(2) [OF E] log_step(2) [OF R]; use e r put_cases(3,4) torn_Nil in blast))
qed

text \<open>A load reads every registered election and cuts off the torn tails.\<close>

definition cleaned :: "election_files \<Rightarrow> election_files" where
  "cleaned fs = (if f_election fs = None then fs
     else fs\<lparr>f_entries := snd (read_entries (f_entries fs)), f_receipts := snd (read_receipts (f_receipts fs))\<rparr>)"

definition read_back :: "(bytes \<Rightarrow> 'e option) \<Rightarrow> election_files \<Rightarrow> 'e restored" where
  "read_back from_slice fs =
     \<lparr>rs_election = the (from_slice (the (f_election fs))), rs_entries = fst (read_entries (f_entries fs)),
      rs_receipts = fst (read_receipts (f_receipts fs))\<rparr>"

definition readable :: "(bytes \<Rightarrow> 'e option) \<Rightarrow> file_journal \<Rightarrow> bool" where
  "readable from_slice J \<longleftrightarrow> (\<forall>k fs b. (k, fs) \<in> set J \<longrightarrow> f_election fs = Some b \<longrightarrow> from_slice b \<noteq> None)"

lemma load_reads:
  assumes "readable from_slice J"
  shows "load from_slice J =
    (Ok (map (read_back from_slice \<circ> snd) (filter (\<lambda>(k, fs). f_election fs \<noteq> None) J)), map (\<lambda>(k, fs). (k, cleaned fs)) J)"
  using assms
proof (induction J)
  case (Cons e J)
  obtain k fs where e: "e = (k, fs)" by force
  have IH: "load from_slice J =
    (Ok (map (read_back from_slice \<circ> snd) (filter (\<lambda>(k, fs). f_election fs \<noteq> None) J)), map (\<lambda>(k, fs). (k, cleaned fs)) J)"
    by (rule Cons.IH) (use Cons.prems in \<open>auto simp: readable_def\<close>)
  have "f_election fs = Some b \<Longrightarrow> from_slice b \<noteq> None" for b using Cons.prems e by (auto simp: readable_def)
  then show ?case using IH by (auto simp: e cleaned_def [of fs] read_back_def [of from_slice fs] Let_def split: option.splits prod.splits)
qed simp

lemma load_OkD: "fst (load from_slice J) = Ok rs \<Longrightarrow> readable from_slice J"
proof -
  have "fst (load from_slice J) = Ok rs \<Longrightarrow> (k, fs) \<in> set J \<Longrightarrow> f_election fs = Some b \<Longrightarrow> from_slice b \<noteq> None" for k fs b
    by (induction J arbitrary: rs) (auto split: option.splits prod.splits sum.splits)
  then show "fst (load from_slice J) = Ok rs \<Longrightarrow> ?thesis" unfolding readable_def by blast
qed

lemma read_back_restores:
  assumes "torn_at S sha h k fs" "list_all op_fits h" "f_election fs = Some b" "from_slice b \<noteq> None"
  shows "restores sha from_slice S h k (read_back from_slice fs)" "clean S sha h k (cleaned fs)"
proof -
  note fit = fits_in [OF assms(2), of sha k]
  obtain t u where e: "file_bytes (f_entries fs) = entry_bytes (entries_in sha k h) @ t" "(k, Entries) \<in> S \<or> torn_entry t"
    and r: "file_bytes (f_receipts fs) = receipt_bytes (receipts_in sha k h) @ u" "(k, Receipts) \<in> S \<or> torn_receipt u"
    and el: "election_in sha k h = Some b"
    using assms(1,3) by (auto simp: holds_def log_holds_def)
  note held = read_entries_held [OF e(1) fit(1)] read_receipts_held [OF r(1) fit(2)]
  show "restores sha from_slice S h k (read_back from_slice fs)"
    using held(1,3,6) e(2) r(2) el assms(3,4) by (auto simp: restores_def read_back_def)
  show "clean S sha h k (cleaned fs)"
    using held(2,4,5,7) e(2) r(2) el assms(3) by (auto simp: holds_def log_holds_def cleaned_def prefix_def)
qed

lemma files_of_map: "f no_files = no_files \<Longrightarrow> files_of k (map (\<lambda>(k, fs). (k, f fs)) J) = f (files_of k J)"
  by (induction J) (auto simp: files_of_def get_raw_def)

lemma ordered_map_values: "ks_ordered (map (\<lambda>(k, v). (k, f v)) J) = ks_ordered J"
  by (simp add: ks_ordered_def sorted_wrt_map case_prod_beta)

lemma files_of_mem: "ks_ordered J \<Longrightarrow> (k, fs) \<in> set J \<Longrightarrow> files_of k J = fs"
  by (simp add: files_of_def ordered_get_raw)

lemma cleaned_no_files [simp]: "cleaned no_files = no_files"
  by (simp add: cleaned_def no_files_def)

section \<open>What survives\<close>

definition journal_wf :: "(bytes \<Rightarrow> bytes) \<Rightarrow> (string \<times> log_file) set \<Rightarrow> file_journal \<Rightarrow> journal_op list \<Rightarrow> bool" where
  "journal_wf sha S J h \<longleftrightarrow> ks_ordered J \<and> list_all op_fits h \<and> (\<forall>k. clean S sha h k (files_of k J))"

lemma kept_fits: "kept fate op \<Longrightarrow> op_fits op" "is_ok (fst (perform sha fate op J)) \<Longrightarrow> kept fate op"
  by (cases op; auto simp: journal_election_def journal_entry_def journal_receipt_def written_def append_record_def Let_def
        split: write_fate.splits if_splits)+

lemma recorded_fits: "list_all op_fits h \<Longrightarrow> list_all op_fits (recorded_after sha S h fate op)"
  using kept_fits(1) by (auto simp: recorded_after_def)

lemma unregistered_clean:
  assumes "clean S sha h k (files_of k J)" "in_order sha h op" "election_in sha k (recorded_after sha S h fate op) = None"
  shows "clean S sha (recorded_after sha S h fate op) k (files_of k (snd (perform sha fate op J)))"
proof -
  have "op_file sha op = {} \<or> election_in sha (op_dir sha op) h \<noteq> None" using assms(2) by (cases op) auto
  then have "op_file sha op = {} \<or> k \<noteq> op_dir sha op"
    using assms(3) after_election [of sha k S h fate op] by (cases op) (auto split: if_splits)
  then have "(k, f) \<notin> op_file sha op" for f using op_file_empty(3) by auto
  then have "(k, f) \<in> (if kept fate op \<or> put fate op = [] then S else S \<union> op_file sha op) \<longleftrightarrow> (k, f) \<in> S" for f by auto
  then show ?thesis using perform_clean(1) [OF assms(1), of fate op] by (simp only: holds_def)
qed

lemma restart:
  assumes wf: "journal_wf sha S J h" and ord: "in_order sha h op"
    and parse: "readable from_slice (snd (perform sha fate op J))"
  defines "h' \<equiv> recorded_after sha S h fate op" and "K \<equiv> snd (perform sha fate op J)"
  defines "dirs \<equiv> map fst (filter (\<lambda>(k, fs). f_election fs \<noteq> None) K)"
  shows "\<exists>rs. load from_slice K = (Ok rs, map (\<lambda>(k, fs). (k, cleaned fs)) K) \<and> list_all2 (restores sha from_slice S h') dirs rs"
    "journal_wf sha S (map (\<lambda>(k, fs). (k, cleaned fs)) K) h'" "distinct dirs" "k \<in> set dirs \<longleftrightarrow> election_in sha k h' \<noteq> None"
proof -
  have fits: "list_all op_fits h'" using wf recorded_fits by (simp add: journal_wf_def h'_def)
  have ks: "ks_ordered K" using wf perform_ordered by (simp add: journal_wf_def K_def)
  have torn: "torn_at S sha h' k (files_of k K)" for k
    using wf perform_clean(2) by (simp add: journal_wf_def h'_def K_def)
  then have el: "f_election (files_of k K) = election_in sha k h'" for k by (simp add: holds_def)
  have held: "restores sha from_slice S h' k (read_back from_slice fs)" "clean S sha h' k (cleaned fs)"
    if "(k, fs) \<in> set K" "f_election fs \<noteq> None" for k fs
  proof -
    note mem = that(1)
    from that(2) obtain b where b: "f_election fs = Some b" by auto
    have "torn_at S sha h' k fs" using torn [of k] files_of_mem [OF ks mem] by simp
    then have t: "torn_at S sha h' k fs" .
    have f: "from_slice b \<noteq> None" using parse mem b unfolding readable_def K_def by blast
    note R = read_back_restores [where from_slice = from_slice, OF t fits b f]
    show "restores sha from_slice S h' k (read_back from_slice fs)" "clean S sha h' k (cleaned fs)" by (rule R)+
  qed
  have "list_all2 (restores sha from_slice S h') dirs (map (read_back from_slice \<circ> snd) (filter (\<lambda>(k, fs). f_election fs \<noteq> None) K))"
    unfolding dirs_def list_all2_map1 list_all2_map2 using held(1) by (auto simp: list_all2_same)
  then show "\<exists>rs. load from_slice K = (Ok rs, map (\<lambda>(k, fs). (k, cleaned fs)) K) \<and> list_all2 (restores sha from_slice S h') dirs rs"
    using load_reads [OF parse] by (auto simp: K_def)
  have "clean S sha h' k (cleaned (files_of k K))" for k
  proof (cases "f_election (files_of k K) = None")
    case True
    then show ?thesis
      using unregistered_clean [OF _ ord, of S k J fate] wf el [of k] by (simp add: h'_def K_def cleaned_def journal_wf_def)
  next
    case False
    then have "get_raw K k = Some (files_of k K)" by (auto simp: files_of_def no_files_def split: option.splits)
    then show ?thesis using held(2) False ordered_get_raw [OF ks] by blast
  qed
  then show "journal_wf sha S (map (\<lambda>(k, fs). (k, cleaned fs)) K) h'"
    using fits ks by (simp add: journal_wf_def ordered_map_values files_of_map)
  show "distinct dirs" using ordered_distinct [OF ks] by (simp add: dirs_def distinct_map_filter)
  have "k \<in> set dirs \<longleftrightarrow> (\<exists>fs. get_raw K k = Some fs \<and> f_election fs \<noteq> None)"
    using ordered_get_raw [OF ks] by (force simp: dirs_def)
  also have "\<dots> \<longleftrightarrow> f_election (files_of k K) \<noteq> None" by (auto simp: files_of_def no_files_def split: option.splits)
  finally show "k \<in> set dirs \<longleftrightarrow> election_in sha k h' \<noteq> None" using el by simp
qed

lemma life_wf: "life sha from_slice J h S \<Longrightarrow> journal_wf sha S J h"
proof (induction rule: life.induct)
  case fresh
  then show ?case
    by (simp add: journal_wf_def holds_def log_holds_def ks_ordered_def files_of_def no_files_def get_raw_def file_bytes_def
        entries_in_def receipts_in_def election_in_def ops_in_def)
next
  case (went_on J h S op fate r J')
  have J': "J' = snd (perform sha fate op J)" using went_on.hyps(3) by simp
  show ?case
    using went_on.IH perform_clean(1) [of S sha h _ J fate op] perform_ordered recorded_fits [of h sha S fate op]
    unfolding journal_wf_def J' recorded_after_def by blast
next
  case (restarted J h S op fate rs J')
  have "readable from_slice (snd (perform sha fate op J))" using load_OkD restarted.hyps(3) by (metis fst_conv)
  note again = restart [OF restarted.IH restarted.hyps(2) this]
  show ?case using again(1,2) restarted.hyps(3) unfolding recorded_after_def by auto
qed

text \<open>The registrations of a history.\<close>

definition registrations :: "journal_op list \<Rightarrow> bytes set" where
  "registrations h = {b. \<exists>c e. JElection c e b \<in> set h}"

lemma election_in_registrations: "election_in sha k h = Some b \<Longrightarrow> b \<in> registrations h"
proof (induction h rule: rev_induct)
  case (snoc op h)
  then show ?case by (cases op) (auto simp: in_history registrations_def split: if_splits)
qed (simp add: election_in_def ops_in_def)

text \<open>C24: the journal survives crashes and failed writes. Take any life of it, in which writes are answered or fail in
  any way and the service stops and starts again, and let the service stop in the middle of any operation, at any byte.
  The journal then loads, and it loads every registered election and no other: its registration; of a log file to which
  no write had failed part way while the service went on, exactly the entries, in order, and the receipts that were
  recorded, among them the interrupted operation when all of it had reached the disk; and of a board log that such a
  failure had spoiled, first of all the entries recorded before it. An operation that was answered, on a file not
  spoiled, is always among the recorded ones, and the loaded journal goes on from there. A write or a rename that
  reported success is taken to last, and so is the directory entry of a new file.\<close>

theorem journal_crash_safe:
  fixes fate :: write_fate
  assumes "life sha from_slice J h S" "in_order sha h op" "\<forall>b \<in> registrations (h @ [op]). from_slice b \<noteq> None"
  defines "h' \<equiv> if kept fate op \<and> op_file sha op \<inter> S = {} then h @ [op] else h"
  shows "\<exists>dirs rs J'. load from_slice (snd (perform sha fate op J)) = (Ok rs, J') \<and>
      list_all2 (restores sha from_slice S h') dirs rs \<and>
      distinct dirs \<and> (\<forall>k. k \<in> set dirs \<longleftrightarrow> election_in sha k h' \<noteq> None) \<and>
      (is_ok (fst (perform sha fate op J)) \<and> op_file sha op \<inter> S = {} \<longrightarrow> h' = h @ [op]) \<and>
      life sha from_slice J' h' S"
proof -
  note wf = life_wf [OF assms(1)]
  let ?K = "snd (perform sha fate op J)"
  have h': "h' = recorded_after sha S h fate op" by (simp add: h'_def recorded_after_def)
  have "registrations h' \<subseteq> registrations (h @ [op])" by (auto simp: h'_def registrations_def)
  moreover have "f_election fs = election_in sha k h'" if "(k, fs) \<in> set ?K" for k fs
    using perform_clean(2) [of S sha h k J fate op] files_of_mem [OF _ that] wf perform_ordered [of J sha fate op]
    by (simp add: journal_wf_def holds_def h')
  ultimately have "readable from_slice ?K" using election_in_registrations [of sha _ h'] assms(3) by (fastforce simp: readable_def)
  note again = restart [OF wf assms(2) this, folded h']
  obtain rs where load: "load from_slice ?K = (Ok rs, map (\<lambda>(k, fs). (k, cleaned fs)) ?K)"
    and "list_all2 (restores sha from_slice S h') (map fst (filter (\<lambda>(k, fs). f_election fs \<noteq> None) ?K)) rs"
    using again(1) by auto
  moreover have "is_ok (fst (perform sha fate op J)) \<and> op_file sha op \<inter> S = {} \<longrightarrow> h' = h @ [op]"
    using kept_fits(2) by (auto simp: h'_def)
  moreover have "life sha from_slice (map (\<lambda>(k, fs). (k, cleaned fs)) ?K) h' S"
    using life.restarted [OF assms(1,2) load] by (simp add: h'_def)
  ultimately show ?thesis using again(3,4) by blast
qed

text \<open>An election registered and one entry answered.\<close>

definition example_life :: "journal_op list" where
  "example_life = [JElection ''c'' ''e'' [1], JEntry ''c'' ''e'' [7]]"

lemma example_lives:
  "life (\<lambda>b. b) Some (snd (perform (\<lambda>b. b) Written (JElection ''c'' ''e'' [1]) [])) [JElection ''c'' ''e'' [1]] {}"
  "\<exists>J. life (\<lambda>b. b) Some J example_life {}"
  "election_in (\<lambda>b. b) k [JElection ''c'' ''e'' [1]] \<noteq> None \<longleftrightarrow> k = dir_name (\<lambda>b. b) ''c'' ''e''"
  "election_in (\<lambda>b. b) k example_life \<noteq> None \<longleftrightarrow> k = dir_name (\<lambda>b. b) ''c'' ''e''"
proof -
  let ?sha = "\<lambda>b :: bytes. b" and ?reg = "JElection ''c'' ''e'' [1]" and ?one = "JEntry ''c'' ''e'' [7]"
  show el: "election_in ?sha k [?reg] \<noteq> None \<longleftrightarrow> k = dir_name ?sha ''c'' ''e''"
    "election_in ?sha k example_life \<noteq> None \<longleftrightarrow> k = dir_name ?sha ''c'' ''e''" for k
    by (simp_all add: election_in_def ops_in_def example_life_def)
  show reg: "life ?sha Some (snd (perform ?sha Written ?reg [])) [?reg] {}"
    using life.went_on [OF life.fresh, of ?sha ?reg Written "fst (perform ?sha Written ?reg [])" "snd (perform ?sha Written ?reg [])" Some]
    by simp
  show "\<exists>J. life ?sha Some J example_life {}"
    using life.went_on [OF reg, of ?one Written _ "snd (perform ?sha Written ?one (snd (perform ?sha Written ?reg [])))"] el(1)
    by (simp add: example_life_def written_def prod_eq_iff) blast
qed

theorem journal_crash_safe_witness:
  "\<exists>J rs J'. life (\<lambda>b. b) Some J example_life {} \<and>
     load Some (snd (perform (\<lambda>b. b) (Torn 3) (JEntry ''c'' ''e'' [9]) J)) = (Ok rs, J') \<and>
     map rs_entries rs = [[[7]]]"
proof -
  let ?sha = "\<lambda>b :: bytes. b" and ?two = "JEntry ''c'' ''e'' [9]" and ?d = "dir_name (\<lambda>b. b) ''c'' ''e''"
  obtain J where life: "life ?sha Some J example_life {}" using example_lives(2) by blast
  have kept: "\<not> kept (Torn 3) ?two" by (simp add: written_def entry_record_def be_bytes_def upt_rec)
  then have same: "(if kept (Torn 3) ?two \<and> op_file ?sha ?two \<inter> {} = {} then example_life @ [?two] else example_life) = example_life"
    by (simp only: simp_thms if_False)
  have io: "in_order ?sha example_life ?two" using example_lives(4) by simp
  obtain dirs rs J' where load: "load Some (snd (perform ?sha (Torn 3) ?two J)) = (Ok rs, J')"
    and R: "list_all2 (restores ?sha Some {} example_life) dirs rs"
    and d: "distinct dirs" "\<forall>k. k \<in> set dirs \<longleftrightarrow> election_in ?sha k example_life \<noteq> None"
    using journal_crash_safe [OF life io, of "Torn 3", unfolded same] by blast
  have "set dirs = {?d}" using d(2) unfolding example_lives(4) by blast
  then have "dirs = [?d]" using d(1) by (cases dirs; cases "tl dirs") auto
  moreover have "entries_in ?sha ?d example_life = [[7]]" by (simp add: entries_in_def ops_in_def example_life_def)
  ultimately have "map rs_entries rs = [[[7]]]" using R by (auto simp: list_all2_Cons1 restores_def)
  with life load show ?thesis by (intro exI conjI)
qed

section \<open>A write that fails without a crash\<close>

lemma torn_swallows:
  assumes "length e < 2 ^ 32" "4 \<le> n" "n + length e' < length e"
  shows "torn_entry (take n (entry_record e) @ entry_record e')"
proof -
  have "be_nat (take 4 (take n (entry_record e) @ entry_record e')) = length e"
    using assms unat_length32 [OF assms(1)] by (simp add: entry_record_def)
  then show ?thesis using assms(2,3) by (simp add: torn_entry_def entry_record_def)
qed

lemma restored_exactly: "restores sha from_slice {} h k r \<longleftrightarrow> from_slice (the (election_in sha k h)) \<noteq> None \<and> r = restored_in sha from_slice h k"
  by (auto simp: restores_def restored_in_def)

lemma restored_map: "list_all2 (restores sha from_slice {} h) dirs rs \<Longrightarrow> rs = map (restored_in sha from_slice h) dirs"
  by (induction rule: list_all2_induct) (auto simp: restored_exactly)

text \<open>C40: a board entry whose write fails part way is not cut off until the next start. When at least the length of the
  record was written, and a later entry is short enough that it and the written bytes together do not fill the record
  that failed, the later entry is answered as written, yet the next load takes it for the rest of the torn record and
  cuts both off: it restores the history without the entry that was answered.\<close>

theorem write_error_loses_entry:
  assumes "life sha from_slice J h {}" "election_in sha (dir_name sha c i) h \<noteq> None"
    and "\<forall>b \<in> registrations h. from_slice b \<noteq> None"
    and "length e < 2 ^ 32" "4 \<le> n" "n + length e' < length e"
  shows "\<exists>J1 J2 J3 dirs. journal_entry sha (Torn n) c i e J = (Err ''write'', J1) \<and>
      journal_entry sha Written c i e' J1 = (Ok (), J2) \<and>
      load from_slice J2 = (Ok (map (restored_in sha from_slice h) dirs), J3) \<and> dir_name sha c i \<in> set dirs"
proof -
  note wf = life_wf [OF assms(1)]
  let ?d = "dir_name sha c i" and ?f = "\<lambda>t fs. fs\<lparr>f_entries := Some (file_bytes (f_entries fs) @ t)\<rparr>"
  let ?t = "take n (entry_record e)"
  define J1 where "J1 = insert_raw ?d (?f ?t (files_of ?d J)) J"
  define J2 where "J2 = insert_raw ?d (?f (entry_record e') (files_of ?d J1)) J1"
  have clean: "clean {} sha h k (files_of k J)" for k using wf by (simp add: journal_wf_def)
  have torn: "torn_at {} sha h k (files_of k J2)" for k
    using clean [of k] torn_swallows [OF assms(4-6)] by (auto simp: J1_def J2_def holds_def log_holds_def file_bytes_def)
  have ord: "ks_ordered J2" using wf by (simp add: J1_def J2_def journal_wf_def ordered_insert)
  have fs: "torn_at {} sha h k fs" if "(k, fs) \<in> set J2" for k fs using torn [of k] files_of_mem [OF ord that] by simp
  have parse: "readable from_slice J2"
    using fs election_in_registrations [of sha _ h] assms(3) by (fastforce simp: readable_def holds_def)
  let ?regs = "filter (\<lambda>(k, fs). f_election fs \<noteq> None) J2"
  have "restores sha from_slice {} h k (read_back from_slice fs)" if "(k, fs) \<in> set ?regs" for k fs
    using that read_back_restores(1) [where from_slice = from_slice, OF fs] wf parse by (auto simp: journal_wf_def readable_def)
  then have "list_all2 (restores sha from_slice {} h) (map fst ?regs) (map (read_back from_slice \<circ> snd) ?regs)"
    unfolding list_all2_map1 list_all2_map2 by (auto simp: list_all2_same)
  note load = load_reads [OF parse, unfolded restored_map [OF this]]
  have "(?d, files_of ?d J2) \<in> set J2" using ord by (simp add: ordered_get_raw files_of_def J2_def)
  moreover have "f_election (files_of ?d J2) \<noteq> None" using torn [of ?d] assms(2) by (simp add: holds_def)
  ultimately have "?d \<in> set (map fst ?regs)" by force
  moreover have "journal_entry sha (Torn n) c i e J = (Err ''write'', J1)" "journal_entry sha Written c i e' J1 = (Ok (), J2)"
    using assms(4-6) by (simp_all add: journal_entry_def append_record_def J1_def J2_def Let_def)
  ultimately show ?thesis using load by blast
qed

theorem write_error_loses_entry_witness:
  "\<exists>J J1 J2 J3 dirs. life (\<lambda>b. b) Some J [JElection ''c'' ''e'' [1]] {} \<and>
     journal_entry (\<lambda>b. b) (Torn 6) ''c'' ''e'' (replicate 9 0) J = (Err ''write'', J1) \<and>
     journal_entry (\<lambda>b. b) Written ''c'' ''e'' [7] J1 = (Ok (), J2) \<and>
     load Some J2 = (Ok (map (restored_in (\<lambda>b. b) Some [JElection ''c'' ''e'' [1]]) dirs), J3) \<and>
     dir_name (\<lambda>b. b) ''c'' ''e'' \<in> set dirs"
  using example_lives(1,3) write_error_loses_entry [OF example_lives(1), of "''c''" "''e''" "replicate 9 0" 6 "[7]"]
  by fastforce

text \<open>Elections have directories of their own, as far as the digest tells inputs apart.\<close>

lemma dir_name_inj:
  assumes "inj sha" "length c < 2 ^ 64" "length i < 2 ^ 64" "length c' < 2 ^ 64" "length i' < 2 ^ 64"
    and "dir_name sha c i = dir_name sha c' i'"
  shows "c = c' \<and> i = i'"
proof -
  have "frame (frame [] (as_bytes c)) (as_bytes i) = frame (frame [] (as_bytes c')) (as_bytes i')"
    using assms(1,6) by (simp add: dir_name_def inj_eq)
  then have "be_bytes (word_of_nat (length (as_bytes c)) :: u64) @ as_bytes c @
      be_bytes (word_of_nat (length (as_bytes i)) :: u64) @ as_bytes i @ [] =
    be_bytes (word_of_nat (length (as_bytes c')) :: u64) @ as_bytes c' @
      be_bytes (word_of_nat (length (as_bytes i')) :: u64) @ as_bytes i' @ []"
    by (simp add: frame_def)
  then show ?thesis using framed_inj assms(2-5) by (metis as_bytes_inj length_as_bytes)
qed

end
