(* ===== verification/Spec2Isabelle.thy ===== *)
theory Spec2Isabelle
  imports Acl_Store Scan Counter Session_Sweep Auth_Challenge Step_Up Idempotency_Http Board_Log Ceremony Voting_Tally
    Journal_Log
begin

text \<open>
  \<^bold>\<open>A verification library for the Verifiable Trust Infrastructure.\<close>

  The repository holds the service back ends of a trust agent and a trust community. Both stand on
  one foundation, the crate \<^verbatim>\<open>vti-common\<close> with the pure rules it shares with clients
  in \<^verbatim>\<open>vta-sdk\<close>: who may do what (identifiers, context paths, access lists), an ordered
  key-value store with atomic batches, and on it sessions, refresh tokens, the sign-in handlers and
  the records of idempotency keys. This library models that foundation, the agent's step-up approval
  and keyed Trust Tasks, which use it, the commitment of a data room to its records, and of the voting
  crate the public board and the trustees, and proves what makes them correct.

  \<^bold>\<open>Theories and the code they model.\<close>

  \<^item> \<^verbatim>\<open>VTI_Prelude\<close>: machine words with saturating arithmetic, results as sums,
    splitting and joining of byte strings.
  \<^item> \<^verbatim>\<open>Context_Path\<close> (\<^verbatim>\<open>src/vta-sdk/src/identifier.rs\<close>,
    \<^verbatim>\<open>context_path.rs\<close>): the validators as byte loops, shown equivalent to their grammars,
    and the path hierarchy.
  \<^item> \<^verbatim>\<open>Acl\<close> (\<^verbatim>\<open>src/vta-sdk/src/acl.rs\<close>,
    \<^verbatim>\<open>src/vti-common/src/acl/mod.rs\<close>, \<^verbatim>\<open>auth/extractor.rs\<close>): roles,
    capabilities, entries, scopes, claims, and the checks on a change of the list: no change confers
    more than its author holds.
  \<^item> \<^verbatim>\<open>Kv_Store\<close>, \<^verbatim>\<open>Scan\<close>, \<^verbatim>\<open>Counter\<close>
    (\<^verbatim>\<open>src/vti-common/src/store/mod.rs\<close>, \<^verbatim>\<open>counter.rs\<close>): the keyspace as
    an ordered association list with its conditional and batched writes, scans and their pager, and
    the index counters at 32 bits, with what happens at the end of their range.
  \<^item> \<^verbatim>\<open>Store_Prog\<close>, \<^verbatim>\<open>Store_Logic\<close>: asynchronous code as programs whose
    steps are single store operations. \<^term>\<open>run\<close> executes one alone; \<^term>\<open>reach\<close> interleaves a
    pool of them one operation at a time, which is what the awaits of the source allow. The second
    theory holds the rules the concurrent theorems rest on: programs that never create a key, keys
    claimed at most once, tokens issued at most once. \<^verbatim>\<open>Store_Claims\<close> adds the rule for a
    row that is won by a conditional write: at most one of the effects guarded by it succeeds.
  \<^item> \<^verbatim>\<open>Acl_Store\<close> (\<^verbatim>\<open>acl/mod.rs\<close>): the stored list refines a map from DIDs
    to entries, and concurrent versioned writes have one winner.
  \<^item> \<^verbatim>\<open>Session\<close>, \<^verbatim>\<open>Session_Writers\<close>, \<^verbatim>\<open>Session_Sweep\<close>
    (\<^verbatim>\<open>auth/session.rs\<close>): the session rows with their challenge, refresh-token and
    tombstone indexes, their concurrent updates, and the sweep of expired rows.
  \<^item> \<^verbatim>\<open>Auth_Flow\<close> (\<^verbatim>\<open>auth/backend.rs\<close>,
    \<^verbatim>\<open>auth/handlers/*.rs\<close>): the challenge, authenticate and refresh handlers whole;
    \<^verbatim>\<open>Auth_Refresh\<close> shows what one renewal does on each of its paths,
    \<^verbatim>\<open>Auth_Race\<close> what concurrent requests can and cannot do (a renewal can undo a sign-out),
    \<^verbatim>\<open>Auth_Login\<close> what a sign-in establishes, and \<^verbatim>\<open>Auth_Challenge\<close> that a
    challenge discloses nothing and that the outstanding ones are bounded.
  \<^item> \<^verbatim>\<open>Auth_Extract\<close> (\<^verbatim>\<open>auth/extractor.rs\<close>,
    \<^verbatim>\<open>auth/jwt.rs\<close>): how a request's bearer token or cookie becomes authenticated claims, and
    the extractors that demand a role or a recent step-up.
  \<^item> \<^verbatim>\<open>Step_Up\<close> (\<^verbatim>\<open>auth/step_up.rs\<close>,
    \<^verbatim>\<open>src/vta-service/src/trust_tasks/step_up.rs\<close>): minting a step-up challenge and the
    approve-response handler; exactly which answers elevate a session, and that two concurrent copies
    of one answer can both do so.
  \<^item> \<^verbatim>\<open>Merkle\<close> (\<^verbatim>\<open>src/vti-rooms/src/lib.rs\<close>, \<^verbatim>\<open>wire.rs\<close>,
    \<^verbatim>\<open>merkle.rs\<close>): the tree over a room's records; inclusion proofs are complete and sound,
    and a commitment determines the records.
  \<^item> \<^verbatim>\<open>Idempotency\<close>, \<^verbatim>\<open>Idempotency_Http\<close>
    (\<^verbatim>\<open>src/vti-common/src/idempotency/*.rs\<close>,
    \<^verbatim>\<open>src/vta-service/src/trust_tasks/idempotency.rs\<close> and the end of the dispatcher in
    \<^verbatim>\<open>trust_tasks/mod.rs\<close>): claiming a key before the work and recording the outcome after it;
    a keyed task takes effect at most once, and a repeat is answered from the record. The second theory
    is the HTTP layer.
  \<^item> \<^verbatim>\<open>Board_Log\<close> (\<^verbatim>\<open>src/vti-voting/src/board.rs\<close>): the public board of an
    election, an append-only Merkle log; its inclusion and consistency proofs are complete and sound.
  \<^item> \<^verbatim>\<open>Election\<close> (\<^verbatim>\<open>election.rs\<close>): the framed contexts that bind a cast or a proof to one
    election.
  \<^item> \<^verbatim>\<open>Trustee_Group\<close>, \<^verbatim>\<open>Trustees\<close>, \<^verbatim>\<open>Encrypted_Ballots\<close>
    (\<^verbatim>\<open>trustees.rs\<close>): the trustees' cryptography over a group of prime order. The first theory
    holds proofs of knowledge and interpolation, the second joint key generation, threshold decryption
    and sealed payloads, the third encrypted votes, their proofs and the tally: any threshold of key
    holders decrypts to what was encrypted, checked votes are votes, and the totals count them.
  \<^item> \<^verbatim>\<open>Ceremony\<close> (\<^verbatim>\<open>ceremony.rs\<close>): the ceremony that forms the election key and the
    decryption round, as the ballot box runs them: an invariant of every reachable state, that the
    deadlines settle the ceremony whatever trustees do, that it takes a bounded number of accepted steps
    and a refused or repeated step changes nothing, and that a complete round opens every target.
  \<^item> \<^verbatim>\<open>Voting_Rules\<close>, \<^verbatim>\<open>Voting_Tally\<close> (\<^verbatim>\<open>rules.rs\<close>, \<^verbatim>\<open>tally.rs\<close>): the
    rules for manifests and ballots and the count; a ballot passes exactly when it answers every question
    once as the question admits, and the totals of checked ballots are the exact ones.
  \<^item> \<^verbatim>\<open>Journal_Log\<close> (\<^verbatim>\<open>src/vti-voting-service/src/journal.rs\<close>): the files in which a ballot
    box makes its board durable; a crash at any point of a write loses nothing that was answered, in every
    log file to which no write has failed since the last start, while a write that fails without a crash can
    swallow a later one. That names in a directory survive a crash is assumed of the file system.

  \<^bold>\<open>Conventions.\<close> A struct is a record, an enum a datatype with the source's constructors,
  \<^verbatim>\<open>Result\<close> a sum with \<^verbatim>\<open>Err\<close> on the left, and a fixed-width integer a word.
  A stored value is the constructor of its type; a row that does not decode has a constructor of its
  own, so that the error path of a corrupt row is modelled. The clock and the source of random
  identifiers belong to the world a program runs in. SHA-256, the minting of an access token, the
  host's access check and its attestation are arguments; what a theorem relies on (that the digest is
  injective on the values at hand, that fresh identifiers do not repeat) is a hypothesis of it. The
  trustees' group, its scalars, hashes and cipher are the fields of one record; that the group has prime
  order is a hypothesis, and soundness of a proof is stated up to the single challenge that would let a
  false statement pass.

  \<^bold>\<open>Loops and bounds.\<close> Every modelled loop is a total function: by structural recursion
  on its data, on the length of the list or string it shortens (the levels of a tree, trimming), or on
  the source's own bound (sixty-four attempts of a conditional write). A pager is
  stepped by its caller, and the theorem about it gives the number of steps after which it ends.

  \<^bold>\<open>Not modelled.\<close> Serialisation, transport, cryptography, logging text and configuration
  are the host's or a library's; the vsock back end and at-rest encryption of the store sit below the
  interface modelled here. Proof and WebAuthn verification, JSON canonicalisation and the types the
  specification crates generate are arguments; the error of converting a row of a count to its generated
  type is left out. The in-process lock around the challenge cap is not modelled: the cap is a theorem
  about one request at a time, which is what the lock ensures for a subject. The rest of the services built on top (routes,
  policies, room groups, anonymous tickets, command lines) is outside this library.
\<close>

section \<open>Sessions and access tokens\<close>

text \<open>What the JWT library promises of a minted token: decoding gives back the claims it was minted
  with. \<open>show_role\<close> is the host's rendering of a role.\<close>

definition decodes_minted :: "'r auth_backend \<Rightarrow> ('r \<Rightarrow> string) \<Rightarrow> jwt_decoder \<Rightarrow> bool" where
  "decodes_minted B show_role decode \<longleftrightarrow>
     (\<forall>m token. b_mint_access_token B m = Ok token \<longrightarrow>
        (\<exists>jc. decode token = Ok jc \<and> jc_sub jc = m_subject m \<and> jc_session_id jc = m_session_id m \<and>
           jc_role jc = show_role (m_role m) \<and> jc_contexts jc = m_contexts m \<and> jc_jti jc = m_jti m))"

lemma refresh_mint_decodes:
  assumes "decodes_minted B show_role decode" and "refresh_mint B s rr now jti = Ok access"
  obtains jc where "decode access = Ok jc" "jc_sub jc = sess_did s" "jc_session_id jc = session_id s"
    "jc_role jc = show_role (rr_role rr)" "jc_contexts jc = rr_contexts rr" "jc_jti jc = jti"
  using assms unfolding decodes_minted_def refresh_mint_def by (fastforce split: prod.splits)

lemma token_refused:
  assumes "decode token = Ok jc"
    and "\<And>s. get_raw (w_ks w) (session_key (jc_session_id jc)) = Some (RSession s) \<Longrightarrow>
      \<exists>j. token_id s = Some j \<and> jc_jti jc \<noteq> j"
  shows "\<not> is_ok (fst (run (authenticate_token (Some decode) token) w))"
proof
  assume "is_ok (fst (run (authenticate_token (Some decode) token) w))"
  then obtain c s where "fst (run (authenticate_token (Some decode) token) w) = Ok (c, s)"
    unfolding is_ok_iff by auto
  then show False using assms unfolding run_authenticate_token(2) token_admitted_def by auto
qed

text \<open>C10: the access tokens of a session follow its renewals. Right after a renewal the access token it
  handed out authenticates its holder as the session's subject, with the role and contexts the access list
  gives the subject now; every access token of the session that carries another identifier, in particular
  the one before, is refused; and after a sign-out none of them authenticates.\<close>

theorem access_token_follows_session:
  fixes w :: "(session_row, auth_audit_event) world"
  assumes renew: "renewable_with (b_sha B) (ri_refresh_token input) s (w_ks w)"
      "refresh_checks B input s (w_now w) = Ok ()" "b_check_acl B (sess_did s) (w_now w) = Ok rr"
      "refresh_mint B s rr (w_now w) (w_supply w (Suc (w_drawn w))) = Ok access"
      "b_sha B (w_supply w (w_drawn w)) \<noteq> b_sha B (ri_refresh_token input)"
    and jwt: "decodes_minted B show_role decode" "role_parse (show_role (rr_role rr)) = Ok role"
    and w': "w' = world_after (handle_refresh B input) w"
    and out: "w'' = world_after (delete_session (b_sha B) (session_id s)) w'"
  shows "(\<exists>c s'. fst (run (authenticate_token (Some decode) access) w') = Ok (c, s') \<and>
       c_did c = sess_did s \<and> c_role c = role \<and> c_allowed_contexts c = rr_contexts rr \<and>
       c_session_id c = session_id s) \<and>
    (\<forall>token jc. decode token = Ok jc \<and> jc_session_id jc = session_id s \<longrightarrow>
       (jc_jti jc \<noteq> w_supply w (Suc (w_drawn w)) \<longrightarrow>
          \<not> is_ok (fst (run (authenticate_token (Some decode) token) w'))) \<and>
       \<not> is_ok (fst (run (authenticate_token (Some decode) token) w'')))"
proof -
  let ?s' = "rotated_session B s (w_now w) (w_supply w (w_drawn w)) (w_supply w (Suc (w_drawn w)))"
  have row: "get_raw (w_ks w') (session_key (session_id s)) = Some (RSession ?s')"
    using rotation_world(2) [OF renew] by (simp add: w' renewable_with_def)
  obtain jc where "decode access = Ok jc" "jc_sub jc = sess_did s" "jc_session_id jc = session_id s"
    "jc_role jc = show_role (rr_role rr)" "jc_contexts jc = rr_contexts rr" "jc_jti jc = w_supply w (Suc (w_drawn w))"
    using jwt(1) renew(4) by (rule refresh_mint_decodes)
  then have admitted: "\<exists>c. token_admitted decode (w_ks w') access c ?s' \<and> c_did c = sess_did s \<and> c_role c = role \<and>
      c_allowed_contexts c = rr_contexts rr \<and> c_session_id c = session_id s"
    using row jwt(2) by (auto simp: token_admitted_def)
  have "get_raw (w_ks w'') (session_key (session_id s)) = None"
    using run_delete_session [OF row, of "b_sha B"] by (simp add: out world_after_def removal_get_raw)
  then have "\<not> is_ok (fst (run (authenticate_token (Some decode) token) w''))"
    if "decode token = Ok jc" "jc_session_id jc = session_id s" for token jc
    using that by (intro token_refused [of decode token jc]) auto
  moreover have "\<not> is_ok (fst (run (authenticate_token (Some decode) token) w'))"
    if "decode token = Ok jc" "jc_session_id jc = session_id s" "jc_jti jc \<noteq> w_supply w (Suc (w_drawn w))" for token jc
    using that row by (intro token_refused [of decode token jc]) auto
  ultimately show ?thesis using admitted unfolding run_authenticate_token(2) by blast
qed

definition example_issuer :: "string auth_backend" where
  "example_issuer = example_backend\<lparr>b_mint_access_token := (\<lambda>m.
     if m_subject m = ''did:key:z1'' \<and> m_session_id m = ''did:key:z1'' \<and> m_role m = ''admin'' \<and> m_contexts m = [''c'']
     then Ok (''jwt.'' @ m_jti m) else Err AInternal)\<rparr>"

definition example_decode :: jwt_decoder where
  "example_decode token =
     (case strip_prefix ''jwt.'' token of
        Some jti \<Rightarrow> Ok (with_jti jti (new_claims ''VTA'' ''did:key:z1'' ''did:key:z1'' ''admin'' [''c''] 900 False 1000))
      | None \<Rightarrow> Err Unauthorized)"

theorem access_token_follows_session_witness:
  "\<not> is_ok (fst (run (authenticate_token (Some example_decode) ''jwt.jti'')
     (world_after (handle_refresh example_issuer example_refresh_input) example_refresh_world)))"
proof -
  let ?rr = "\<lparr>rr_role = ''admin'', rr_contexts = [''c'']\<rparr>"
  have jwt: "decodes_minted example_issuer (\<lambda>r. r) example_decode" "role_parse (rr_role ?rr) = Ok Admin"
    by (auto simp: decodes_minted_def example_issuer_def example_decode_def with_jti_def new_claims_def role_parse_def
        split: if_splits)
  have renew: "renewable_with (b_sha example_issuer) (ri_refresh_token example_refresh_input) example_refresh_session
      (w_ks example_refresh_world)"
    "refresh_checks example_issuer example_refresh_input example_refresh_session (w_now example_refresh_world) = Ok ()"
    using example_rotation(1,2)
    by (simp_all add: example_issuer_def refresh_checks_def example_refresh_defs split: if_splits)
  have mint: "b_check_acl example_issuer (sess_did example_refresh_session) (w_now example_refresh_world) = Ok ?rr"
    "refresh_mint example_issuer example_refresh_session ?rr (w_now example_refresh_world)
      (w_supply example_refresh_world (Suc (w_drawn example_refresh_world))) = Ok ''jwt.tokx''"
    "b_sha example_issuer (w_supply example_refresh_world (w_drawn example_refresh_world)) \<noteq>
      b_sha example_issuer (ri_refresh_token example_refresh_input)"
    by (simp_all add: example_issuer_def refresh_mint_def refresh_amr_acr_def example_refresh_defs)
  define jc where "jc = with_jti ''jti'' (new_claims ''VTA'' ''did:key:z1'' ''did:key:z1'' ''admin'' [''c''] 900 False 1000)"
  have "example_decode ''jwt.jti'' = Ok jc" "jc_session_id jc = session_id example_refresh_session"
    "jc_jti jc \<noteq> w_supply example_refresh_world (Suc (w_drawn example_refresh_world))"
    by (simp_all add: example_decode_def jc_def with_jti_def new_claims_def example_refresh_defs)
  then show ?thesis
    using access_token_follows_session [OF renew mint jwt refl refl] by blast
qed

end
